theory Spec2Isabelle
  imports Main
begin

section \<open>The AST as the dead-code pass sees it\<close>

text \<open>
  \<^verbatim>\<open>V3Dead.cpp\<close> works on the compiler's AST through pointers. The embedding keeps
  the ownership tree as a datatype (a node owns the four child lists \<open>op1p .. op4p\<close>,
  each a \<open>nextp\<close>-linked list) and keeps every cross pointer (\<open>dtypep()\<close>,
  \<open>modp()\<close>, \<open>varp()\<close>, ...) as the address of its target. A null pointer is
  \<open>None\<close>. The per-node scratch counter \<open>user1\<close> is a store from addresses
  to integers.
\<close>

type_synonym addr = nat

text \<open>The node classes the two visitors dispatch on. \<open>AstNodeDType\<close> stands for
  every data type that is neither a \<open>AstRefDType\<close>, a \<open>AstNodeClassDType\<close> nor a
  \<open>AstMemberDType\<close>; \<open>AstNodeMath\<close> for every expression that is neither a variable
  reference nor an enum item reference; \<open>AstNode\<close> for everything else.\<close>

datatype kind =
    AstNetlist | AstModule | AstPackage | AstCell | AstScope | AstCFunc
  | AstVarRef | AstVarXRef | AstNodeFTaskRef
  | AstRefDType | AstNodeClassDType | AstMemberDType | AstNodeDType
  | AstEnumItemRef | AstModport | AstTypedef | AstVarScope | AstVar
  | AstNodeAssign | AstNodeMath | AstNode

record attrs =
  ntype :: kind
  dtypep :: "addr option"
  getChildDTypep :: "addr option"
  virtRefDTypep :: "addr option"
  modp :: "addr option"
  scopep :: "addr option"
  aboveScopep :: "addr option"
  varScopep :: "addr option"
  varp :: "addr option"
  packagep :: "addr option"
  level :: int
  internal :: bool
  generic :: bool
  isTop :: bool
  attrPublic :: bool
  isSigPublic :: bool
  isIO :: bool
  isTemp :: bool
  isParam :: bool
  isTrace :: bool
  isOutputter :: bool

datatype node =
  Node (addr_of: addr) (attrs_of: attrs)
       (op1p: "node list") (op2p: "node list") (op3p: "node list") (op4p: "node list")

text \<open>All nodes of a subtree, parent first, children in \<open>op1p .. op4p\<close> order.\<close>

fun nodes :: "node \<Rightarrow> node list"
and nodes_list :: "node list \<Rightarrow> node list" where
  "nodes (Node a at o1 o2 o3 o4) =
     Node a at o1 o2 o3 o4 # (nodes_list o1 @ nodes_list o2 @ nodes_list o3 @ nodes_list o4)"
| "nodes_list [] = []"
| "nodes_list (n # ns) = nodes n @ nodes_list ns"

definition addrs :: "node \<Rightarrow> addr list" where
  "addrs n = map addr_of (nodes n)"

definition addrs_list :: "node list \<Rightarrow> addr list" where
  "addrs_list ns = map addr_of (nodes_list ns)"

text \<open>Dereferencing a pointer: the node stored at an address of a forest.\<close>

definition deref :: "node list \<Rightarrow> addr \<Rightarrow> node option" where
  "deref forest a = find (\<lambda>n. addr_of n = a) (nodes_list forest)"

text \<open>\<open>unlinkFrBack()\<close> followed by \<open>deleteTree()\<close>: the node at the address leaves
  its parent's child list together with everything below it.\<close>

fun del_node :: "addr \<Rightarrow> node \<Rightarrow> node"
and del_list :: "addr \<Rightarrow> node list \<Rightarrow> node list" where
  "del_node a (Node b at o1 o2 o3 o4) =
     Node b at (del_list a o1) (del_list a o2) (del_list a o3) (del_list a o4)"
| "del_list a [] = []"
| "del_list a (n # ns) =
     (if addr_of n = a then del_list a ns else del_node a n # del_list a ns)"

text \<open>The class tests of the source (\<open>castNodeModule()\<close>, \<open>castPackage()\<close>, ...)
  and the classes below \<open>AstNodeMath\<close>, which \<open>DeadModVisitor\<close> does not enter.\<close>

definition castNodeModule :: "node \<Rightarrow> bool" where
  "castNodeModule n = (ntype (attrs_of n) = AstModule \<or> ntype (attrs_of n) = AstPackage)"

definition isNodeMath :: "kind \<Rightarrow> bool" where
  "isNodeMath k = (k = AstNodeMath \<or> k = AstVarRef \<or> k = AstVarXRef \<or> k = AstEnumItemRef)"

section \<open>The state of \<open>DeadVisitor\<close>\<close>

datatype error = NullPointer | Dangling | NoBackp

text \<open>Where a subtree was unlinked: in a visit function of the traversal, or in one of
  the sweeps.\<close>

datatype site = InVisit | DeadVarScope | DeadAssign | DeadVar | DeadDType
  | DeadScope | DeadCell | DeadModule

record mode =
  elimUserVars :: bool
  elimDTypes :: bool
  elimScopes :: bool
  elimCells :: bool

text \<open>
  The members of the class, plus: \<open>rootp\<close>, the netlist (\<open>v3Global.rootp()\<close>);
  \<open>m_deleteps\<close>, the queue of \<open>pushDeletep\<close> (subtrees that are unlinked but stay
  allocated until the visitor is destroyed); and \<open>deaths\<close>, the trace of the
  unlink calls in the order they happen, each with the unlinked subtree and the counter
  store at the moment the code decided on it (what the \<open>UINFO\<close> lines of the source
  print). \<open>m_modp\<close> holds the current module's address and whether it is a package
  (\<open>m_modp->castPackage()\<close>). A nulled slot of \<open>m_varsp\<close> or \<open>m_scopesp\<close> is
  \<open>None\<close>.
\<close>

record dv =
  user1 :: "addr \<Rightarrow> int"
  m_modp :: "(addr \<times> bool) option"
  m_varsp :: "addr option list"
  m_dtypesp :: "addr list"
  m_vscsp :: "addr list"
  m_scopesp :: "addr option list"
  m_cellsp :: "addr list"
  m_assignMap :: "(addr \<times> addr) list"
  m_sideEffect :: bool
  rootp :: node
  m_deleteps :: "node list"
  deaths :: "(site \<times> node \<times> (addr \<Rightarrow> int)) list"

definition user1Inc :: "addr \<Rightarrow> int \<Rightarrow> dv \<Rightarrow> dv" where
  "user1Inc a k s = s\<lparr>user1 := (user1 s)(a := user1 s a + k)\<rparr>"

definition incOpt :: "addr option \<Rightarrow> dv \<Rightarrow> dv" where
  "incOpt p s = (case p of None \<Rightarrow> s | Some a \<Rightarrow> user1Inc a 1 s)"

definition checkAll :: "addr \<Rightarrow> attrs \<Rightarrow> dv \<Rightarrow> dv" where
  "checkAll a at s =
     incOpt (getChildDTypep at)
       (if dtypep at \<noteq> Some a then incOpt (dtypep at) s else s)"

definition checkDType :: "mode \<Rightarrow> addr \<Rightarrow> attrs \<Rightarrow> dv \<Rightarrow> dv" where
  "checkDType f a at s =
     incOpt (virtRefDTypep at)
       (if \<not> generic at \<and> elimDTypes f \<and> ntype at \<noteq> AstMemberDType
        then s\<lparr>m_dtypesp := m_dtypesp s @ [a]\<rparr> else s)"

definition mightElimVar :: "mode \<Rightarrow> attrs \<Rightarrow> bool" where
  "mightElimVar f v =
     (\<not> isSigPublic v \<and> \<not> isIO v
      \<and> (isTemp v \<or> (isParam v \<and> \<not> isTrace v) \<or> elimUserVars f))"

text \<open>The package pointer of a reference: nulled under \<open>m_elimCells\<close>, counted
  otherwise.\<close>

definition packageLink :: "mode \<Rightarrow> attrs \<Rightarrow> dv \<Rightarrow> attrs \<times> dv" where
  "packageLink f at s =
     (case packagep at of
        None \<Rightarrow> (at, s)
      | Some p \<Rightarrow> if elimCells f then (at\<lparr>packagep := None\<rparr>, s) else (at, user1Inc p 1 s))"

text \<open>The pin of a package by a public signal or typedef below it.\<close>

definition pinPackage :: "bool \<Rightarrow> dv \<Rightarrow> dv" where
  "pinPackage pub s =
     (case m_modp s of
        Some (m, True) \<Rightarrow> if pub then user1Inc m 1 s else s
      | _ \<Rightarrow> s)"

definition pushDeletep :: "node \<Rightarrow> dv \<Rightarrow> dv" where
  "pushDeletep n s =
     s\<lparr>m_deleteps := m_deleteps s @ [n], deaths := deaths s @ [(InVisit, n, user1 s)]\<rparr>"

section \<open>The reference-counting traversal\<close>

text \<open>What a visit function does before it iterates the children: \<open>visit(AstNodeModule*)\<close>
  sets \<open>m_modp\<close>, the generic \<open>visit(AstNode*)\<close> records an outputter.\<close>

definition visitPre :: "addr \<Rightarrow> attrs \<Rightarrow> dv \<Rightarrow> dv" where
  "visitPre a at s =
     (if ntype at = AstModule \<or> ntype at = AstPackage
      then s\<lparr>m_modp := Some (a, ntype at = AstPackage)\<rparr>
      else if ntype at = AstNetlist \<or> ntype at = AstNodeMath \<or> ntype at = AstNode
      then (if isOutputter at then s\<lparr>m_sideEffect := True\<rparr> else s)
      else s)"

text \<open>\<open>visit(AstNodeVarRef*)\<close> after the children. The heap \<open>h\<close> is read for the
  variable of the referenced varscope.\<close>

definition visitVarRef :: "node \<Rightarrow> addr \<Rightarrow> attrs \<Rightarrow> dv \<Rightarrow> error + dv" where
  "visitVarRef h a at s =
     (let s1 = checkAll a at s in
      case (case varScopep at of
              None \<Rightarrow> Inr s1
            | Some vs \<Rightarrow>
                (case deref [h] vs of
                   None \<Rightarrow> Inl Dangling
                 | Some vn \<Rightarrow>
                     (case varp (attrs_of vn) of
                        None \<Rightarrow> Inl NullPointer
                      | Some v \<Rightarrow> Inr (user1Inc v 1 (user1Inc vs 1 s1))))) of
        Inl e \<Rightarrow> Inl e
      | Inr s2 \<Rightarrow> Inr (incOpt (varp at) s2))"

text \<open>\<open>visit(AstVarScope*)\<close> after the children.\<close>

definition visitVarScope :: "mode \<Rightarrow> node \<Rightarrow> addr \<Rightarrow> attrs \<Rightarrow> dv \<Rightarrow> error + dv" where
  "visitVarScope f h a at s =
     (let s1 = incOpt (scopep at) (checkAll a at s) in
      case varp at of
        None \<Rightarrow> Inl NullPointer
      | Some v \<Rightarrow>
          (case deref [h] v of
             None \<Rightarrow> Inl Dangling
           | Some vn \<Rightarrow>
               Inr (if mightElimVar f (attrs_of vn)
                    then s1\<lparr>m_vscsp := m_vscsp s1 @ [a]\<rparr> else s1)))"

text \<open>Every visit function after its \<open>iterateChildren\<close>, by class. The children as the
  iteration left them are \<open>r1 .. r4\<close>. The result is the node as it stays in its
  parent's list (no node when it was unlinked) and the new state.\<close>

definition visitPost ::
  "mode \<Rightarrow> node \<Rightarrow> addr \<Rightarrow> attrs \<Rightarrow> node list \<Rightarrow> node list \<Rightarrow> node list \<Rightarrow> node list
     \<Rightarrow> dv \<Rightarrow> error + (node list \<times> dv)" where
  "visitPost f h a at r1 r2 r3 r4 s =
     (case ntype at of
        AstModule \<Rightarrow> Inr ([Node a at r1 r2 r3 r4], (checkAll a at s)\<lparr>m_modp := None\<rparr>)
      | AstPackage \<Rightarrow> Inr ([Node a at r1 r2 r3 r4], (checkAll a at s)\<lparr>m_modp := None\<rparr>)
      | AstCFunc \<Rightarrow> Inr ([Node a at r1 r2 r3 r4], incOpt (scopep at) (checkAll a at s))
      | AstScope \<Rightarrow>
          (let s1 = incOpt (aboveScopep at) (checkAll a at s) in
           Inr ([Node a at r1 r2 r3 r4],
                if \<not> isTop at \<and> r1 = [] \<and> r3 = [] \<and> r2 = []
                then s1\<lparr>m_scopesp := m_scopesp s1 @ [Some a]\<rparr> else s1))
      | AstCell \<Rightarrow>
          (let s1 = checkAll a at s; s2 = s1\<lparr>m_cellsp := m_cellsp s1 @ [a]\<rparr> in
           case modp at of
             None \<Rightarrow> Inl NullPointer
           | Some m \<Rightarrow> Inr ([Node a at r1 r2 r3 r4], user1Inc m 1 s2))
      | AstVarRef \<Rightarrow>
          (case visitVarRef h a at s of
             Inl e \<Rightarrow> Inl e
           | Inr s1 \<Rightarrow> (case packageLink f at s1 of (at', s2) \<Rightarrow> Inr ([Node a at' r1 r2 r3 r4], s2)))
      | AstVarXRef \<Rightarrow>
          (case visitVarRef h a at s of
             Inl e \<Rightarrow> Inl e
           | Inr s1 \<Rightarrow> (case packageLink f at s1 of (at', s2) \<Rightarrow> Inr ([Node a at' r1 r2 r3 r4], s2)))
      | AstNodeFTaskRef \<Rightarrow>
          (case packageLink f at (checkAll a at s) of
             (at', s1) \<Rightarrow> Inr ([Node a at' r1 r2 r3 r4], s1))
      | AstRefDType \<Rightarrow>
          (case packageLink f at (checkAll a at (checkDType f a at s)) of
             (at', s1) \<Rightarrow> Inr ([Node a at' r1 r2 r3 r4], s1))
      | AstNodeClassDType \<Rightarrow> Inr ([Node a at r1 r2 r3 r4], checkAll a at (checkDType f a at s))
      | AstMemberDType \<Rightarrow> Inr ([Node a at r1 r2 r3 r4], checkAll a at (checkDType f a at s))
      | AstNodeDType \<Rightarrow> Inr ([Node a at r1 r2 r3 r4], checkAll a at (checkDType f a at s))
      | AstEnumItemRef \<Rightarrow>
          (case packageLink f at (checkAll a at s) of
             (at', s1) \<Rightarrow> Inr ([Node a at' r1 r2 r3 r4], checkAll a at' s1))
      | AstModport \<Rightarrow>
          (if elimCells f \<and> r1 = []
           then Inr ([], pushDeletep (Node a at r1 r2 r3 r4) s)
           else Inr ([Node a at r1 r2 r3 r4], checkAll a at s))
      | AstTypedef \<Rightarrow>
          (if elimCells f \<and> \<not> attrPublic at
           then Inr ([], pushDeletep (Node a at r1 r2 r3 r4) s)
           else Inr ([Node a at r1 r2 r3 r4], pinPackage (attrPublic at) (checkAll a at s)))
      | AstVarScope \<Rightarrow>
          (case visitVarScope f h a at s of
             Inl e \<Rightarrow> Inl e
           | Inr s1 \<Rightarrow> Inr ([Node a at r1 r2 r3 r4], s1))
      | AstVar \<Rightarrow>
          (let s1 = pinPackage (isSigPublic at) (checkAll a at s) in
           Inr ([Node a at r1 r2 r3 r4],
                if mightElimVar f at then s1\<lparr>m_varsp := m_varsp s1 @ [Some a]\<rparr> else s1))
      | _ \<Rightarrow> Inr ([Node a at r1 r2 r3 r4], checkAll a at s))"

text \<open>
  \<open>accept\<close> on one node and \<open>iterateAndNext\<close> on a child list. An assignment is
  the one visit function that does not use \<open>iterateChildren\<close>: it iterates
  \<open>rhsp()\<close> (\<open>op1p\<close>), and \<open>lhsp()\<close> (\<open>op2p\<close>) only when the assignment
  is not recorded in \<open>m_assignMap\<close>. Calling \<open>iterateAndNext\<close> through a null
  \<open>rhsp()\<close> or \<open>lhsp()\<close> is the error \<open>NullPointer\<close>.
\<close>

fun visit :: "mode \<Rightarrow> node \<Rightarrow> node \<Rightarrow> dv \<Rightarrow> error + (node list \<times> dv)"
and iterateAndNext :: "mode \<Rightarrow> node \<Rightarrow> node list \<Rightarrow> dv \<Rightarrow> error + (node list \<times> dv)" where
  "iterateAndNext f h [] s = Inr ([], s)"
| "iterateAndNext f h (n # ns) s =
     (case visit f h n s of
        Inl e \<Rightarrow> Inl e
      | Inr (r, s1) \<Rightarrow>
          (case iterateAndNext f h ns s1 of
             Inl e \<Rightarrow> Inl e
           | Inr (rs, s2) \<Rightarrow> Inr (r @ rs, s2)))"
| "visit f h (Node a at o1 o2 o3 o4) s =
     (if ntype at = AstNodeAssign then
        (case o1 of
           [] \<Rightarrow> Inl NullPointer
         | _ # _ \<Rightarrow>
             (case iterateAndNext f h o1 (s\<lparr>m_sideEffect := False\<rparr>) of
                Inl e \<Rightarrow> Inl e
              | Inr (r1, s1) \<Rightarrow>
                  (case o2 of
                     [] \<Rightarrow> Inl NullPointer
                   | l # _ \<Rightarrow>
                       (case (if ntype (attrs_of l) = AstVarRef \<and> \<not> m_sideEffect s1
                              then varScopep (attrs_of l) else None) of
                          Some vs \<Rightarrow>
                            Inr ([Node a at r1 o2 o3 o4],
                                 checkAll a at
                                   (checkAll (addr_of l) (attrs_of l)
                                      ((checkAll a at s1)
                                         \<lparr>m_assignMap := m_assignMap s1 @ [(vs, a)]\<rparr>)))
                        | None \<Rightarrow>
                            (case iterateAndNext f h o2 (checkAll a at s1) of
                               Inl e \<Rightarrow> Inl e
                             | Inr (r2, s2) \<Rightarrow>
                                 Inr ([Node a at r1 r2 o3 o4], checkAll a at s2))))))
      else
        (case iterateAndNext f h o1 (visitPre a at s) of
           Inl e \<Rightarrow> Inl e
         | Inr (r1, s1) \<Rightarrow>
             (case iterateAndNext f h o2 s1 of
                Inl e \<Rightarrow> Inl e
              | Inr (r2, s2) \<Rightarrow>
                  (case iterateAndNext f h o3 s2 of
                     Inl e \<Rightarrow> Inl e
                   | Inr (r3, s3) \<Rightarrow>
                       (case iterateAndNext f h o4 s3 of
                          Inl e \<Rightarrow> Inl e
                        | Inr (r4, s4) \<Rightarrow> visitPost f h a at r1 r2 r3 r4 s4)))))"

section \<open>The sweeps\<close>

text \<open>The allocated nodes: the netlist and the subtrees waiting in \<open>m_deleteps\<close>.\<close>

definition heap :: "dv \<Rightarrow> node list" where
  "heap s = rootp s # m_deleteps s"

definition decOpt :: "addr option \<Rightarrow> dv \<Rightarrow> dv" where
  "decOpt p s = (case p of None \<Rightarrow> s | Some a \<Rightarrow> user1Inc a (- 1) s)"

text \<open>\<open>p->unlinkFrBack()->deleteTree()\<close> in a sweep. Reading a field of a node that is
  no longer allocated is the error \<open>Dangling\<close>; unlinking a node that has no parent
  (the netlist, or the root of a queued subtree) is the error \<open>NoBackp\<close>. \<open>u\<close> is
  the counter store the sweep tested.\<close>

definition unlinkDelete :: "site \<Rightarrow> (addr \<Rightarrow> int) \<Rightarrow> addr \<Rightarrow> dv \<Rightarrow> error + dv" where
  "unlinkDelete st u a s =
     (case deref (heap s) a of
        None \<Rightarrow> Inl Dangling
      | Some n \<Rightarrow>
          if a \<in> set (map addr_of (heap s)) then Inl NoBackp
          else Inr (s\<lparr>rootp := del_node a (rootp s),
                      m_deleteps := map (del_node a) (m_deleteps s),
                      deaths := deaths s @ [(st, n, u)]\<rparr>))"

subsection \<open>\<open>deadCheckVar\<close>: varscopes with their assignments, variables, data types\<close>

fun deadAssigns :: "addr list \<Rightarrow> dv \<Rightarrow> error + dv" where
  "deadAssigns [] s = Inr s"
| "deadAssigns (assp # rest) s =
     (case deref (heap s) assp of
        None \<Rightarrow> Inl Dangling
      | Some an \<Rightarrow>
          (case dtypep (attrs_of an) of
             None \<Rightarrow> Inl NullPointer
           | Some d \<Rightarrow>
               (case unlinkDelete DeadAssign (user1 s) assp (user1Inc d (- 1) s) of
                  Inl e \<Rightarrow> Inl e
                | Inr s1 \<Rightarrow> deadAssigns rest s1)))"

text \<open>\<open>m_assignMap.equal_range(vscp)\<close>: the assignments recorded for a varscope, in
  insertion order.\<close>

definition equal_range :: "(addr \<times> addr) list \<Rightarrow> addr \<Rightarrow> addr list" where
  "equal_range m vscp = map snd (filter (\<lambda>p. fst p = vscp) m)"

definition deadVarScope :: "addr \<Rightarrow> dv \<Rightarrow> error + dv" where
  "deadVarScope vscp s =
     (case deadAssigns (equal_range (m_assignMap s) vscp) s of
        Inl e \<Rightarrow> Inl e
      | Inr s1 \<Rightarrow>
          (case deref (heap s1) vscp of
             None \<Rightarrow> Inl Dangling
           | Some vn \<Rightarrow>
               (case dtypep (attrs_of vn) of
                  None \<Rightarrow> Inl NullPointer
                | Some d \<Rightarrow>
                    unlinkDelete DeadVarScope (user1 s) vscp
                      (user1Inc d (- 1) (decOpt (scopep (attrs_of vn)) s1)))))"

fun deadVarScopes :: "addr list \<Rightarrow> dv \<Rightarrow> error + dv" where
  "deadVarScopes [] s = Inr s"
| "deadVarScopes (vscp # rest) s =
     (if user1 s vscp = 0
      then (case deadVarScope vscp s of Inl e \<Rightarrow> Inl e | Inr s1 \<Rightarrow> deadVarScopes rest s1)
      else deadVarScopes rest s)"

definition deadVar :: "addr \<Rightarrow> dv \<Rightarrow> error + dv" where
  "deadVar vp s =
     (case deref (heap s) vp of
        None \<Rightarrow> Inl Dangling
      | Some vn \<Rightarrow> unlinkDelete DeadVar (user1 s) vp (decOpt (dtypep (attrs_of vn)) s))"

text \<open>One run of the inner \<open>for\<close> of a retry loop over a vector with nullable slots
  (\<open>m_varsp\<close>, \<open>m_scopesp\<close>): \<open>kill\<close> is the body for a slot whose counter is zero.
  The result is the vector, the state and the \<open>retry\<close> flag.\<close>

fun sweepPass ::
  "(addr \<Rightarrow> dv \<Rightarrow> error + dv) \<Rightarrow> addr option list \<Rightarrow> dv
     \<Rightarrow> error + (addr option list \<times> dv \<times> bool)" where
  "sweepPass kill [] s = Inr ([], s, False)"
| "sweepPass kill (None # rest) s =
     (case sweepPass kill rest s of
        Inl e \<Rightarrow> Inl e
      | Inr (rest', s1, retry) \<Rightarrow> Inr (None # rest', s1, retry))"
| "sweepPass kill (Some p # rest) s =
     (if user1 s p = 0
      then (case kill p s of
              Inl e \<Rightarrow> Inl e
            | Inr s1 \<Rightarrow>
                (case sweepPass kill rest s1 of
                   Inl e \<Rightarrow> Inl e
                 | Inr (rest', s2, retry) \<Rightarrow> Inr (None # rest', s2, True)))
      else (case sweepPass kill rest s of
              Inl e \<Rightarrow> Inl e
            | Inr (rest', s1, retry) \<Rightarrow> Inr (Some p # rest', s1, retry)))"

text \<open>The loop \<open>for (bool retry=true; retry; )\<close> around it. A run that does not leave
  the loop has no result (\<open>None\<close>).\<close>

partial_function (option) sweepLoop ::
  "(addr \<Rightarrow> dv \<Rightarrow> error + dv) \<Rightarrow> addr option list \<Rightarrow> dv
     \<Rightarrow> (error + (addr option list \<times> dv)) option" where
  "sweepLoop kill slots s =
     (case sweepPass kill slots s of
        Inl e \<Rightarrow> Some (Inl e)
      | Inr (slots', s1, retry) \<Rightarrow>
          if retry then sweepLoop kill slots' s1 else Some (Inr (slots', s1)))"

text \<open>The member loop of the data type sweep: true when no member of the class has a
  nonzero counter. It stops at the first node that is not a member.\<close>

fun membersDead :: "(addr \<Rightarrow> int) \<Rightarrow> node list \<Rightarrow> bool" where
  "membersDead u [] = True"
| "membersDead u (m # ms) =
     (if ntype (attrs_of m) \<noteq> AstMemberDType then True
      else if u (addr_of m) \<noteq> 0 then False
      else membersDead u ms)"

fun deadDTypes :: "addr list \<Rightarrow> dv \<Rightarrow> error + dv" where
  "deadDTypes [] s = Inr s"
| "deadDTypes (d # rest) s =
     (if user1 s d = 0
      then (case deref (heap s) d of
              None \<Rightarrow> Inl Dangling
            | Some dn \<Rightarrow>
                if ntype (attrs_of dn) = AstNodeClassDType \<and> \<not> membersDead (user1 s) (op1p dn)
                then deadDTypes rest s
                else (case unlinkDelete DeadDType (user1 s) d s of
                        Inl e \<Rightarrow> Inl e
                      | Inr s1 \<Rightarrow> deadDTypes rest s1))
      else deadDTypes rest s)"

definition deadCheckVar :: "dv \<Rightarrow> (error + dv) option" where
  "deadCheckVar s =
     (case deadVarScopes (m_vscsp s) s of
        Inl e \<Rightarrow> Some (Inl e)
      | Inr s1 \<Rightarrow>
          (case sweepLoop deadVar (m_varsp s1) s1 of
             None \<Rightarrow> None
           | Some (Inl e) \<Rightarrow> Some (Inl e)
           | Some (Inr (slots, s2)) \<Rightarrow>
               Some (deadDTypes (m_dtypesp s2) (s2\<lparr>m_varsp := slots\<rparr>))))"

subsection \<open>\<open>deadCheckScope\<close>\<close>

definition deadScope :: "addr \<Rightarrow> dv \<Rightarrow> error + dv" where
  "deadScope scp s =
     (case deref (heap s) scp of
        None \<Rightarrow> Inl Dangling
      | Some sn \<Rightarrow>
          (case aboveScopep (attrs_of sn) of
             None \<Rightarrow> Inl NullPointer
           | Some ab \<Rightarrow>
               unlinkDelete DeadScope (user1 s) scp
                 (decOpt (dtypep (attrs_of sn)) (user1Inc ab (- 1) s))))"

definition deadCheckScope :: "dv \<Rightarrow> (error + dv) option" where
  "deadCheckScope s =
     (case sweepLoop deadScope (m_scopesp s) s of
        None \<Rightarrow> None
      | Some (Inl e) \<Rightarrow> Some (Inl e)
      | Some (Inr (slots, s1)) \<Rightarrow> Some (Inr (s1\<lparr>m_scopesp := slots\<rparr>)))"

subsection \<open>\<open>deadCheckCells\<close>\<close>

text \<open>\<open>stmtsp()\<close> of a module is its \<open>op2p\<close>.\<close>

fun deadCells :: "addr list \<Rightarrow> dv \<Rightarrow> error + dv" where
  "deadCells [] s = Inr s"
| "deadCells (cellp # rest) s =
     (if user1 s cellp = 0
      then (case deref (heap s) cellp of
              None \<Rightarrow> Inl Dangling
            | Some cn \<Rightarrow>
                (case modp (attrs_of cn) of
                   None \<Rightarrow> Inl NullPointer
                 | Some m \<Rightarrow>
                     (case deref (heap s) m of
                        None \<Rightarrow> Inl Dangling
                      | Some mn \<Rightarrow>
                          if op2p mn = []
                          then (case unlinkDelete DeadCell (user1 s) cellp (user1Inc m (- 1) s) of
                                  Inl e \<Rightarrow> Inl e
                                | Inr s1 \<Rightarrow> deadCells rest s1)
                          else deadCells rest s)))
      else deadCells rest s)"

definition deadCheckCells :: "dv \<Rightarrow> error + dv" where
  "deadCheckCells s = deadCells (m_cellsp s) s"

subsection \<open>\<open>deadCheckMod\<close> and \<open>DeadModVisitor\<close>\<close>

fun DeadModVisitor :: "node \<Rightarrow> dv \<Rightarrow> error + dv"
and DeadModVisitor_list :: "node list \<Rightarrow> dv \<Rightarrow> error + dv" where
  "DeadModVisitor_list [] s = Inr s"
| "DeadModVisitor_list (n # ns) s =
     (case DeadModVisitor n s of Inl e \<Rightarrow> Inl e | Inr s1 \<Rightarrow> DeadModVisitor_list ns s1)"
| "DeadModVisitor (Node a at o1 o2 o3 o4) s =
     (if isNodeMath (ntype at) then Inr s
      else
        (case DeadModVisitor_list o1 s of
           Inl e \<Rightarrow> Inl e
         | Inr s1 \<Rightarrow>
             (case DeadModVisitor_list o2 s1 of
                Inl e \<Rightarrow> Inl e
              | Inr s2 \<Rightarrow>
                  (case DeadModVisitor_list o3 s2 of
                     Inl e \<Rightarrow> Inl e
                   | Inr s3 \<Rightarrow>
                       (case DeadModVisitor_list o4 s3 of
                          Inl e \<Rightarrow> Inl e
                        | Inr s4 \<Rightarrow>
                            if ntype at = AstCell
                            then (case modp at of
                                    None \<Rightarrow> Inl NullPointer
                                  | Some m \<Rightarrow> Inr (user1Inc m (- 1) s4))
                            else Inr s4)))))"

text \<open>One run of the inner \<open>for\<close> over \<open>modulesp()\<close>, the \<open>op1p\<close> list of the
  netlist: the list as the run leaves it, the state and the \<open>retry\<close> flag. The run
  ends at the first node that is not a module (\<open>castNodeModule()\<close> gives null).\<close>

fun deadModPass :: "node list \<Rightarrow> dv \<Rightarrow> error + (node list \<times> dv \<times> bool)" where
  "deadModPass [] s = Inr ([], s, False)"
| "deadModPass (m # ms) s =
     (if \<not> castNodeModule m then Inr (m # ms, s, False)
      else if level (attrs_of m) > 2 \<and> user1 s (addr_of m) = 0 \<and> \<not> internal (attrs_of m)
      then (case DeadModVisitor m s of
              Inl e \<Rightarrow> Inl e
            | Inr s1 \<Rightarrow>
                (case deadModPass ms (s1\<lparr>deaths := deaths s1 @ [(DeadModule, m, user1 s)]\<rparr>) of
                   Inl e \<Rightarrow> Inl e
                 | Inr (ms', s2, retry) \<Rightarrow> Inr (ms', s2, True)))
      else (case deadModPass ms s of
              Inl e \<Rightarrow> Inl e
            | Inr (ms', s1, retry) \<Rightarrow> Inr (m # ms', s1, retry)))"

partial_function (option) deadModLoop :: "node list \<Rightarrow> dv \<Rightarrow> (error + (node list \<times> dv)) option" where
  "deadModLoop ms s =
     (case deadModPass ms s of
        Inl e \<Rightarrow> Some (Inl e)
      | Inr (ms', s1, retry) \<Rightarrow>
          if retry then deadModLoop ms' s1 else Some (Inr (ms', s1)))"

definition setModules :: "node list \<Rightarrow> node \<Rightarrow> node" where
  "setModules ms n = Node (addr_of n) (attrs_of n) ms (op2p n) (op3p n) (op4p n)"

definition deadCheckMod :: "dv \<Rightarrow> (error + dv) option" where
  "deadCheckMod s =
     (case deadModLoop (op1p (rootp s)) s of
        None \<Rightarrow> None
      | Some (Inl e) \<Rightarrow> Some (Inl e)
      | Some (Inr (ms, s1)) \<Rightarrow> Some (Inr (s1\<lparr>rootp := setModules ms (rootp s1)\<rparr>)))"

section \<open>The constructor of \<open>DeadVisitor\<close> and the entry points\<close>

definition dv_init :: "node \<Rightarrow> dv" where
  "dv_init nodep =
     \<lparr>user1 = (\<lambda>_. 0), m_modp = None, m_varsp = [], m_dtypesp = [], m_vscsp = [],
      m_scopesp = [], m_cellsp = [], m_assignMap = [], m_sideEffect = False,
      rootp = nodep, m_deleteps = [], deaths = []\<rparr>"

text \<open>Sequencing of steps that may fail or, for the loops, may not return.\<close>

definition andThen ::
  "(error + dv) option \<Rightarrow> (dv \<Rightarrow> (error + dv) option) \<Rightarrow> (error + dv) option" where
  "andThen r k = (case r of None \<Rightarrow> None | Some (Inl e) \<Rightarrow> Some (Inl e) | Some (Inr s) \<Rightarrow> k s)"

text \<open>The traversal of the whole netlist (\<open>nodep->accept(*this)\<close>). The netlist has no
  parent: a visit function that unlinks it fails.\<close>

definition countRefs :: "mode \<Rightarrow> node \<Rightarrow> error + dv" where
  "countRefs f nodep =
     (case visit f nodep nodep (dv_init nodep) of
        Inl e \<Rightarrow> Inl e
      | Inr ([], s) \<Rightarrow> Inl NoBackp
      | Inr (n # _, s) \<Rightarrow> Inr (s\<lparr>rootp := n\<rparr>))"

text \<open>The constructor, and the destructor's \<open>doDeletes\<close>, which frees the queued
  subtrees.\<close>

definition DeadVisitor :: "mode \<Rightarrow> node \<Rightarrow> (error + dv) option" where
  "DeadVisitor f nodep =
     andThen (andThen (andThen (andThen (andThen (Some (countRefs f nodep))
       deadCheckVar)
       (\<lambda>s. if elimScopes f then deadCheckScope s else Some (Inr s)))
       (\<lambda>s. if elimCells f then Some (deadCheckCells s) else Some (Inr s)))
       deadCheckMod)
       (\<lambda>s. Some (Inr (s\<lparr>m_deleteps := []\<rparr>)))"

definition deadifyModules :: "node \<Rightarrow> (error + dv) option" where
  "deadifyModules nodep =
     DeadVisitor \<lparr>elimUserVars = False, elimDTypes = False, elimScopes = False, elimCells = False\<rparr> nodep"

definition deadifyDTypes :: "node \<Rightarrow> (error + dv) option" where
  "deadifyDTypes nodep =
     DeadVisitor \<lparr>elimUserVars = False, elimDTypes = True, elimScopes = False, elimCells = False\<rparr> nodep"

definition deadifyDTypesScoped :: "node \<Rightarrow> (error + dv) option" where
  "deadifyDTypesScoped nodep =
     DeadVisitor \<lparr>elimUserVars = False, elimDTypes = True, elimScopes = True, elimCells = False\<rparr> nodep"

definition deadifyAll :: "node \<Rightarrow> (error + dv) option" where
  "deadifyAll nodep =
     DeadVisitor \<lparr>elimUserVars = True, elimDTypes = True, elimScopes = False, elimCells = True\<rparr> nodep"

definition deadifyAllScoped :: "node \<Rightarrow> (error + dv) option" where
  "deadifyAllScoped nodep =
     DeadVisitor \<lparr>elimUserVars = True, elimDTypes = True, elimScopes = True, elimCells = True\<rparr> nodep"

section \<open>Basic facts: counters, unlinking, subtrees\<close>


lemma unlinkDelete_user1: "unlinkDelete st u a s = Inr s' \<Longrightarrow> user1 s' = user1 s"
  by (auto simp: unlinkDelete_def split: option.splits if_splits)



lemma unlinkDelete_deaths:
  "unlinkDelete st u a s = Inr s' \<Longrightarrow>
     \<exists>n. deref (heap s) a = Some n \<and> deaths s' = deaths s @ [(st, n, u)]"
  by (auto simp: unlinkDelete_def split: option.splits if_splits)

lemma nodes_self: "n \<in> set (nodes n)"
  by (cases n) simp

lemma addrs_self: "addr_of n \<in> set (addrs n)"
  using nodes_self by (auto simp: addrs_def)


lemma addrs_simps [simp]:
  "addrs (Node a at o1 o2 o3 o4) = a # addrs_list o1 @ addrs_list o2 @ addrs_list o3 @ addrs_list o4"
  "addrs_list [] = []"
  "addrs_list (n # ns) = addrs n @ addrs_list ns"
  by (simp_all add: addrs_def addrs_list_def)

lemma addr_of_del_node [simp]: "addr_of (del_node a n) = addr_of n"
  by (cases n) simp

lemma attrs_of_del_node [simp]: "attrs_of (del_node a n) = attrs_of n"
  by (cases n) simp

lemma del_addrs_subset:
  "set (addrs (del_node a n)) \<subseteq> set (addrs n)"
  "set (addrs_list (del_list a ns)) \<subseteq> set (addrs_list ns)"
  by (induction a n and a ns rule: del_node_del_list.induct) auto

text \<open>A node after a deletion below it: same address and fields, fewer descendants.\<close>

definition pruned :: "node \<Rightarrow> node \<Rightarrow> bool" where
  "pruned x y = (addr_of y = addr_of x \<and> attrs_of y = attrs_of x \<and> set (addrs x) \<subseteq> set (addrs y))"

lemma del_nodes_pruned:
  "x \<in> set (nodes (del_node a n)) \<Longrightarrow> \<exists>y \<in> set (nodes n). pruned x y"
  "x \<in> set (nodes_list (del_list a ns)) \<Longrightarrow> \<exists>y \<in> set (nodes_list ns). pruned x y"
proof (induction a n and a ns arbitrary: x and x rule: del_node_del_list.induct)
  case (1 a b at o1 o2 o3 o4)
  have self: "pruned (del_node a (Node b at o1 o2 o3 o4)) (Node b at o1 o2 o3 o4)"
    unfolding pruned_def using del_addrs_subset(1)[of a "Node b at o1 o2 o3 o4"] by simp
  from "1.prems" consider "x = del_node a (Node b at o1 o2 o3 o4)"
    | "x \<in> set (nodes_list (del_list a o1))" | "x \<in> set (nodes_list (del_list a o2))"
    | "x \<in> set (nodes_list (del_list a o3))" | "x \<in> set (nodes_list (del_list a o4))"
    by auto
  then show ?case
  proof cases
    case 1 then show ?thesis using self by auto
  next
    case 2 then show ?thesis using "1.IH"(1) by fastforce
  next
    case 3 then show ?thesis using "1.IH"(2) by fastforce
  next
    case 4 then show ?thesis using "1.IH"(3) by fastforce
  next
    case 5 then show ?thesis using "1.IH"(4) by fastforce
  qed
next
  case (2 a)
  then show ?case by simp
next
  case (3 a n ns)
  show ?case
  proof (cases "addr_of n = a")
    case True
    then show ?thesis using "3.prems" "3.IH"(1) by fastforce
  next
    case False
    then show ?thesis using "3.prems" "3.IH"(2,3) by fastforce
  qed
qed





section \<open>Example netlists\<close>

text \<open>A node with every pointer null and every flag false.\<close>

definition plain :: "kind \<Rightarrow> attrs" where
  "plain k = \<lparr>ntype = k, dtypep = None, getChildDTypep = None, virtRefDTypep = None, modp = None,
     scopep = None, aboveScopep = None, varScopep = None, varp = None, packagep = None,
     level = 0, internal = False, generic = False, isTop = False, attrPublic = False,
     isSigPublic = False, isIO = False, isTemp = False, isParam = False, isTrace = False,
     isOutputter = False\<rparr>"

definition modeModules :: mode where
  "modeModules = \<lparr>elimUserVars = False, elimDTypes = False, elimScopes = False, elimCells = False\<rparr>"

definition modeDTypes :: mode where
  "modeDTypes = \<lparr>elimUserVars = False, elimDTypes = True, elimScopes = False, elimCells = False\<rparr>"

text \<open>A type table with an unused \<open>AstRefDType\<close> (11) that refers to a data type
  (12) nothing else refers to.\<close>

definition ex_dtype_chain :: node where
  "ex_dtype_chain =
     Node 1 (plain AstNetlist)
       [Node 2 ((plain AstModule)\<lparr>level := 2\<rparr>) [] [] [] []]
       []
       [Node 9 (plain AstNode)
          [Node 11 ((plain AstRefDType)\<lparr>virtRefDTypep := Some 12\<rparr>) [] [] [] [],
           Node 12 (plain AstNodeDType) [] [] [] []] [] [] []]
       []"

text \<open>The equations that evaluate a run on a concrete netlist.\<close>

lemmas run_defs = countRefs_def dv_init_def visitPre_def visitPost_def visitVarRef_def visitVarScope_def
  checkDType_def checkAll_def incOpt_def decOpt_def user1Inc_def packageLink_def pinPackage_def pushDeletep_def
  mightElimVar_def heap_def deref_def unlinkDelete_def equal_range_def deadVarScope_def deadVar_def
  deadScope_def deadCheckVar_def deadCheckScope_def deadCheckCells_def deadCheckMod_def setModules_def
  andThen_def DeadVisitor_def deadifyModules_def deadifyDTypes_def deadifyDTypesScoped_def deadifyAll_def
  deadifyAllScoped_def castNodeModule_def isNodeMath_def sweepLoop.simps deadModLoop.simps plain_def

section \<open>The data type sweep makes no counter fix-up\<close>






section \<open>The loops return\<close>

text \<open>The slots of a candidate vector that are not nulled.\<close>

definition live :: "addr option list \<Rightarrow> nat" where
  "live slots = length (filter (\<lambda>x. x \<noteq> None) slots)"

lemma sweepPass_live:
  "sweepPass kill slots s = Inr (slots', s', retry) \<Longrightarrow>
     live slots' \<le> live slots \<and> (retry \<longrightarrow> live slots' < live slots)"
proof (induction slots arbitrary: s slots' s' retry)
  case Nil
  then show ?case by (simp add: live_def)
next
  case (Cons x rest)
  show ?case
  proof (cases x)
    case None
    with Cons.prems obtain rest' where
      "sweepPass kill rest s = Inr (rest', s', retry)" "slots' = None # rest'"
      by (auto split: sum.splits)
    with Cons.IH[of s rest' s' retry] None show ?thesis by (simp add: live_def)
  next
    case (Some p)
    show ?thesis
    proof (cases "user1 s p = 0")
      case True
      with Cons.prems Some obtain s1 rest' r where
        "sweepPass kill rest s1 = Inr (rest', s', r)" "slots' = None # rest'"
        by (auto split: sum.splits)
      with Cons.IH[of s1 rest' s' r] Some show ?thesis by (simp add: live_def)
    next
      case False
      with Cons.prems Some obtain rest' where
        "sweepPass kill rest s = Inr (rest', s', retry)" "slots' = Some p # rest'"
        by (auto split: sum.splits)
      with Cons.IH[of s rest' s' retry] Some show ?thesis by (simp add: live_def)
    qed
  qed
qed

lemma sweepLoop_total: "\<exists>r. sweepLoop kill slots s = Some r"
proof (induction "live slots" arbitrary: slots s rule: less_induct)
  case less
  show ?case
  proof (cases "sweepPass kill slots s")
    case (Inl e)
    then show ?thesis by (subst sweepLoop.simps) simp
  next
    case (Inr r)
    obtain slots' s' retry where r: "r = (slots', s', retry)" by (cases r) auto
    show ?thesis
    proof (cases retry)
      case True
      with Inr r sweepPass_live[of kill slots s slots' s' retry] have "live slots' < live slots" by simp
      from less[OF this, of s'] show ?thesis using Inr r True by (subst sweepLoop.simps) simp
    next
      case False
      then show ?thesis using Inr r by (subst sweepLoop.simps) simp
    qed
  qed
qed

lemma deadModPass_length:
  "deadModPass ms s = Inr (ms', s', retry) \<Longrightarrow>
     length ms' \<le> length ms \<and> (retry \<longrightarrow> length ms' < length ms)"
proof (induction ms s arbitrary: ms' s' retry rule: deadModPass.induct)
  case (1 s)
  then show ?case by simp
next
  case (2 m ms s)
  then show ?case by (fastforce split: sum.splits if_splits)
qed

lemma deadModLoop_total: "\<exists>r. deadModLoop ms s = Some r"
proof (induction "length ms" arbitrary: ms s rule: less_induct)
  case less
  show ?case
  proof (cases "deadModPass ms s")
    case (Inl e)
    then show ?thesis by (subst deadModLoop.simps) simp
  next
    case (Inr r)
    obtain ms' s' retry where r: "r = (ms', s', retry)" by (cases r) auto
    show ?thesis
    proof (cases retry)
      case True
      with Inr r deadModPass_length[of ms s ms' s' retry] have "length ms' < length ms" by simp
      from less[OF this, of s'] show ?thesis using Inr r True by (subst deadModLoop.simps) simp
    next
      case False
      then show ?thesis using Inr r by (subst deadModLoop.simps) simp
    qed
  qed
qed

lemma andThen_total:
  "\<exists>r. x = Some r \<Longrightarrow> (\<And>s. \<exists>r. k s = Some r) \<Longrightarrow> \<exists>r. andThen x k = Some r"
  by (auto simp: andThen_def split: option.splits sum.splits)

lemma deadCheckVar_total: "\<exists>r. deadCheckVar s = Some r"
proof (cases "deadVarScopes (m_vscsp s) s")
  case (Inl e)
  then show ?thesis by (simp add: deadCheckVar_def)
next
  case (Inr s1)
  from sweepLoop_total[of deadVar "m_varsp s1" s1] obtain r where
    "sweepLoop deadVar (m_varsp s1) s1 = Some r" by blast
  with Inr show ?thesis by (cases r) (auto simp: deadCheckVar_def)
qed

lemma deadCheckScope_total: "\<exists>r. deadCheckScope s = Some r"
proof -
  from sweepLoop_total[of deadScope "m_scopesp s" s] obtain r where
    "sweepLoop deadScope (m_scopesp s) s = Some r" by blast
  then show ?thesis by (cases r) (auto simp: deadCheckScope_def)
qed

lemma deadCheckMod_total: "\<exists>r. deadCheckMod s = Some r"
proof -
  from deadModLoop_total[of "op1p (rootp s)" s] obtain r where
    "deadModLoop (op1p (rootp s)) s = Some r" by blast
  then show ?thesis by (cases r) (auto simp: deadCheckMod_def)
qed

text \<open>An unused module (4, level 3) beside the top module (2, level 2), which holds a
  temporary variable (3) nothing refers to.\<close>

definition ex_two_modules :: node where
  "ex_two_modules =
     Node 1 (plain AstNetlist)
       [Node 2 ((plain AstModule)\<lparr>level := 2\<rparr>) []
          [Node 3 ((plain AstVar)\<lparr>isTemp := True\<rparr>) [] [] [] []] [] [],
        Node 4 ((plain AstModule)\<lparr>level := 3\<rparr>) [] [] [] []]
       [] [] []"

text \<open>
  Claim C8. Every invocation returns (with a state or with one of the errors), for
  every mode and netlist, so in particular each of the five entry points does. The
  loops end because a run of the inner \<open>for\<close> that sets \<open>retry\<close> nulls a slot
  of the candidate vector (\<open>live\<close> counts the slots that are not null), respectively
  removes a module from the module list.
\<close>

theorem C8_terminates:
  "(\<exists>r. DeadVisitor f nodep = Some r)
   \<and> (\<exists>r. deadifyModules nodep = Some r) \<and> (\<exists>r. deadifyDTypes nodep = Some r)
   \<and> (\<exists>r. deadifyDTypesScoped nodep = Some r) \<and> (\<exists>r. deadifyAll nodep = Some r)
   \<and> (\<exists>r. deadifyAllScoped nodep = Some r)
   \<and> (sweepPass kill slots s = Inr (slots', s', True) \<longrightarrow> live slots' < live slots)
   \<and> (deadModPass ms t = Inr (ms', t', True) \<longrightarrow> length ms' < length ms)"
proof -
  have "\<exists>r. DeadVisitor f nodep = Some r" for f
    unfolding DeadVisitor_def
    by (intro andThen_total deadCheckVar_total deadCheckScope_total deadCheckMod_total)
       (simp_all add: deadCheckScope_total)
  then have "(\<exists>r. DeadVisitor f nodep = Some r)
   \<and> (\<exists>r. deadifyModules nodep = Some r) \<and> (\<exists>r. deadifyDTypes nodep = Some r)
   \<and> (\<exists>r. deadifyDTypesScoped nodep = Some r) \<and> (\<exists>r. deadifyAll nodep = Some r)
   \<and> (\<exists>r. deadifyAllScoped nodep = Some r)"
    unfolding deadifyModules_def deadifyDTypes_def deadifyDTypesScoped_def deadifyAll_def
      deadifyAllScoped_def by blast
  then show ?thesis using sweepPass_live[of kill slots s slots' s' True]
      deadModPass_length[of ms t ms' t' True] by blast
qed

theorem C8_terminates_witness:
  "\<exists>s0 s1 s2. countRefs modeDTypes ex_two_modules = Inr s0
     \<and> (\<exists>r. deadifyDTypes ex_two_modules = Some r)
     \<and> sweepPass deadVar (m_varsp s0) s0 = Inr ([None], s1, True)
     \<and> live [None] < live (m_varsp s0)
     \<and> deadModPass (op1p (rootp s1)) s1 = Inr ([hd (op1p (rootp s1))], s2, True)
     \<and> length [hd (op1p (rootp s1))] < length (op1p (rootp s1))"
proof -
  obtain s0 where s0: "countRefs modeDTypes ex_two_modules = Inr s0"
    by (simp add: run_defs modeDTypes_def ex_two_modules_def)
  obtain s1 where s1: "sweepPass deadVar (m_varsp s0) s0 = Inr ([None], s1, True)"
    using s0 by (auto simp: run_defs modeDTypes_def ex_two_modules_def)
  obtain s2 where s2: "deadModPass (op1p (rootp s1)) s1 = Inr ([hd (op1p (rootp s1))], s2, True)"
    using s0 s1 by (auto simp: run_defs modeDTypes_def ex_two_modules_def)
  from C8_terminates[of modeDTypes ex_two_modules deadVar "m_varsp s0" s0 "[None]" s1
      "op1p (rootp s1)" s1 "[hd (op1p (rootp s1))]" s2] s0 s1 s2
  show ?thesis by blast
qed

section \<open>The module sweep\<close>

text \<open>The test of \<open>deadCheckMod\<close> on a module, for a counter store.\<close>

definition modDead :: "(addr \<Rightarrow> int) \<Rightarrow> node \<Rightarrow> bool" where
  "modDead u m = (level (attrs_of m) > 2 \<and> u (addr_of m) = 0 \<and> \<not> internal (attrs_of m))"

lemma DeadModVisitor_deaths:
  "DeadModVisitor n s = Inr s' \<Longrightarrow> deaths s' = deaths s"
  "DeadModVisitor_list ns s = Inr s' \<Longrightarrow> deaths s' = deaths s"
proof (induction n s and ns s arbitrary: s' and s' rule: DeadModVisitor_DeadModVisitor_list.induct)
  case (1 s)
  then show ?case by simp
next
  case (2 n ns s)
  from "2.prems" obtain s1 where r: "DeadModVisitor n s = Inr s1" "DeadModVisitor_list ns s1 = Inr s'"
    by (simp split: sum.splits)
  from "2.IH"(1)[OF r(1)] "2.IH"(2)[OF r(1) r(2)] show ?case by simp
next
  case (3 a at o1 o2 o3 o4 s)
  show ?case
  proof (cases "isNodeMath (ntype at)")
    case True
    then show ?thesis using "3.prems" by simp
  next
    case False
    then obtain s1 s2 s3 s4 where
      r: "DeadModVisitor_list o1 s = Inr s1" "DeadModVisitor_list o2 s1 = Inr s2"
         "DeadModVisitor_list o3 s2 = Inr s3" "DeadModVisitor_list o4 s3 = Inr s4"
      using "3.prems" by (simp split: sum.splits)
    have "deaths s4 = deaths s"
      using "3.IH"(1)[OF False r(1)] "3.IH"(2)[OF False r(1) r(2)]
        "3.IH"(3)[OF False r(1) r(2) r(3)] "3.IH"(4)[OF False r(1) r(2) r(3) r(4)] by simp
    moreover have "deaths s' = deaths s4"
      using "3.prems" False r by (auto simp: user1Inc_def split: if_splits option.splits)
    ultimately show ?thesis by simp
  qed
qed

lemma deadModPass_facts:
  "deadModPass ms s = Inr (ms', s', retry) \<Longrightarrow>
     (\<forall>m \<in> set ms. level (attrs_of m) \<le> 2 \<or> internal (attrs_of m) \<longrightarrow> m \<in> set ms')
     \<and> set ms' \<subseteq> set ms
     \<and> (\<exists>new. deaths s' = deaths s @ new
            \<and> (\<forall>e \<in> set new. fst e = DeadModule \<and> modDead (snd (snd e)) (fst (snd e)))
            \<and> set ms \<subseteq> set ms' \<union> set (map (\<lambda>e. fst (snd e)) new))
     \<and> (\<not> retry \<longrightarrow> ms' = ms \<and> s' = s
            \<and> (\<forall>m \<in> set (takeWhile castNodeModule ms). \<not> modDead (user1 s) m))"
proof (induction ms arbitrary: s ms' s' retry)
  case Nil
  then show ?case by simp
next
  case (Cons m ms)
  show ?case
  proof (cases "castNodeModule m")
    case False
    then show ?thesis using Cons.prems by auto
  next
    case True
    show ?thesis
    proof (cases "modDead (user1 s) m")
      case dead: True
      then obtain s1 r where
        v: "DeadModVisitor m s = Inr s1"
        and p: "deadModPass ms (s1\<lparr>deaths := deaths s1 @ [(DeadModule, m, user1 s)]\<rparr>) = Inr (ms', s', r)"
        and rt: "retry"
        using Cons.prems True by (auto simp: modDead_def split: sum.splits)
      have d1: "deaths s1 = deaths s" by (rule DeadModVisitor_deaths(1)[OF v])
      from dead have nk: "\<not> (level (attrs_of m) \<le> 2 \<or> internal (attrs_of m))"
        by (auto simp: modDead_def)
      from Cons.IH[OF p] obtain new where
        k: "\<forall>m \<in> set ms. level (attrs_of m) \<le> 2 \<or> internal (attrs_of m) \<longrightarrow> m \<in> set ms'"
        and sub: "set ms' \<subseteq> set ms"
        and new: "deaths s' = deaths s1 @ [(DeadModule, m, user1 s)] @ new"
          "\<forall>e \<in> set new. fst e = DeadModule \<and> modDead (snd (snd e)) (fst (snd e))"
          "set ms \<subseteq> set ms' \<union> set (map (\<lambda>e. fst (snd e)) new)"
        by auto
      have "deaths s' = deaths s @ ((DeadModule, m, user1 s) # new)" using new(1) d1 by simp
      moreover have "\<forall>e \<in> set ((DeadModule, m, user1 s) # new).
          fst e = DeadModule \<and> modDead (snd (snd e)) (fst (snd e))"
        using new(2) dead by simp
      moreover have "set (m # ms) \<subseteq> set ms' \<union> set (map (\<lambda>e. fst (snd e)) ((DeadModule, m, user1 s) # new))"
        using new(3) by auto
      ultimately have "\<exists>new. deaths s' = deaths s @ new
            \<and> (\<forall>e \<in> set new. fst e = DeadModule \<and> modDead (snd (snd e)) (fst (snd e)))
            \<and> set (m # ms) \<subseteq> set ms' \<union> set (map (\<lambda>e. fst (snd e)) new)"
        by blast
      then show ?thesis using k sub nk rt by auto
    next
      case alive: False
      then obtain ms1 where
        p: "deadModPass ms s = Inr (ms1, s', retry)" and ms': "ms' = m # ms1"
        using Cons.prems True by (auto simp: modDead_def split: sum.splits)
      from Cons.IH[OF p] ms' alive True show ?thesis by (auto simp: modDead_def)
    qed
  qed
qed

lemma deadModLoop_rule:
  assumes run: "deadModLoop ms s = Some (Inr (ms', s'))"
    and base: "deadModPass ms' s' = Inr (ms', s', False) \<Longrightarrow> P ms' s'"
    and step: "\<And>ms s ms1 s1. deadModPass ms s = Inr (ms1, s1, True) \<Longrightarrow> P ms1 s1 \<Longrightarrow> P ms s"
  shows "P ms s"
  using run
proof (induction "length ms" arbitrary: ms s rule: less_induct)
  case less
  from less.prems obtain ms1 s1 retry where p: "deadModPass ms s = Inr (ms1, s1, retry)"
    by (subst (asm) deadModLoop.simps) (auto split: sum.splits)
  show ?case
  proof (cases retry)
    case True
    with p deadModPass_length[OF p] have lt: "length ms1 < length ms" by simp
    from less.prems p True have "deadModLoop ms1 s1 = Some (Inr (ms', s'))"
      by (subst (asm) deadModLoop.simps) simp
    from less.hyps[OF lt this] have "P ms1 s1" .
    with p True show ?thesis using step[of ms s ms1 s1] by simp
  next
    case False
    from less.prems p False have eq: "ms1 = ms' \<and> s1 = s'"
      by (subst (asm) deadModLoop.simps) simp
    from deadModPass_facts[OF p] False have "ms1 = ms" "s1 = s" by auto
    with eq p False base show ?thesis by simp
  qed
qed

lemma deadModPass_none:
  "\<forall>m \<in> set (takeWhile castNodeModule ms). \<not> modDead (user1 s) m \<Longrightarrow>
     deadModPass ms s = Inr (ms, s, False)"
  by (induction ms) (auto simp: modDead_def)

lemma deadModPass_count:
  "deadModPass ms s = Inr (ms', s', retry) \<Longrightarrow>
     \<exists>new. deaths s' = deaths s @ new
       \<and> (\<forall>e \<in> set new. fst (snd e) \<in> set ms)
       \<and> length ms' + length new = length ms"
proof (induction ms arbitrary: s ms' s' retry)
  case Nil
  then show ?case by simp
next
  case (Cons m ms)
  show ?case
  proof (cases "castNodeModule m")
    case False
    then show ?thesis using Cons.prems by auto
  next
    case True
    show ?thesis
    proof (cases "modDead (user1 s) m")
      case dead: True
      then obtain s1 r where
        v: "DeadModVisitor m s = Inr s1"
        and p: "deadModPass ms (s1\<lparr>deaths := deaths s1 @ [(DeadModule, m, user1 s)]\<rparr>) = Inr (ms', s', r)"
        using Cons.prems True by (auto simp: modDead_def split: sum.splits)
      have d1: "deaths s1 = deaths s" by (rule DeadModVisitor_deaths(1)[OF v])
      from Cons.IH[OF p] obtain new where
        new: "deaths s' = deaths s1 @ [(DeadModule, m, user1 s)] @ new"
          "\<forall>e \<in> set new. fst (snd e) \<in> set ms" "length ms' + length new = length ms"
        by auto
      show ?thesis
        using new d1 by (intro exI[of _ "(DeadModule, m, user1 s) # new"]) auto
    next
      case alive: False
      then obtain ms1 where
        p: "deadModPass ms s = Inr (ms1, s', retry)" and ms': "ms' = m # ms1"
        using Cons.prems True by (auto simp: modDead_def split: sum.splits)
      from Cons.IH[OF p] ms' show ?thesis by auto
    qed
  qed
qed

lemma deadModLoop_count:
  assumes "deadModLoop ms s = Some (Inr (ms', s'))"
  shows "\<exists>new. deaths s' = deaths s @ new
       \<and> (\<forall>e \<in> set new. fst (snd e) \<in> set ms)
       \<and> length ms' + length new = length ms"
proof -
  let ?P = "\<lambda>ms s. \<exists>new. deaths s' = deaths s @ new
       \<and> (\<forall>e \<in> set new. fst (snd e) \<in> set ms)
       \<and> length ms' + length new = length ms"
  show "?P ms s"
  proof (rule deadModLoop_rule[OF assms])
    show "?P ms' s'" by simp
  next
    fix ms s ms1 s1
    assume p: "deadModPass ms s = Inr (ms1, s1, True)" and ih: "?P ms1 s1"
    from ih obtain new1 where n1: "deaths s' = deaths s1 @ new1"
      "\<forall>e \<in> set new1. fst (snd e) \<in> set ms1" "length ms' + length new1 = length ms1" by blast
    from deadModPass_count[OF p] obtain new0 where n0: "deaths s1 = deaths s @ new0"
      "\<forall>e \<in> set new0. fst (snd e) \<in> set ms" "length ms1 + length new0 = length ms" by blast
    from deadModPass_facts[OF p] have sub: "set ms1 \<subseteq> set ms" by simp
    show "?P ms s"
      using n0 n1 sub by (intro exI[of _ "new0 @ new1"]) auto
  qed
qed

lemma deadModLoop_facts:
  assumes run: "deadModLoop ms s = Some (Inr (ms', s'))"
  shows "(\<forall>m \<in> set ms. level (attrs_of m) \<le> 2 \<or> internal (attrs_of m) \<longrightarrow> m \<in> set ms')
     \<and> set ms' \<subseteq> set ms
     \<and> (\<exists>new. deaths s' = deaths s @ new
            \<and> (\<forall>e \<in> set new. fst e = DeadModule \<and> modDead (snd (snd e)) (fst (snd e)))
            \<and> set ms \<subseteq> set ms' \<union> set (map (\<lambda>e. fst (snd e)) new))
     \<and> (\<forall>m \<in> set (takeWhile castNodeModule ms'). \<not> modDead (user1 s') m)"
proof -
  let ?P = "\<lambda>ms s.
     (\<forall>m \<in> set ms. level (attrs_of m) \<le> 2 \<or> internal (attrs_of m) \<longrightarrow> m \<in> set ms')
     \<and> set ms' \<subseteq> set ms
     \<and> (\<exists>new. deaths s' = deaths s @ new
            \<and> (\<forall>e \<in> set new. fst e = DeadModule \<and> modDead (snd (snd e)) (fst (snd e)))
            \<and> set ms \<subseteq> set ms' \<union> set (map (\<lambda>e. fst (snd e)) new))
     \<and> (\<forall>m \<in> set (takeWhile castNodeModule ms'). \<not> modDead (user1 s') m)"
  show "?P ms s"
  proof (rule deadModLoop_rule[OF run])
    assume fp: "deadModPass ms' s' = Inr (ms', s', False)"
    from deadModPass_facts[OF fp] show "?P ms' s'" by auto
  next
    fix ms s ms1 s1
    assume p: "deadModPass ms s = Inr (ms1, s1, True)" and ih: "?P ms1 s1"
    from ih obtain new1 where n1: "deaths s' = deaths s1 @ new1"
      "\<forall>e \<in> set new1. fst e = DeadModule \<and> modDead (snd (snd e)) (fst (snd e))"
      "set ms1 \<subseteq> set ms' \<union> set (map (\<lambda>e. fst (snd e)) new1)" by blast
    from deadModPass_facts[OF p] obtain new0 where n0: "deaths s1 = deaths s @ new0"
      "\<forall>e \<in> set new0. fst e = DeadModule \<and> modDead (snd (snd e)) (fst (snd e))"
      "set ms \<subseteq> set ms1 \<union> set (map (\<lambda>e. fst (snd e)) new0)" by blast
    have keep: "\<forall>m \<in> set ms. level (attrs_of m) \<le> 2 \<or> internal (attrs_of m) \<longrightarrow> m \<in> set ms'"
      using deadModPass_facts[OF p] ih by blast
    have sub: "set ms' \<subseteq> set ms" using deadModPass_facts[OF p] ih by blast
    have "deaths s' = deaths s @ (new0 @ new1)" using n0 n1 by simp
    moreover have "\<forall>e \<in> set (new0 @ new1). fst e = DeadModule \<and> modDead (snd (snd e)) (fst (snd e))"
      using n0 n1 by auto
    moreover have "set ms \<subseteq> set ms' \<union> set (map (\<lambda>e. fst (snd e)) (new0 @ new1))"
      using n0(3) n1(3) by auto
    ultimately show "?P ms s" using keep sub ih by blast
  qed
qed

text \<open>
  Claim C6. The module sweep of an invocation is \<open>deadCheckMod\<close>, on the module list
  of the netlist (\<open>op1p\<close> of \<open>rootp\<close>). It deletes a module if and only if, when
  the loop examines it, its level is above 2, its counter is zero and it is not internal
  (\<open>modDead\<close>). With \<open>new\<close> the entries the sweep adds to the trace: every entry
  is a module of the list that satisfied the test on the counters of the moment it was
  examined; every module of the list is still in the list or is in an entry, and each
  entry takes one module from the list; a module of level at most 2 or an internal module
  stays in the list, whatever its counter; and when the sweep returns, no module left in
  the list satisfies the test. The sweep returns after a run over the list that deletes
  nothing: one more run on what it returned changes nothing and asks for no retry.
\<close>

theorem C6_module_sweep:
  assumes "deadCheckMod s = Some (Inr s')"
  shows "\<exists>new. deaths s' = deaths s @ new
     \<and> (\<forall>e \<in> set new. fst e = DeadModule \<and> fst (snd e) \<in> set (op1p (rootp s))
                      \<and> modDead (snd (snd e)) (fst (snd e)))
     \<and> (\<forall>m \<in> set (op1p (rootp s)).
            m \<in> set (op1p (rootp s')) \<or> m \<in> set (map (\<lambda>e. fst (snd e)) new))
     \<and> set (op1p (rootp s')) \<subseteq> set (op1p (rootp s))
     \<and> length (op1p (rootp s')) + length new = length (op1p (rootp s))
     \<and> (\<forall>m \<in> set (op1p (rootp s)).
            level (attrs_of m) \<le> 2 \<or> internal (attrs_of m) \<longrightarrow> m \<in> set (op1p (rootp s')))
     \<and> (\<forall>m \<in> set (takeWhile castNodeModule (op1p (rootp s'))). \<not> modDead (user1 s') m)
     \<and> deadModPass (op1p (rootp s')) s' = Inr (op1p (rootp s'), s', False)"
proof -
  from assms obtain ms' s1 where
    l: "deadModLoop (op1p (rootp s)) s = Some (Inr (ms', s1))"
    and s': "s' = s1\<lparr>rootp := setModules ms' (rootp s1)\<rparr>"
    by (auto simp: deadCheckMod_def split: option.splits sum.splits)
  have r: "op1p (rootp s') = ms'" "deaths s' = deaths s1" "user1 s' = user1 s1"
    by (simp_all add: s' setModules_def)
  from deadModLoop_facts[OF l] obtain new where
    keep: "\<forall>m \<in> set (op1p (rootp s)). level (attrs_of m) \<le> 2 \<or> internal (attrs_of m) \<longrightarrow> m \<in> set ms'"
    and sub: "set ms' \<subseteq> set (op1p (rootp s))"
    and new: "deaths s1 = deaths s @ new"
      "\<forall>e \<in> set new. fst e = DeadModule \<and> modDead (snd (snd e)) (fst (snd e))"
      "set (op1p (rootp s)) \<subseteq> set ms' \<union> set (map (\<lambda>e. fst (snd e)) new)"
    and fin: "\<forall>m \<in> set (takeWhile castNodeModule ms'). \<not> modDead (user1 s1) m"
    by blast
  from deadModLoop_count[OF l] new(1) have
    cnt: "\<forall>e \<in> set new. fst (snd e) \<in> set (op1p (rootp s))"
      "length ms' + length new = length (op1p (rootp s))"
    by auto
  have fp: "deadModPass ms' s' = Inr (ms', s', False)"
    by (rule deadModPass_none) (use fin r(3) in simp)
  show ?thesis
    unfolding r using keep sub new cnt fin fp r(3)
    by (intro exI[of _ new]) auto
qed

theorem C6_module_sweep_witness:
  "\<exists>s0 s1 s' n u. countRefs modeModules ex_two_modules = Inr s0
     \<and> deadCheckVar s0 = Some (Inr s1)
     \<and> map addr_of (op1p (rootp s1)) = [2, 4]
     \<and> map (\<lambda>m. user1 s1 (addr_of m)) (op1p (rootp s1)) = [0, 0]
     \<and> map (\<lambda>m. level (attrs_of m)) (op1p (rootp s1)) = [2, 3]
     \<and> deadCheckMod s1 = Some (Inr s')
     \<and> deaths s' = deaths s1 @ [(DeadModule, n, u)] \<and> addr_of n = 4 \<and> u 4 = 0
     \<and> map addr_of (op1p (rootp s')) = [2]
     \<and> \<not> modDead (user1 s') (hd (op1p (rootp s')))"
proof -
  obtain s0 where s0: "countRefs modeModules ex_two_modules = Inr s0"
    by (simp add: run_defs modeModules_def ex_two_modules_def)
  obtain s1 where s1: "deadCheckVar s0 = Some (Inr s1)"
    using s0 by (auto simp: run_defs modeModules_def ex_two_modules_def)
  have f: "map addr_of (op1p (rootp s1)) = [2, 4]"
    "map (\<lambda>m. user1 s1 (addr_of m)) (op1p (rootp s1)) = [0, 0]"
    "map (\<lambda>m. level (attrs_of m)) (op1p (rootp s1)) = [2, 3]"
    using s0 s1 by (auto simp: run_defs modeModules_def ex_two_modules_def)
  obtain s' where s': "deadCheckMod s1 = Some (Inr s')"
    using s0 s1 by (auto simp: run_defs modeModules_def ex_two_modules_def)
  have g: "map addr_of (op1p (rootp s')) = [2]"
    using s0 s1 s' by (auto simp: run_defs modeModules_def ex_two_modules_def)
  from C6_module_sweep[OF s'] obtain new where new:
    "deaths s' = deaths s1 @ new"
    "\<forall>e \<in> set new. fst e = DeadModule \<and> modDead (snd (snd e)) (fst (snd e))"
    "length (op1p (rootp s')) + length new = length (op1p (rootp s1))"
    "\<forall>m \<in> set (op1p (rootp s1)).
            m \<in> set (op1p (rootp s')) \<or> m \<in> set (map (\<lambda>e. fst (snd e)) new)"
    "\<forall>m \<in> set (takeWhile castNodeModule (op1p (rootp s'))). \<not> modDead (user1 s') m"
    by blast
  have len: "length (op1p (rootp s1)) = 2" "length (op1p (rootp s')) = 1"
    using arg_cong[OF f(1), of length] arg_cong[OF g, of length] by simp_all
  from new(3) len have "length new = 1" by simp
  then obtain e where e: "new = [e]" by (cases new) auto
  obtain st n u where stnu: "e = (st, n, u)" by (cases e) auto
  have md: "modDead u n" using new(2) e stnu by simp
  have m4: "op1p (rootp s1) ! 1 \<in> set (op1p (rootp s1))" "addr_of (op1p (rootp s1) ! 1) = 4"
    using len(1) nth_map[of 1 "op1p (rootp s1)" addr_of] f(1) by simp_all
  have "op1p (rootp s1) ! 1 \<notin> set (op1p (rootp s'))"
  proof
    assume "op1p (rootp s1) ! 1 \<in> set (op1p (rootp s'))"
    then have "addr_of (op1p (rootp s1) ! 1) \<in> set (map addr_of (op1p (rootp s')))" by simp
    then show False using m4(2) g by simp
  qed
  with new(4) m4(1) e stnu have n4: "n = op1p (rootp s1) ! 1" by auto
  have hdm: "hd (op1p (rootp s')) \<in> set (takeWhile castNodeModule (op1p (rootp s')))"
    using s0 s1 s' by (auto simp: run_defs modeModules_def ex_two_modules_def)
  have "\<not> modDead (user1 s') (hd (op1p (rootp s')))" using new(5) hdm by blast
  moreover have "deaths s' = deaths s1 @ [(DeadModule, n, u)]" using new(1,2) e stnu by simp
  moreover have "addr_of n = 4" "u 4 = 0" using n4 m4(2) md by (auto simp: modDead_def)
  ultimately show ?thesis using s0 s1 s' f g
    by (intro exI[of _ s0] exI[of _ s1] exI[of _ s'] exI[of _ n] exI[of _ u]) simp
qed

section \<open>Deleting a dead varscope and its assignments\<close>

lemma deref_addr: "deref forest a = Some n \<Longrightarrow> addr_of n = a"
  by (auto simp: deref_def dest: find_Some_iff[THEN iffD1])

lemma heap_user1Inc [simp]: "heap (user1Inc a k s) = heap s"
  by (simp add: heap_def user1Inc_def)

lemma deaths_user1Inc [simp]: "deaths (user1Inc a k s) = deaths s"
  by (simp add: user1Inc_def)

lemma heap_decOpt [simp]: "heap (decOpt p s) = heap s"
  by (simp add: decOpt_def split: option.splits)

lemma deaths_decOpt [simp]: "deaths (decOpt p s) = deaths s"
  by (simp add: decOpt_def split: option.splits)






definition modeAllScoped :: mode where
  "modeAllScoped = \<lparr>elimUserVars = True, elimDTypes = True, elimScopes = True, elimCells = True\<rparr>"

text \<open>A top module with two temporary variables \<open>v\<close> (3) and \<open>w\<close> (4), their
  varscopes (6, 7) in the top scope (5), and the assignment \<open>v = w\<close> (8) with the
  references 20 (to \<open>w\<close>) and 21 (to \<open>v\<close>). All have the generic data type 10.\<close>

definition ex_assign :: node where
  "ex_assign =
     Node 1 (plain AstNetlist)
       [Node 2 ((plain AstModule)\<lparr>level := 2\<rparr>) []
          [Node 3 ((plain AstVar)\<lparr>isTemp := True, dtypep := Some 10\<rparr>) [] [] [] [],
           Node 4 ((plain AstVar)\<lparr>isTemp := True, dtypep := Some 10\<rparr>) [] [] [] [],
           Node 5 ((plain AstScope)\<lparr>isTop := True\<rparr>)
             [Node 6 ((plain AstVarScope)\<lparr>varp := Some 3, scopep := Some 5, dtypep := Some 10\<rparr>) [] [] [] [],
              Node 7 ((plain AstVarScope)\<lparr>varp := Some 4, scopep := Some 5, dtypep := Some 10\<rparr>) [] [] [] []]
             []
             [Node 8 ((plain AstNodeAssign)\<lparr>dtypep := Some 10\<rparr>)
                [Node 20 ((plain AstVarRef)\<lparr>varp := Some 4, varScopep := Some 7, dtypep := Some 10\<rparr>) [] [] [] []]
                [Node 21 ((plain AstVarRef)\<lparr>varp := Some 3, varScopep := Some 6, dtypep := Some 10\<rparr>) [] [] [] []]
                [] []]
             []]
          [] []]
       []
       [Node 9 (plain AstNode)
          [Node 10 ((plain AstNodeDType)\<lparr>generic := True, dtypep := Some 10\<rparr>) [] [] [] []] [] [] []]
       []"


section \<open>Counting an edge twice\<close>

text \<open>A module with one enum item reference (3) whose data type is 10.\<close>

definition ex_enum_item_ref :: node where
  "ex_enum_item_ref =
     Node 1 (plain AstNetlist)
       [Node 2 ((plain AstModule)\<lparr>level := 2\<rparr>) []
          [Node 3 ((plain AstEnumItemRef)\<lparr>dtypep := Some 10\<rparr>) [] [] [] []] [] []]
       []
       [Node 9 (plain AstNode)
          [Node 10 ((plain AstNodeDType)\<lparr>generic := True, dtypep := Some 10\<rparr>) [] [] [] []] [] [] []]
       []"

text \<open>The nodes of a netlist whose \<open>dtypep()\<close> is \<open>y\<close> and which are not \<open>y\<close>
  itself: the data type edges into \<open>y\<close>.\<close>

definition dtypeEdges :: "node \<Rightarrow> addr \<Rightarrow> nat" where
  "dtypeEdges t y =
     length (filter (\<lambda>n. dtypep (attrs_of n) = Some y \<and> addr_of n \<noteq> y) (nodes t))"

text \<open>
  Claim C1 (the code counts some edges twice). In \<open>ex_enum_item_ref\<close> one node has
  the data type 10, and the traversal leaves its counter at 2: \<open>visit(AstEnumItemRef*)\<close>
  calls \<open>checkAll\<close> twice and \<open>user1Inc\<close> adds one each time. In \<open>ex_assign\<close>
  seven nodes have the data type 10 and the counter is 8: the assignment is counted
  twice by \<open>visit(AstNodeAssign*)\<close>.
\<close>

theorem C1_dtype_edge_counted_twice:
  "(\<exists>s. countRefs modeModules ex_enum_item_ref = Inr s
        \<and> dtypeEdges ex_enum_item_ref 10 = 1 \<and> user1 s 10 = 2)
   \<and> (\<exists>s. countRefs modeAllScoped ex_assign = Inr s
        \<and> dtypeEdges ex_assign 10 = 7 \<and> user1 s 10 = 8)"
proof -
  obtain s where s: "countRefs modeModules ex_enum_item_ref = Inr s"
    by (simp add: run_defs modeModules_def ex_enum_item_ref_def)
  have a: "dtypeEdges ex_enum_item_ref 10 = 1 \<and> user1 s 10 = 2"
    using s by (auto simp: run_defs modeModules_def ex_enum_item_ref_def dtypeEdges_def)
  obtain s2 where s2: "countRefs modeAllScoped ex_assign = Inr s2"
    by (simp add: run_defs modeAllScoped_def ex_assign_def)
  have b: "dtypeEdges ex_assign 10 = 7 \<and> user1 s2 10 = 8"
    using s2 by (auto simp: run_defs modeAllScoped_def ex_assign_def dtypeEdges_def)
  from s a s2 b show ?thesis by blast
qed

section \<open>Running an entry point twice\<close>

lemma sweepPass_fixed:
  "sweepPass kill slots s = Inr (slots', s', False) \<Longrightarrow> slots' = slots \<and> s' = s"
proof (induction slots arbitrary: s slots' s')
  case Nil
  then show ?case by simp
next
  case (Cons x rest)
  show ?case
  proof (cases x)
    case None
    with Cons.prems obtain rest' where
      "sweepPass kill rest s = Inr (rest', s', False)" "slots' = None # rest'"
      by (auto split: sum.splits)
    with Cons.IH[of s rest' s'] None show ?thesis by simp
  next
    case (Some p)
    have nz: "user1 s p \<noteq> 0"
    proof
      assume "user1 s p = 0"
      with Cons.prems Some show False by (auto split: sum.splits)
    qed
    with Cons.prems Some obtain rest' where
      "sweepPass kill rest s = Inr (rest', s', False)" "slots' = Some p # rest'"
      by (auto split: sum.splits)
    with Cons.IH[of s rest' s'] Some show ?thesis by simp
  qed
qed

lemma sweepLoop_rule:
  assumes run: "sweepLoop kill slots s = Some (Inr (slots', s'))"
    and base: "sweepPass kill slots' s' = Inr (slots', s', False) \<Longrightarrow> P slots' s'"
    and step: "\<And>slots s slots1 s1.
      sweepPass kill slots s = Inr (slots1, s1, True) \<Longrightarrow> P slots1 s1 \<Longrightarrow> P slots s"
  shows "P slots s"
  using run
proof (induction "live slots" arbitrary: slots s rule: less_induct)
  case less
  from less.prems obtain slots1 s1 retry where p: "sweepPass kill slots s = Inr (slots1, s1, retry)"
    by (subst (asm) sweepLoop.simps) (auto split: sum.splits)
  show ?case
  proof (cases retry)
    case True
    with p sweepPass_live[OF p] have lt: "live slots1 < live slots" by simp
    from less.prems p True have "sweepLoop kill slots1 s1 = Some (Inr (slots', s'))"
      by (subst (asm) sweepLoop.simps) simp
    from less.hyps[OF lt this] have "P slots1 s1" .
    with p True show ?thesis using step[of slots s slots1 s1] by simp
  next
    case False
    from less.prems p False have eq: "slots1 = slots' \<and> s1 = s'"
      by (subst (asm) sweepLoop.simps) simp
    from sweepPass_fixed[of kill slots s slots1 s1] p False have "slots1 = slots" "s1 = s" by auto
    with eq p False base show ?thesis by simp
  qed
qed

lemma sweepLoop_fixpoint:
  "sweepLoop kill slots s = Some (Inr (slots', s')) \<Longrightarrow>
     sweepPass kill slots' s' = Inr (slots', s', False)"
  by (rule sweepLoop_rule[where P = "\<lambda>_ _. sweepPass kill slots' s' = Inr (slots', s', False)"]) auto

lemma deadModLoop_fixpoint:
  "deadModLoop ms s = Some (Inr (ms', s')) \<Longrightarrow> deadModPass ms' s' = Inr (ms', s', False)"
  by (rule deadModLoop_rule[where P = "\<lambda>_ _. deadModPass ms' s' = Inr (ms', s', False)"]) auto

text \<open>
  Claim C2 fails: on \<open>ex_dtype_chain\<close> the first \<open>deadifyDTypes\<close> deletes the
  unused reference type 11 and keeps 12, whose counter is 1 because of 11; the second
  \<open>deadifyDTypes\<close>, on the netlist the first one left, deletes 12.
\<close>

theorem C2_second_run_deletes:
  "\<exists>s1 s2. deadifyDTypes ex_dtype_chain = Some (Inr s1)
     \<and> addrs (rootp s1) = [1, 2, 9, 12]
     \<and> deadifyDTypes (rootp s1) = Some (Inr s2)
     \<and> addrs (rootp s2) = [1, 2, 9]
     \<and> map (\<lambda>e. addr_of (fst (snd e))) (deaths s2) = [12]"
proof -
  obtain s1 where s1: "deadifyDTypes ex_dtype_chain = Some (Inr s1)"
    by (simp add: run_defs ex_dtype_chain_def)
  have r1: "rootp s1 = Node 1 (plain AstNetlist)
       [Node 2 ((plain AstModule)\<lparr>level := 2\<rparr>) [] [] [] []]
       []
       [Node 9 (plain AstNode) [Node 12 (plain AstNodeDType) [] [] [] []] [] [] []]
       []"
    using s1 by (auto simp: run_defs ex_dtype_chain_def)
  obtain s2 where s2: "deadifyDTypes (rootp s1) = Some (Inr s2)"
    unfolding r1 by (simp add: run_defs)
  have "addrs (rootp s2) = [1, 2, 9]" "map (\<lambda>e. addr_of (fst (snd e))) (deaths s2) = [12]"
    using s2 unfolding r1 by (auto simp: run_defs)
  with s1 r1 s2 show ?thesis by (intro exI[of _ s1] exI[of _ s2]) simp
qed

section \<open>Which counters an invocation can touch\<close>

text \<open>The pointers a node holds, and the addresses an invocation can count at: the
  targets of the pointers of a forest and the addresses of its modules.\<close>

definition pointers :: "attrs \<Rightarrow> addr list" where
  "pointers at =
     concat (map (\<lambda>p. case p of None \<Rightarrow> [] | Some a \<Rightarrow> [a])
       [dtypep at, getChildDTypep at, virtRefDTypep at, modp at, scopep at, aboveScopep at,
        varScopep at, varp at, packagep at])"

definition counted_at :: "node \<Rightarrow> addr list" where
  "counted_at n = pointers (attrs_of n) @ (if castNodeModule n then [addr_of n] else [])"

definition targets :: "node list \<Rightarrow> addr set" where
  "targets forest = set (concat (map counted_at (nodes_list forest)))"

definition quiet :: "addr set \<Rightarrow> dv \<Rightarrow> bool" where
  "quiet T s = ((\<forall>y. y \<notin> T \<longrightarrow> user1 s y = 0)
                \<and> (\<forall>m b. m_modp s = Some (m, b) \<longrightarrow> m \<in> T))"

lemma deref_in: "deref forest a = Some n \<Longrightarrow> n \<in> set (nodes_list forest)"
  by (auto simp: deref_def find_Some_iff in_set_conv_nth)


lemma pointers_iff:
  "a \<in> set (pointers at) \<longleftrightarrow>
     dtypep at = Some a \<or> getChildDTypep at = Some a \<or> virtRefDTypep at = Some a
     \<or> modp at = Some a \<or> scopep at = Some a \<or> aboveScopep at = Some a
     \<or> varScopep at = Some a \<or> varp at = Some a \<or> packagep at = Some a"
  by (auto simp: pointers_def split: option.splits)

text \<open>The counting helpers as updates of the counter store.\<close>

definition hit :: "addr option \<Rightarrow> addr \<Rightarrow> int" where
  "hit p y = (if p = Some y then 1 else 0)"

lemma incOpt_eq: "incOpt p s = s\<lparr>user1 := \<lambda>y. user1 s y + hit p y\<rparr>"
  by (cases p) (auto simp: incOpt_def user1Inc_def hit_def fun_eq_iff intro!: arg_cong[where f="\<lambda>u. s\<lparr>user1 := u\<rparr>"])

lemma decOpt_eq: "decOpt p s = s\<lparr>user1 := \<lambda>y. user1 s y - hit p y\<rparr>"
  by (cases p) (auto simp: decOpt_def user1Inc_def hit_def fun_eq_iff intro!: arg_cong[where f="\<lambda>u. s\<lparr>user1 := u\<rparr>"])

lemma user1Inc_eq: "user1Inc a k s = s\<lparr>user1 := \<lambda>y. user1 s y + k * hit (Some a) y\<rparr>"
  by (auto simp: user1Inc_def hit_def fun_eq_iff intro!: arg_cong[where f="\<lambda>u. s\<lparr>user1 := u\<rparr>"])

lemma checkAll_eq:
  "checkAll a at s =
     s\<lparr>user1 := \<lambda>y. user1 s y + (if dtypep at = Some a then 0 else hit (dtypep at) y)
                      + hit (getChildDTypep at) y\<rparr>"
  by (auto simp: checkAll_def incOpt_eq fun_eq_iff intro!: arg_cong[where f="\<lambda>u. s\<lparr>user1 := u\<rparr>"])

lemma checkDType_eq:
  "checkDType f a at s =
     s\<lparr>user1 := \<lambda>y. user1 s y + hit (virtRefDTypep at) y,
       m_dtypesp := (if \<not> generic at \<and> elimDTypes f \<and> ntype at \<noteq> AstMemberDType
                     then m_dtypesp s @ [a] else m_dtypesp s)\<rparr>"
  by (auto simp: checkDType_def incOpt_eq)

lemma hit_notin: "(\<And>a. p = Some a \<Longrightarrow> a \<in> T) \<Longrightarrow> y \<notin> T \<Longrightarrow> hit p y = 0"
  by (auto simp: hit_def)







lemma packageLink_cases:
  "packageLink f at s = (at', s') \<Longrightarrow>
     (\<not> elimCells f \<and> at' = at \<and> s' = incOpt (packagep at) s)
     \<or> (elimCells f \<and> at' = at\<lparr>packagep := None\<rparr> \<and> s' = s)
     \<or> (packagep at = None \<and> at' = at \<and> s' = s)"
  by (auto simp: packageLink_def incOpt_def split: option.splits if_splits)


lemma nodes_list_append [simp]: "nodes_list (xs @ ys) = nodes_list xs @ nodes_list ys"
  by (induction xs) auto

lemma targets_simps:
  "targets [] = {}"
  "targets (xs @ ys) = targets xs \<union> targets ys"
  "targets (Node a at o1 o2 o3 o4 # ns) =
     set (pointers at) \<union> (if ntype at = AstModule \<or> ntype at = AstPackage then {a} else {})
     \<union> targets o1 \<union> targets o2 \<union> targets o3 \<union> targets o4 \<union> targets ns"
  by (simp_all add: targets_def counted_at_def castNodeModule_def Un_ac)

lemma targets_Cons: "targets (n # ns) = targets [n] \<union> targets ns"
  by (simp add: targets_def)


lemma pointers_scrub: "set (pointers (at\<lparr>packagep := None\<rparr>)) \<subseteq> set (pointers at)"
  by (auto simp: pointers_iff)





lemma quiet_fields [simp]:
  "quiet T (s\<lparr>m_varsp := vs\<rparr>) = quiet T s"
  "quiet T (s\<lparr>m_dtypesp := ds\<rparr>) = quiet T s"
  "quiet T (s\<lparr>m_vscsp := vscs\<rparr>) = quiet T s"
  "quiet T (s\<lparr>m_scopesp := scs\<rparr>) = quiet T s"
  "quiet T (s\<lparr>m_cellsp := cs\<rparr>) = quiet T s"
  "quiet T (s\<lparr>m_assignMap := am\<rparr>) = quiet T s"
  "quiet T (s\<lparr>m_sideEffect := se\<rparr>) = quiet T s"
  "quiet T (s\<lparr>rootp := rt\<rparr>) = quiet T s"
  "quiet T (s\<lparr>m_deleteps := dl\<rparr>) = quiet T s"
  "quiet T (s\<lparr>deaths := dt\<rparr>) = quiet T s"
  by (simp_all add: quiet_def)


lemma same_trace_simps [simp]:
  "deaths (incOpt p s) = deaths s" "m_deleteps (incOpt p s) = m_deleteps s"
  "deaths (checkAll a at s) = deaths s" "m_deleteps (checkAll a at s) = m_deleteps s"
  "deaths (checkDType f a at s) = deaths s" "m_deleteps (checkDType f a at s) = m_deleteps s"
  "deaths (pinPackage pub s) = deaths s" "m_deleteps (pinPackage pub s) = m_deleteps s"
  "m_deleteps (user1Inc b k s) = m_deleteps s"
  by (simp_all add: incOpt_eq checkAll_eq checkDType_eq pinPackage_def user1Inc_def
      split: option.splits bool.splits)





section \<open>Properties of the traversal, by the structure of a visit\<close>

text \<open>A property of every visit follows from its five shapes: the empty list, a list
  with a head, a node handled through \<open>iterateChildren\<close> and \<open>visitPost\<close>, an
  assignment recorded in \<open>m_assignMap\<close>, and an assignment tracked like any other
  statement.\<close>

lemma visit_rule:
  fixes R :: "node \<Rightarrow> dv \<Rightarrow> node list \<Rightarrow> dv \<Rightarrow> bool"
    and RL :: "node list \<Rightarrow> dv \<Rightarrow> node list \<Rightarrow> dv \<Rightarrow> bool"
  assumes nil: "\<And>s. RL [] s [] s"
    and cons: "\<And>n ns s r s1 rs s2. R n s r s1 \<Longrightarrow> RL ns s1 rs s2 \<Longrightarrow> RL (n # ns) s (r @ rs) s2"
    and node: "\<And>a at o1 o2 o3 o4 s r1 s1 r2 s2 r3 s3 r4 s4 r s'.
       ntype at \<noteq> AstNodeAssign \<Longrightarrow> RL o1 (visitPre a at s) r1 s1 \<Longrightarrow> RL o2 s1 r2 s2 \<Longrightarrow>
       RL o3 s2 r3 s3 \<Longrightarrow> RL o4 s3 r4 s4 \<Longrightarrow> visitPost f h a at r1 r2 r3 r4 s4 = Inr (r, s') \<Longrightarrow>
       R (Node a at o1 o2 o3 o4) s r s'"
    and recorded: "\<And>a at o1 l ls o3 o4 s r1 s1 vs.
       ntype at = AstNodeAssign \<Longrightarrow> o1 \<noteq> [] \<Longrightarrow> RL o1 (s\<lparr>m_sideEffect := False\<rparr>) r1 s1 \<Longrightarrow>
       ntype (attrs_of l) = AstVarRef \<Longrightarrow> \<not> m_sideEffect s1 \<Longrightarrow> varScopep (attrs_of l) = Some vs \<Longrightarrow>
       R (Node a at o1 (l # ls) o3 o4) s [Node a at r1 (l # ls) o3 o4]
         (checkAll a at (checkAll (addr_of l) (attrs_of l)
            ((checkAll a at s1)\<lparr>m_assignMap := m_assignMap s1 @ [(vs, a)]\<rparr>)))"
    and tracked: "\<And>a at o1 l ls o3 o4 s r1 s1 r2 s2.
       ntype at = AstNodeAssign \<Longrightarrow> o1 \<noteq> [] \<Longrightarrow> RL o1 (s\<lparr>m_sideEffect := False\<rparr>) r1 s1 \<Longrightarrow>
       \<not> (ntype (attrs_of l) = AstVarRef \<and> \<not> m_sideEffect s1 \<and> varScopep (attrs_of l) \<noteq> None) \<Longrightarrow>
       RL (l # ls) (checkAll a at s1) r2 s2 \<Longrightarrow>
       R (Node a at o1 (l # ls) o3 o4) s [Node a at r1 r2 o3 o4] (checkAll a at s2)"
  shows visit_rule_node: "visit f h n s = Inr (r, s') \<Longrightarrow> R n s r s'"
    and visit_rule_list: "iterateAndNext f h ns s = Inr (rs, s') \<Longrightarrow> RL ns s rs s'"
proof -
  have lift: "\<forall>s rs s'. iterateAndNext f h ns s = Inr (rs, s') \<longrightarrow> RL ns s rs s'"
    if "\<And>x. x \<in> set ns \<Longrightarrow> \<forall>s r s'. visit f h x s = Inr (r, s') \<longrightarrow> R x s r s'" for ns
    using that
  proof (induction ns)
    case Nil
    then show ?case using nil by simp
  next
    case (Cons n ns)
    show ?case
    proof (intro allI impI)
      fix s rs s'
      assume "iterateAndNext f h (n # ns) s = Inr (rs, s')"
      then obtain r s1 rs0 where
        v: "visit f h n s = Inr (r, s1)" and i: "iterateAndNext f h ns s1 = Inr (rs0, s')"
        and rs: "rs = r @ rs0"
        by (auto split: sum.splits)
      from Cons.prems[of n] v have "R n s r s1" by simp
      moreover from Cons.IH Cons.prems i have "RL ns s1 rs0 s'" by simp
      ultimately show "RL (n # ns) s rs s'" unfolding rs by (rule cons)
    qed
  qed
  have main: "\<forall>s r s'. visit f h n s = Inr (r, s') \<longrightarrow> R n s r s'" for n
  proof (induction n)
    case (Node a at o1 o2 o3 o4)
    have l1: "RL o1 s rs s'" if "iterateAndNext f h o1 s = Inr (rs, s')" for s rs s'
      using lift[of o1] Node.IH(1) that by blast
    have l2: "RL o2 s rs s'" if "iterateAndNext f h o2 s = Inr (rs, s')" for s rs s'
      using lift[of o2] Node.IH(2) that by blast
    have l3: "RL o3 s rs s'" if "iterateAndNext f h o3 s = Inr (rs, s')" for s rs s'
      using lift[of o3] Node.IH(3) that by blast
    have l4: "RL o4 s rs s'" if "iterateAndNext f h o4 s = Inr (rs, s')" for s rs s'
      using lift[of o4] Node.IH(4) that by blast
    show ?case
    proof (intro allI impI)
      fix s r s'
      assume run: "visit f h (Node a at o1 o2 o3 o4) s = Inr (r, s')"
      show "R (Node a at o1 o2 o3 o4) s r s'"
      proof (cases "ntype at = AstNodeAssign")
        case False
        with run obtain r1 s1 r2 s2 r3 s3 r4 s4 where
          i1: "iterateAndNext f h o1 (visitPre a at s) = Inr (r1, s1)"
          and i2: "iterateAndNext f h o2 s1 = Inr (r2, s2)"
          and i3: "iterateAndNext f h o3 s2 = Inr (r3, s3)"
          and i4: "iterateAndNext f h o4 s3 = Inr (r4, s4)"
          and p: "visitPost f h a at r1 r2 r3 r4 s4 = Inr (r, s')"
          by (auto split: sum.splits)
        from node[OF False l1[OF i1] l2[OF i2] l3[OF i3] l4[OF i4] p] show ?thesis .
      next
        case True
        with run obtain x xs r1 s1 l ls where
          o1: "o1 = x # xs" and o2: "o2 = l # ls"
          and i1: "iterateAndNext f h o1 (s\<lparr>m_sideEffect := False\<rparr>) = Inr (r1, s1)"
          by (auto split: sum.splits list.splits)
        have ne: "o1 \<noteq> []" using o1 by simp
        show ?thesis
        proof (cases "ntype (attrs_of l) = AstVarRef \<and> \<not> m_sideEffect s1 \<and> varScopep (attrs_of l) \<noteq> None")
          case rec: True
          then obtain vs where vs: "varScopep (attrs_of l) = Some vs" by auto
          from run True o1 o2 i1 rec vs have
            "r = [Node a at r1 o2 o3 o4]"
            "s' = checkAll a at (checkAll (addr_of l) (attrs_of l)
                ((checkAll a at s1)\<lparr>m_assignMap := m_assignMap s1 @ [(vs, a)]\<rparr>))"
            by auto
          then show ?thesis using recorded[OF True ne l1[OF i1] _ _ vs] rec o2 by simp
        next
          case norec: False
          with run True o1 o2 i1 obtain r2 s2 where
            i2: "iterateAndNext f h o2 (checkAll a at s1) = Inr (r2, s2)"
            and rs: "r = [Node a at r1 r2 o3 o4]" "s' = checkAll a at s2"
            by (auto split: sum.splits option.splits if_splits)
          from tracked[OF True ne l1[OF i1] norec l2[OF i2, unfolded o2]] rs o2
          show ?thesis by simp
        qed
      qed
    qed
  qed
  show "visit f h n s = Inr (r, s') \<Longrightarrow> R n s r s'" using main by blast
  show "iterateAndNext f h ns s = Inr (rs, s') \<Longrightarrow> RL ns s rs s'" using lift main by blast
qed



lemma visitPre_trace [simp]:
  "deaths (visitPre a at s) = deaths s" "m_deleteps (visitPre a at s) = m_deleteps s"
  by (simp_all add: visitPre_def)


section \<open>Every unlinked root passed its test\<close>


lemma counted_at_del [simp]: "counted_at (del_node a n) = counted_at n"
  by (simp add: counted_at_def castNodeModule_def)




lemma m_deleteps_decOpt [simp]: "m_deleteps (decOpt p s) = m_deleteps s"
  by (simp add: decOpt_eq)

lemma targets_node_in: "n \<in> set (nodes_list forest) \<Longrightarrow> set (counted_at n) \<subseteq> targets forest"
  by (auto simp: targets_def)








lemma deathOk_quiet:
  "quiet T s \<Longrightarrow> (addr_of n \<notin> T \<longrightarrow> user1 s (addr_of n) = 0)"
  by (simp add: quiet_def)











lemma DeadModVisitor_shape:
  "DeadModVisitor n s = Inr s' \<Longrightarrow>
     targets [n] \<subseteq> T \<longrightarrow> quiet T s \<longrightarrow> quiet T s' \<and> rootp s' = rootp s \<and> m_deleteps s' = m_deleteps s"
  "DeadModVisitor_list ns s = Inr s' \<Longrightarrow>
     targets ns \<subseteq> T \<longrightarrow> quiet T s \<longrightarrow> quiet T s' \<and> rootp s' = rootp s \<and> m_deleteps s' = m_deleteps s"
proof (induction n s and ns s arbitrary: s' and s' rule: DeadModVisitor_DeadModVisitor_list.induct)
  case (1 s)
  then show ?case by simp
next
  case (2 n ns s)
  from "2.prems" obtain s1 where r: "DeadModVisitor n s = Inr s1" "DeadModVisitor_list ns s1 = Inr s'"
    by (simp split: sum.splits)
  from "2.IH"(1)[OF r(1)] "2.IH"(2)[OF r(1) r(2)] show ?case
    using targets_Cons[of n ns] by auto
next
  case (3 a at o1 o2 o3 o4 s)
  show ?case
  proof (cases "isNodeMath (ntype at)")
    case True
    then show ?thesis using "3.prems" by simp
  next
    case False
    then obtain s1 s2 s3 s4 where
      r: "DeadModVisitor_list o1 s = Inr s1" "DeadModVisitor_list o2 s1 = Inr s2"
         "DeadModVisitor_list o3 s2 = Inr s3" "DeadModVisitor_list o4 s3 = Inr s4"
      using "3.prems" by (simp split: sum.splits)
    note ih = "3.IH"(1)[OF False r(1)] "3.IH"(2)[OF False r(1) r(2)]
        "3.IH"(3)[OF False r(1) r(2) r(3)] "3.IH"(4)[OF False r(1) r(2) r(3) r(4)]
    show ?thesis
    proof (intro impI)
      assume t: "targets [Node a at o1 o2 o3 o4] \<subseteq> T" and q: "quiet T s"
      from t have to: "targets o1 \<subseteq> T" "targets o2 \<subseteq> T" "targets o3 \<subseteq> T" "targets o4 \<subseteq> T"
        "set (pointers at) \<subseteq> T"
        by (auto simp: targets_simps)
      from ih to q have q4: "quiet T s4" "rootp s4 = rootp s" "m_deleteps s4 = m_deleteps s" by auto
      have "s' = s4 \<or> (\<exists>m. modp at = Some m \<and> s' = user1Inc m (- 1) s4)"
        using "3.prems" False r by (auto split: if_splits option.splits)
      moreover have "m \<in> T" if "modp at = Some m" for m
        using to(5) that by (auto simp: pointers_iff)
      ultimately show "quiet T s' \<and> rootp s' = rootp s \<and> m_deleteps s' = m_deleteps s"
        using q4 by (auto simp: user1Inc_def quiet_def)
    qed
  qed
qed












section \<open>What the counters are worth: the counted edges\<close>

text \<open>An edge from a pointer field to \<open>y\<close>.\<close>

definition edge :: "addr option \<Rightarrow> addr \<Rightarrow> nat" where
  "edge p y = (if p = Some y then 1 else 0)"

text \<open>The edges \<open>checkAll\<close> counts for a node.\<close>

definition dpart :: "addr \<Rightarrow> addr \<Rightarrow> attrs \<Rightarrow> nat" where
  "dpart y a at = (if dtypep at = Some a then 0 else edge (dtypep at) y) + edge (getChildDTypep at) y"

text \<open>The edges to \<open>y\<close> that the traversal counts for a node that its own visit function
  handles: those of \<open>checkAll\<close>, the scope of a function or varscope, the scope above a
  scope, the module of a cell, the referenced type of a data type, the varscope and
  variable of a variable reference, and the package of a reference.\<close>

definition refs :: "addr \<Rightarrow> addr \<Rightarrow> attrs \<Rightarrow> nat" where
  "refs y a at =
     dpart y a at + edge (scopep at) y + edge (aboveScopep at) y + edge (modp at) y
     + (if ntype at \<in> {AstRefDType, AstNodeClassDType, AstMemberDType, AstNodeDType}
        then edge (virtRefDTypep at) y else 0)
     + (if ntype at \<in> {AstVarRef, AstVarXRef}
        then edge (varScopep at) y + edge (varp at) y else 0)
     + (if ntype at \<in> {AstVarRef, AstVarXRef, AstNodeFTaskRef, AstRefDType, AstEnumItemRef}
        then edge (packagep at) y else 0)"

text \<open>The left-hand side of an assignment that \<open>visit(AstNodeAssign*)\<close> may record
  instead of visiting: a \<open>AstVarRef\<close> with a varscope. Only \<open>checkAll\<close> is sure to
  have counted its edges.\<close>

definition recordable :: "attrs \<Rightarrow> bool" where
  "recordable at = (ntype at = AstVarRef \<and> varScopep at \<noteq> None)"

text \<open>The counted edges to \<open>y\<close> from a subtree. The flag says that the node (the head of
  the list) is in the position of an assignment's left-hand side.\<close>

fun need :: "addr \<Rightarrow> bool \<Rightarrow> node \<Rightarrow> nat"
and need_list :: "addr \<Rightarrow> bool \<Rightarrow> node list \<Rightarrow> nat" where
  "need y lhs (Node a at o1 o2 o3 o4) =
     (if lhs \<and> recordable at then dpart y a at
      else refs y a at + need_list y False o1 + need_list y (ntype at = AstNodeAssign) o2
           + need_list y False o3 + need_list y False o4)"
| "need_list y lhs [] = 0"
| "need_list y lhs (n # ns) = need y lhs n + need_list y False ns"

text \<open>The fields a class does not have are null; a \<open>AstVarRef\<close> has no children; an
  assignment has one left-hand side and nothing in \<open>op3p\<close>, \<open>op4p\<close>; modules are
  not nested.\<close>

definition kids :: "node \<Rightarrow> node list" where
  "kids n = op1p n @ op2p n @ op3p n @ op4p n"

definition wf_node :: "node \<Rightarrow> bool" where
  "wf_node n =
     ((scopep (attrs_of n) \<noteq> None \<longrightarrow> ntype (attrs_of n) = AstCFunc \<or> ntype (attrs_of n) = AstVarScope)
      \<and> (aboveScopep (attrs_of n) \<noteq> None \<longrightarrow> ntype (attrs_of n) = AstScope)
      \<and> (modp (attrs_of n) \<noteq> None \<longrightarrow> ntype (attrs_of n) = AstCell)
      \<and> (ntype (attrs_of n) = AstVarRef \<longrightarrow> kids n = [])
      \<and> (ntype (attrs_of n) = AstNodeAssign \<longrightarrow> length (op2p n) \<le> 1 \<and> op3p n = [] \<and> op4p n = [])
      \<and> (castNodeModule n \<longrightarrow> list_all (\<lambda>m. \<not> castNodeModule m) (nodes_list (kids n))))"

definition wf_forest :: "node list \<Rightarrow> bool" where
  "wf_forest forest = list_all wf_node (nodes_list forest)"

lemma edge_hit: "hit p y = int (edge p y)"
  by (simp add: hit_def edge_def)

lemma need_flag_le:
  "need y True n \<le> need y False n"
  "need_list y True ns \<le> need_list y False ns"
proof -
  show n: "need y True n \<le> need y False n" for n
    by (cases n) (auto simp: refs_def)
  show "need_list y True ns \<le> need_list y False ns"
    by (cases ns) (auto simp: n)
qed

lemma need_list_append: "need_list y False (xs @ ys) = need_list y False xs + need_list y False ys"
  by (induction xs) auto

lemma need_list_flag_append:
  "need_list y lhs (xs @ ys) \<le> need_list y lhs xs + need_list y False ys"
proof (cases xs)
  case Nil
  then show ?thesis using need_flag_le(2)[of y ys] by (cases lhs) auto
next
  case (Cons x xs')
  then show ?thesis by (simp add: need_list_append)
qed


text \<open>A public variable or typedef: what pins a package.\<close>

definition pub :: "attrs \<Rightarrow> bool" where
  "pub at = ((ntype at = AstVar \<and> isSigPublic at) \<or> (ntype at = AstTypedef \<and> attrPublic at))"

definition wf_attrs :: "attrs \<Rightarrow> bool" where
  "wf_attrs at =
     ((scopep at \<noteq> None \<longrightarrow> ntype at = AstCFunc \<or> ntype at = AstVarScope)
      \<and> (aboveScopep at \<noteq> None \<longrightarrow> ntype at = AstScope)
      \<and> (modp at \<noteq> None \<longrightarrow> ntype at = AstCell))"

lemma user1_checkAll: "user1 (checkAll a at s) y = user1 s y + int (dpart y a at)"
  by (simp add: checkAll_eq dpart_def edge_hit)

lemma user1_incOpt: "user1 (incOpt p s) y = user1 s y + int (edge p y)"
  by (simp add: incOpt_eq edge_hit)

lemma user1_checkDType: "user1 (checkDType f a at s) y = user1 s y + int (edge (virtRefDTypep at) y)"
  by (simp add: checkDType_eq edge_hit)

lemma user1_pinPackage:
  "user1 (pinPackage p s) y = user1 s y + (if p \<and> m_modp s = Some (y, True) then 1 else 0)"
  by (auto simp: pinPackage_def user1Inc_def split: option.splits bool.splits)

lemma user1_user1Inc1: "user1 (user1Inc m 1 s) y = user1 s y + int (edge (Some m) y)"
  by (simp add: user1Inc_def edge_def)

lemma m_modp_simps [simp]:
  "m_modp (checkAll a at s) = m_modp s" "m_modp (incOpt p s) = m_modp s"
  "m_modp (checkDType f a at s) = m_modp s" "m_modp (pinPackage b s) = m_modp s"
  "m_modp (user1Inc m k s) = m_modp s" "m_modp (decOpt p s) = m_modp s"
  by (simp_all add: checkAll_eq incOpt_eq checkDType_eq pinPackage_def user1Inc_def decOpt_eq
      split: option.splits bool.splits)

lemma visitVarRef_count:
  assumes "visitVarRef h a at s = Inr s1"
  shows "user1 s y + int (dpart y a at) + int (edge (varScopep at) y) + int (edge (varp at) y)
           \<le> user1 s1 y
         \<and> m_modp s1 = m_modp s \<and> m_deleteps s1 = m_deleteps s \<and> deaths s1 = deaths s"
proof (cases "varScopep at")
  case None
  with assms show ?thesis
    by (auto simp: visitVarRef_def user1_incOpt user1_checkAll edge_def)
next
  case (Some vs)
  with assms obtain v where
    s1: "s1 = incOpt (varp at) (user1Inc v 1 (user1Inc vs 1 (checkAll a at s)))"
    by (auto simp: visitVarRef_def Let_def split: option.splits)
  show ?thesis unfolding s1 using Some
    by (simp add: user1_incOpt user1_user1Inc1 user1_checkAll)
qed

lemma visitVarScope_count:
  assumes "visitVarScope f h a at s = Inr s1"
  shows "user1 s1 y = user1 s y + int (dpart y a at) + int (edge (scopep at) y)
         \<and> m_modp s1 = m_modp s \<and> m_deleteps s1 = m_deleteps s \<and> deaths s1 = deaths s"
  using assms
  by (auto simp: visitVarScope_def Let_def user1_incOpt user1_checkAll split: option.splits if_splits)

text \<open>What a visit function that keeps its node has done.\<close>

definition kept ::
  "addr \<Rightarrow> attrs \<Rightarrow> node list \<Rightarrow> node list \<Rightarrow> node list \<Rightarrow> node list \<Rightarrow> dv \<Rightarrow> node list \<Rightarrow> dv \<Rightarrow> bool" where
  "kept a at r1 r2 r3 r4 s r s' =
     (\<exists>at'. r = [Node a at' r1 r2 r3 r4] \<and> (at' = at \<or> at' = at\<lparr>packagep := None\<rparr>)
        \<and> m_deleteps s' = m_deleteps s \<and> deaths s' = deaths s
        \<and> (\<forall>y. user1 s y + int (refs y a at')
                  + (if pub at \<and> m_modp s = Some (y, True) then 1 else 0) \<le> user1 s' y)
        \<and> m_modp s' = (if ntype at = AstModule \<or> ntype at = AstPackage then None else m_modp s))"

lemma refs_scrub: "refs y a (at\<lparr>packagep := None\<rparr>) \<le> refs y a at"
  by (simp add: refs_def dpart_def edge_def)

lemma packageLink_count:
  assumes "packageLink f at s = (at', s')"
  shows "(at' = at \<or> at' = at\<lparr>packagep := None\<rparr>)
         \<and> user1 s' y = user1 s y + int (edge (packagep at') y)
         \<and> m_modp s' = m_modp s \<and> m_deleteps s' = m_deleteps s \<and> deaths s' = deaths s"
  using assms
  by (auto simp: packageLink_def user1Inc_def edge_def split: option.splits if_splits)


lemma edge_None [simp]: "edge None y = 0"
  by (simp add: edge_def)

lemma visitPost_count:
  assumes run: "visitPost f h a at r1 r2 r3 r4 s = Inr (r, s')" and wf: "wf_attrs at"
  shows "kept a at r1 r2 r3 r4 s r s'
         \<or> (r = [] \<and> s' = pushDeletep (Node a at r1 r2 r3 r4) s \<and> \<not> pub at
            \<and> (ntype at = AstModport \<or> ntype at = AstTypedef))"
proof -
  have nsc: "scopep at = None" if "ntype at \<noteq> AstCFunc" "ntype at \<noteq> AstVarScope"
    using wf that by (auto simp: wf_attrs_def)
  have nab: "aboveScopep at = None" if "ntype at \<noteq> AstScope"
    using wf that by (auto simp: wf_attrs_def)
  have nmd: "modp at = None" if "ntype at \<noteq> AstCell"
    using wf that by (auto simp: wf_attrs_def)
  note cnt = user1_checkAll user1_incOpt user1_checkDType user1_pinPackage user1_user1Inc1
  show ?thesis
  proof (cases "ntype at")
    case AstNetlist
    with run have e: "r = [Node a at r1 r2 r3 r4]" "s' = checkAll a at s"
      by (auto simp: visitPost_def Let_def split: sum.splits option.splits if_splits prod.splits)
    show ?thesis unfolding kept_def e using AstNetlist nsc nab nmd
      by (intro disjI1 exI[of _ at]) (simp add: refs_def cnt pub_def)
  next
    case AstNodeAssign
    with run have e: "r = [Node a at r1 r2 r3 r4]" "s' = checkAll a at s"
      by (auto simp: visitPost_def Let_def split: sum.splits option.splits if_splits prod.splits)
    show ?thesis unfolding kept_def e using AstNodeAssign nsc nab nmd
      by (intro disjI1 exI[of _ at]) (simp add: refs_def cnt pub_def)
  next
    case AstNodeMath
    with run have e: "r = [Node a at r1 r2 r3 r4]" "s' = checkAll a at s"
      by (auto simp: visitPost_def Let_def split: sum.splits option.splits if_splits prod.splits)
    show ?thesis unfolding kept_def e using AstNodeMath nsc nab nmd
      by (intro disjI1 exI[of _ at]) (simp add: refs_def cnt pub_def)
  next
    case AstNode
    with run have e: "r = [Node a at r1 r2 r3 r4]" "s' = checkAll a at s"
      by (auto simp: visitPost_def Let_def split: sum.splits option.splits if_splits prod.splits)
    show ?thesis unfolding kept_def e using AstNode nsc nab nmd
      by (intro disjI1 exI[of _ at]) (simp add: refs_def cnt pub_def)
  next
    case AstNodeClassDType
    with run have e: "r = [Node a at r1 r2 r3 r4]" "s' = checkAll a at (checkDType f a at s)"
      by (auto simp: visitPost_def Let_def split: sum.splits option.splits if_splits prod.splits)
    show ?thesis unfolding kept_def e using AstNodeClassDType nsc nab nmd
      by (intro disjI1 exI[of _ at]) (simp add: refs_def cnt pub_def)
  next
    case AstMemberDType
    with run have e: "r = [Node a at r1 r2 r3 r4]" "s' = checkAll a at (checkDType f a at s)"
      by (auto simp: visitPost_def Let_def split: sum.splits option.splits if_splits prod.splits)
    show ?thesis unfolding kept_def e using AstMemberDType nsc nab nmd
      by (intro disjI1 exI[of _ at]) (simp add: refs_def cnt pub_def)
  next
    case AstNodeDType
    with run have e: "r = [Node a at r1 r2 r3 r4]" "s' = checkAll a at (checkDType f a at s)"
      by (auto simp: visitPost_def Let_def split: sum.splits option.splits if_splits prod.splits)
    show ?thesis unfolding kept_def e using AstNodeDType nsc nab nmd
      by (intro disjI1 exI[of _ at]) (simp add: refs_def cnt pub_def)
  next
    case AstModule
    with run have e: "r = [Node a at r1 r2 r3 r4]" "s' = (checkAll a at s)\<lparr>m_modp := None\<rparr>"
      by (auto simp: visitPost_def Let_def split: sum.splits option.splits if_splits prod.splits)
    show ?thesis unfolding kept_def e using AstModule nsc nab nmd
      by (intro disjI1 exI[of _ at]) (simp add: refs_def cnt pub_def)
  next
    case AstPackage
    with run have e: "r = [Node a at r1 r2 r3 r4]" "s' = (checkAll a at s)\<lparr>m_modp := None\<rparr>"
      by (auto simp: visitPost_def Let_def split: sum.splits option.splits if_splits prod.splits)
    show ?thesis unfolding kept_def e using AstPackage nsc nab nmd
      by (intro disjI1 exI[of _ at]) (simp add: refs_def cnt pub_def)
  next
    case AstCFunc
    with run have e: "r = [Node a at r1 r2 r3 r4]" "s' = incOpt (scopep at) (checkAll a at s)"
      by (auto simp: visitPost_def Let_def split: sum.splits option.splits if_splits prod.splits)
    show ?thesis unfolding kept_def e using AstCFunc nsc nab nmd
      by (intro disjI1 exI[of _ at]) (simp add: refs_def cnt pub_def)
  next
    case AstScope
    with run have e: "r = [Node a at r1 r2 r3 r4]" "user1 s' = user1 (incOpt (aboveScopep at) (checkAll a at s))" "deaths s' = deaths s" "m_deleteps s' = m_deleteps s" "m_modp s' = m_modp s"
      by (auto simp: visitPost_def Let_def split: sum.splits option.splits if_splits prod.splits)
    show ?thesis unfolding kept_def using e AstScope nsc nab nmd
      by (intro disjI1 exI[of _ at]) (simp add: refs_def cnt pub_def)
  next
    case AstCell
    with run have e: "r = [Node a at r1 r2 r3 r4]" "\<exists>m. modp at = Some m \<and> s' = user1Inc m 1 ((checkAll a at s)\<lparr>m_cellsp := m_cellsp (checkAll a at s) @ [a]\<rparr>)"
      by (auto simp: visitPost_def Let_def split: sum.splits option.splits if_splits prod.splits)
    from e(2) obtain m where m: "modp at = Some m"
      "s' = user1Inc m 1 ((checkAll a at s)\<lparr>m_cellsp := m_cellsp (checkAll a at s) @ [a]\<rparr>)" by blast
    show ?thesis unfolding kept_def e(1) m(2) using AstCell nsc nab m(1)
      by (intro disjI1 exI[of _ at]) (simp add: refs_def cnt pub_def user1Inc_def edge_def)
  next
    case AstVarRef
    with run have e: "\<exists>s1 at'. visitVarRef h a at s = Inr s1 \<and> packageLink f at s1 = (at', s') \<and> r = [Node a at' r1 r2 r3 r4]"
      by (auto simp: visitPost_def Let_def split: sum.splits option.splits if_splits prod.splits)
    then obtain s1 at' where v: "visitVarRef h a at s = Inr s1" and l: "packageLink f at s1 = (at', s')"
      and r: "r = [Node a at' r1 r2 r3 r4]" by blast
    have at': "at' = at \<or> at' = at\<lparr>packagep := None\<rparr>" using packageLink_count[OF l] by simp
    have "user1 s y + int (refs y a at') \<le> user1 s' y" for y
      using visitVarRef_count[OF v, of y] packageLink_count[OF l, of y] at' AstVarRef nsc nab nmd
      by (auto simp: refs_def dpart_def)
    then show ?thesis unfolding kept_def using r at' AstVarRef visitVarRef_count[OF v] packageLink_count[OF l]
      by (intro disjI1 exI[of _ at']) (simp add: pub_def)
  next
    case AstVarXRef
    with run have e: "\<exists>s1 at'. visitVarRef h a at s = Inr s1 \<and> packageLink f at s1 = (at', s') \<and> r = [Node a at' r1 r2 r3 r4]"
      by (auto simp: visitPost_def Let_def split: sum.splits option.splits if_splits prod.splits)
    then obtain s1 at' where v: "visitVarRef h a at s = Inr s1" and l: "packageLink f at s1 = (at', s')"
      and r: "r = [Node a at' r1 r2 r3 r4]" by blast
    have at': "at' = at \<or> at' = at\<lparr>packagep := None\<rparr>" using packageLink_count[OF l] by simp
    have "user1 s y + int (refs y a at') \<le> user1 s' y" for y
      using visitVarRef_count[OF v, of y] packageLink_count[OF l, of y] at' AstVarXRef nsc nab nmd
      by (auto simp: refs_def dpart_def)
    then show ?thesis unfolding kept_def using r at' AstVarXRef visitVarRef_count[OF v] packageLink_count[OF l]
      by (intro disjI1 exI[of _ at']) (simp add: pub_def)
  next
    case AstNodeFTaskRef
    with run have e: "\<exists>at'. packageLink f at (checkAll a at s) = (at', s') \<and> r = [Node a at' r1 r2 r3 r4]"
      by (auto simp: visitPost_def Let_def split: sum.splits option.splits if_splits prod.splits)
    then obtain at' where l: "packageLink f at (checkAll a at s) = (at', s')"
      and r: "r = [Node a at' r1 r2 r3 r4]" by blast
    have at': "at' = at \<or> at' = at\<lparr>packagep := None\<rparr>" using packageLink_count[OF l] by simp
    have "user1 s y + int (refs y a at') \<le> user1 s' y" for y
      using packageLink_count[OF l, of y] at' AstNodeFTaskRef nsc nab nmd
      by (auto simp: refs_def dpart_def cnt)
    then show ?thesis unfolding kept_def using r at' AstNodeFTaskRef packageLink_count[OF l]
      by (intro disjI1 exI[of _ at']) (simp add: pub_def)
  next
    case AstRefDType
    with run have e: "\<exists>at'. packageLink f at (checkAll a at (checkDType f a at s)) = (at', s') \<and> r = [Node a at' r1 r2 r3 r4]"
      by (auto simp: visitPost_def Let_def split: sum.splits option.splits if_splits prod.splits)
    then obtain at' where l: "packageLink f at (checkAll a at (checkDType f a at s)) = (at', s')"
      and r: "r = [Node a at' r1 r2 r3 r4]" by blast
    have at': "at' = at \<or> at' = at\<lparr>packagep := None\<rparr>" using packageLink_count[OF l] by simp
    have "user1 s y + int (refs y a at') \<le> user1 s' y" for y
      using packageLink_count[OF l, of y] at' AstRefDType nsc nab nmd
      by (auto simp: refs_def dpart_def cnt)
    then show ?thesis unfolding kept_def using r at' AstRefDType packageLink_count[OF l]
      by (intro disjI1 exI[of _ at']) (simp add: pub_def)
  next
    case AstEnumItemRef
    with run have e: "\<exists>at' s1. packageLink f at (checkAll a at s) = (at', s1) \<and> s' = checkAll a at' s1 \<and> r = [Node a at' r1 r2 r3 r4]"
      by (auto simp: visitPost_def Let_def split: sum.splits option.splits if_splits prod.splits)
    then obtain at' s1 where l: "packageLink f at (checkAll a at s) = (at', s1)"
      and s': "s' = checkAll a at' s1" and r: "r = [Node a at' r1 r2 r3 r4]" by blast
    have at': "at' = at \<or> at' = at\<lparr>packagep := None\<rparr>" using packageLink_count[OF l] by simp
    have "user1 s y + int (refs y a at') \<le> user1 s' y" for y
      using packageLink_count[OF l, of y] at' AstEnumItemRef nsc nab nmd unfolding s'
      by (auto simp: refs_def dpart_def cnt)
    then show ?thesis unfolding kept_def using r at' AstEnumItemRef packageLink_count[OF l] s'
      by (intro disjI1 exI[of _ at']) (simp add: pub_def)
  next
    case AstModport
    with run have e: "(r = [Node a at r1 r2 r3 r4] \<and> s' = checkAll a at s) \<or> (r = [] \<and> s' = pushDeletep (Node a at r1 r2 r3 r4) s)"
      by (auto simp: visitPost_def Let_def split: sum.splits option.splits if_splits prod.splits)
    from e show ?thesis
    proof
      assume "r = [Node a at r1 r2 r3 r4] \<and> s' = checkAll a at s"
      then show ?thesis unfolding kept_def using AstModport nsc nab nmd
        by (intro disjI1 exI[of _ at]) (simp add: refs_def cnt pub_def)
    next
      assume "r = [] \<and> s' = pushDeletep (Node a at r1 r2 r3 r4) s"
      then show ?thesis using AstModport by (simp add: pub_def)
    qed
  next
    case AstTypedef
    with run have e: "(r = [Node a at r1 r2 r3 r4] \<and> s' = pinPackage (attrPublic at) (checkAll a at s)) \<or> (\<not> attrPublic at \<and> r = [] \<and> s' = pushDeletep (Node a at r1 r2 r3 r4) s)"
      by (auto simp: visitPost_def Let_def split: sum.splits option.splits if_splits prod.splits)
    from e show ?thesis
    proof
      assume "r = [Node a at r1 r2 r3 r4] \<and> s' = pinPackage (attrPublic at) (checkAll a at s)"
      then show ?thesis unfolding kept_def using AstTypedef nsc nab nmd
        by (intro disjI1 exI[of _ at]) (simp add: refs_def cnt pub_def)
    next
      assume "\<not> attrPublic at \<and> r = [] \<and> s' = pushDeletep (Node a at r1 r2 r3 r4) s"
      then show ?thesis using AstTypedef by (simp add: pub_def)
    qed
  next
    case AstVarScope
    with run have e: "visitVarScope f h a at s = Inr s'" "r = [Node a at r1 r2 r3 r4]"
      by (auto simp: visitPost_def Let_def split: sum.splits option.splits if_splits prod.splits)
    show ?thesis unfolding kept_def using e(2) AstVarScope nab nmd visitVarScope_count[OF e(1)]
      by (intro disjI1 exI[of _ at]) (simp add: refs_def pub_def)
  next
    case AstVar
    with run have e: "r = [Node a at r1 r2 r3 r4]" "user1 s' = user1 (pinPackage (isSigPublic at) (checkAll a at s))" "deaths s' = deaths s" "m_deleteps s' = m_deleteps s" "m_modp s' = m_modp s"
      by (auto simp: visitPost_def Let_def split: sum.splits option.splits if_splits prod.splits)
    show ?thesis unfolding kept_def using e AstVar nsc nab nmd
      by (intro disjI1 exI[of _ at]) (simp add: refs_def cnt pub_def)
  qed
qed


section \<open>The traversal counts every counted edge\<close>

definition pubs :: "node list \<Rightarrow> nat" where
  "pubs ns = length (filter (\<lambda>n. pub (attrs_of n)) (nodes_list ns))"

definition nomod :: "node list \<Rightarrow> bool" where
  "nomod ns = list_all (\<lambda>m. \<not> castNodeModule m) (nodes_list ns)"

text \<open>The public variables and typedefs below the packages at address \<open>y\<close>.\<close>

definition pinned :: "addr \<Rightarrow> node list \<Rightarrow> nat" where
  "pinned y ns =
     sum_list (map (\<lambda>m. if addr_of m = y \<and> ntype (attrs_of m) = AstPackage then pubs (kids m) else 0)
                   (nodes_list ns))"

text \<open>The children of the subtrees queued by \<open>pushDeletep\<close>: with the netlist, the
  nodes a sweep can still unlink.\<close>

definition pend :: "dv \<Rightarrow> node list" where
  "pend s = concat (map kids (m_deleteps s))"

lemma pubs_simps:
  "pubs [] = 0"
  "pubs (xs @ ys) = pubs xs + pubs ys"
  "pubs (Node a at o1 o2 o3 o4 # ns) =
     (if pub at then 1 else 0) + pubs o1 + pubs o2 + pubs o3 + pubs o4 + pubs ns"
  by (simp_all add: pubs_def)

lemma pubs_Cons: "pubs (n # ns) = pubs [n] + pubs ns"
  by (simp add: pubs_def)

lemma nomod_simps:
  "nomod [] = True"
  "nomod (xs @ ys) = (nomod xs \<and> nomod ys)"
  "nomod (Node a at o1 o2 o3 o4 # ns) =
     (ntype at \<noteq> AstModule \<and> ntype at \<noteq> AstPackage
      \<and> nomod o1 \<and> nomod o2 \<and> nomod o3 \<and> nomod o4 \<and> nomod ns)"
  by (auto simp: nomod_def castNodeModule_def)

lemma nomod_Cons: "nomod (n # ns) = (nomod [n] \<and> nomod ns)"
  by (simp add: nomod_def)

lemma pinned_simps:
  "pinned y [] = 0"
  "pinned y (xs @ ys) = pinned y xs + pinned y ys"
  "pinned y (Node a at o1 o2 o3 o4 # ns) =
     (if a = y \<and> ntype at = AstPackage then pubs (o1 @ o2 @ o3 @ o4) else 0)
     + pinned y o1 + pinned y o2 + pinned y o3 + pinned y o4 + pinned y ns"
  by (simp_all add: pinned_def kids_def)

lemma pinned_Cons: "pinned y (n # ns) = pinned y [n] + pinned y ns"
  by (simp add: pinned_def)

lemma pinned_nomod: "nomod ns \<Longrightarrow> pinned y ns = 0"
  by (auto simp: pinned_def nomod_def castNodeModule_def list_all_iff)

lemma wf_forest_simps:
  "wf_forest [] = True"
  "wf_forest (xs @ ys) = (wf_forest xs \<and> wf_forest ys)"
  "wf_forest (Node a at o1 o2 o3 o4 # ns) =
     (wf_node (Node a at o1 o2 o3 o4)
      \<and> wf_forest o1 \<and> wf_forest o2 \<and> wf_forest o3 \<and> wf_forest o4 \<and> wf_forest ns)"
  by (auto simp: wf_forest_def)

lemma wf_forest_Cons: "wf_forest (n # ns) = (wf_forest [n] \<and> wf_forest ns)"
  by (simp add: wf_forest_def)

lemma wf_node_attrs: "wf_node (Node a at o1 o2 o3 o4) \<Longrightarrow> wf_attrs at"
  by (simp add: wf_node_def wf_attrs_def)

text \<open>What a visit adds to the counter of \<open>y\<close>: at least the counted edges to \<open>y\<close>
  from the nodes it leaves in the tree and from those it queued, one per package at
  \<open>y\<close> for each public variable or typedef below it, and, inside the package at
  \<open>y\<close>, one per public variable or typedef visited.\<close>

definition gain :: "addr \<Rightarrow> node list \<Rightarrow> dv \<Rightarrow> node list \<Rightarrow> dv \<Rightarrow> bool" where
  "gain y ns s rs s' =
     ((user1 s y + int (need_list y False rs) + int (need_list y False (pend s'))
         + int (pinned y ns)
         + (if nomod ns \<and> m_modp s = Some (y, True) then int (pubs ns) else 0)
       \<le> user1 s' y + int (need_list y False (pend s)))
      \<and> (nomod ns \<longrightarrow> m_modp s' = m_modp s))"

lemma gain_nil: "gain y [] s [] s"
  by (simp add: gain_def pinned_simps pubs_simps)

lemma gain_cons:
  assumes "gain y [n] s r s1" "gain y ns s1 rs s2"
  shows "gain y (n # ns) s (r @ rs) s2"
proof -
  have m: "m_modp s1 = m_modp s" if "nomod (n # ns)"
    using assms(1) that nomod_Cons[of n ns] by (simp add: gain_def)
  show ?thesis
    using assms m pubs_Cons[of n ns] pinned_Cons[of y n ns] nomod_Cons[of n ns]
    by (auto simp: gain_def need_list_append split: if_splits)
qed

lemma gain_pre:
  "gain y ns s0 rs s' \<Longrightarrow> user1 s y = user1 s0 y \<Longrightarrow> pend s = pend s0 \<Longrightarrow> m_modp s = m_modp s0 \<Longrightarrow>
     gain y ns s rs s'"
  by (simp add: gain_def)


lemma gain_append:
  assumes "gain y xs s r s1" "gain y ys s1 rs s2"
  shows "gain y (xs @ ys) s (r @ rs) s2"
proof -
  have m: "m_modp s1 = m_modp s" if "nomod (xs @ ys)"
    using assms(1) that by (simp add: gain_def nomod_simps)
  show ?thesis
    using assms m
    by (auto simp: gain_def need_list_append pubs_simps pinned_simps nomod_simps split: if_splits)
qed

lemma pend_simps [simp]:
  "pend (visitPre a at s) = pend s"
  "pend (pushDeletep n s) = pend s @ kids n"
  "pend (checkAll a at s) = pend s"
  "pend (s\<lparr>m_sideEffect := b\<rparr>) = pend s"
  "pend (s\<lparr>m_assignMap := m\<rparr>) = pend s"
  by (simp_all add: pend_def pushDeletep_def checkAll_eq)

lemma user1_visitPre [simp]: "user1 (visitPre a at s) = user1 s"
  by (simp add: visitPre_def)

lemma m_modp_visitPre:
  "m_modp (visitPre a at s) =
     (if ntype at = AstModule \<or> ntype at = AstPackage then Some (a, ntype at = AstPackage) else m_modp s)"
  by (simp add: visitPre_def)

lemma wf_node_nomod:
  "wf_node (Node a at o1 o2 o3 o4) \<Longrightarrow> ntype at = AstModule \<or> ntype at = AstPackage \<Longrightarrow>
     nomod (o1 @ o2 @ o3 @ o4)"
  by (simp add: wf_node_def nomod_def kids_def castNodeModule_def)

lemma keptD:
  assumes "kept a at r1 r2 r3 r4 s r s'"
  obtains at' where "r = [Node a at' r1 r2 r3 r4]" "ntype at' = ntype at"
    "m_deleteps s' = m_deleteps s"
    "user1 s y + int (refs y a at') + (if pub at \<and> m_modp s = Some (y, True) then 1 else 0)
       \<le> user1 s' y"
    "m_modp s' = (if ntype at = AstModule \<or> ntype at = AstPackage then None else m_modp s)"
proof -
  from assms obtain at' where 1: "r = [Node a at' r1 r2 r3 r4]"
    and 2: "at' = at \<or> at' = at\<lparr>packagep := None\<rparr>"
    and 3: "m_deleteps s' = m_deleteps s"
    and 4: "\<forall>y. user1 s y + int (refs y a at')
                  + (if pub at \<and> m_modp s = Some (y, True) then 1 else 0) \<le> user1 s' y"
    and 5: "m_modp s' = (if ntype at = AstModule \<or> ntype at = AstPackage then None else m_modp s)"
    unfolding kept_def by blast
  from 2 have 6: "ntype at' = ntype at" by auto
  from 4 have 7: "user1 s y + int (refs y a at')
                  + (if pub at \<and> m_modp s = Some (y, True) then 1 else 0) \<le> user1 s' y" ..
  show thesis by (rule that[OF 1 6 3 7 5])
qed

text \<open>From the children to the node, for every kind but an assignment.\<close>

lemma gain_node:
  assumes c: "gain y (o1 @ o2 @ o3 @ o4) (visitPre a at s) (r1 @ r2 @ r3 @ r4) s4"
    and p: "kept a at r1 r2 r3 r4 s4 r s'
            \<or> (r = [] \<and> s' = pushDeletep (Node a at r1 r2 r3 r4) s4 \<and> \<not> pub at
                \<and> (ntype at = AstModport \<or> ntype at = AstTypedef))"
    and k: "ntype at \<noteq> AstNodeAssign"
    and w: "wf_node (Node a at o1 o2 o3 o4)"
  shows "gain y [Node a at o1 o2 o3 o4] s r s'"
proof (cases "ntype at = AstModule \<or> ntype at = AstPackage")
  case True
  have nm: "nomod (o1 @ o2 @ o3 @ o4)" by (rule wf_node_nomod[OF w True])
  have z: "pinned y (o1 @ o2 @ o3 @ o4) = 0" by (rule pinned_nomod[OF nm])
  from p True have "kept a at r1 r2 r3 r4 s4 r s'" by auto
  then obtain at' where
    r: "r = [Node a at' r1 r2 r3 r4]" "ntype at' = ntype at" "m_deleteps s' = m_deleteps s4"
    and u0: "user1 s4 y + int (refs y a at')
                + (if pub at \<and> m_modp s4 = Some (y, True) then 1 else 0) \<le> user1 s' y"
    by (rule keptD)
  from u0 have u: "user1 s4 y + int (refs y a at') \<le> user1 s' y" by (simp split: if_splits)
  have pe: "pend s' = pend s4" by (simp add: pend_def r(3))
  have nd: "need_list y False r = refs y a at' + need_list y False (r1 @ r2 @ r3 @ r4)"
    using r(1,2) k by (simp add: need_list_append)
  have pn: "pinned y [Node a at o1 o2 o3 o4]
          = (if a = y \<and> ntype at = AstPackage then pubs (o1 @ o2 @ o3 @ o4) else 0)"
    using z by (simp add: pinned_simps)
  have nn: "\<not> nomod [Node a at o1 o2 o3 o4]" using True by (auto simp: nomod_simps)
  from c nm have
    "user1 s y + int (need_list y False (r1 @ r2 @ r3 @ r4)) + int (need_list y False (pend s4))
       + (if a = y \<and> ntype at = AstPackage then int (pubs (o1 @ o2 @ o3 @ o4)) else 0)
     \<le> user1 s4 y + int (need_list y False (pend s))"
    using True by (auto simp: gain_def z m_modp_visitPre split: if_splits)
  with u show ?thesis unfolding gain_def nd pn pe using nn by auto
next
  case False
  have pre: "m_modp (visitPre a at s) = m_modp s" using False by (simp add: m_modp_visitPre)
  have nm: "nomod [Node a at o1 o2 o3 o4] = nomod (o1 @ o2 @ o3 @ o4)"
    using False by (simp add: nomod_simps)
  have pn: "pinned y [Node a at o1 o2 o3 o4] = pinned y (o1 @ o2 @ o3 @ o4)"
    using False by (auto simp: pinned_simps)
  have pb: "pubs [Node a at o1 o2 o3 o4] = (if pub at then 1 else 0) + pubs (o1 @ o2 @ o3 @ o4)"
    by (simp add: pubs_simps)
  from c have m4: "nomod (o1 @ o2 @ o3 @ o4) \<Longrightarrow> m_modp s4 = m_modp s"
    by (simp add: gain_def pre)
  from c have cc:
    "user1 s y + int (need_list y False (r1 @ r2 @ r3 @ r4)) + int (need_list y False (pend s4))
       + int (pinned y (o1 @ o2 @ o3 @ o4))
       + (if nomod (o1 @ o2 @ o3 @ o4) \<and> m_modp s = Some (y, True)
          then int (pubs (o1 @ o2 @ o3 @ o4)) else 0)
     \<le> user1 s4 y + int (need_list y False (pend s))"
    by (simp add: gain_def pre)
  from p show ?thesis
  proof
    assume "kept a at r1 r2 r3 r4 s4 r s'"
    then obtain at' where
      r: "r = [Node a at' r1 r2 r3 r4]" "ntype at' = ntype at" "m_deleteps s' = m_deleteps s4"
      and u: "user1 s4 y + int (refs y a at')
                + (if pub at \<and> m_modp s4 = Some (y, True) then 1 else 0) \<le> user1 s' y"
      and m0: "m_modp s' = (if ntype at = AstModule \<or> ntype at = AstPackage then None else m_modp s4)"
      by (rule keptD)
    from m0 False have m: "m_modp s' = m_modp s4" by simp
    have pe: "pend s' = pend s4" by (simp add: pend_def r(3))
    have nd: "need_list y False r = refs y a at' + need_list y False (r1 @ r2 @ r3 @ r4)"
      using r(1,2) k by (simp add: need_list_append)
    show ?thesis unfolding gain_def nd pn pb pe nm using cc u m m4
      by (auto split: if_splits)
  next
    assume d: "r = [] \<and> s' = pushDeletep (Node a at r1 r2 r3 r4) s4 \<and> \<not> pub at
                \<and> (ntype at = AstModport \<or> ntype at = AstTypedef)"
    then have pe: "pend s' = pend s4 @ (r1 @ r2 @ r3 @ r4)" by (simp add: kids_def)
    have u: "user1 s' = user1 s4" "m_modp s' = m_modp s4" using d by (simp_all add: pushDeletep_def)
    show ?thesis unfolding gain_def pn pb pe nm using cc u m4 d
      by (auto simp: need_list_append split: if_splits)
  qed
qed


lemma kept_shape:
  assumes "kept a at r1 r2 r3 r4 s r s'"
  shows "\<exists>at'. r = [Node a at' r1 r2 r3 r4] \<and> (at' = at \<or> at' = at\<lparr>packagep := None\<rparr>)
           \<and> m_deleteps s' = m_deleteps s"
  using assms unfolding kept_def by blast

lemma wf_node_eq:
  "wf_node (Node a at o1 o2 o3 o4) =
     (wf_attrs at
      \<and> (ntype at = AstVarRef \<longrightarrow> o1 = [] \<and> o2 = [] \<and> o3 = [] \<and> o4 = [])
      \<and> (ntype at = AstNodeAssign \<longrightarrow> length o2 \<le> 1 \<and> o3 = [] \<and> o4 = [])
      \<and> (ntype at = AstModule \<or> ntype at = AstPackage \<longrightarrow>
            nomod o1 \<and> nomod o2 \<and> nomod o3 \<and> nomod o4))"
  by (auto simp: wf_node_def wf_attrs_def kids_def castNodeModule_def nomod_def)

lemma wf_attrs_scrub [simp]: "wf_attrs (at\<lparr>packagep := None\<rparr>) = wf_attrs at"
  by (simp add: wf_attrs_def)

lemma wf_node_result:
  assumes "wf_node (Node a at o1 o2 o3 o4)" "at' = at \<or> at' = at\<lparr>packagep := None\<rparr>"
    and "length r1 \<le> length o1" "length r2 \<le> length o2"
        "length r3 \<le> length o3" "length r4 \<le> length o4"
    and "nomod o1 \<longrightarrow> nomod r1" "nomod o2 \<longrightarrow> nomod r2"
        "nomod o3 \<longrightarrow> nomod r3" "nomod o4 \<longrightarrow> nomod r4"
  shows "wf_node (Node a at' r1 r2 r3 r4)"
proof -
  have a: "wf_attrs at'" "ntype at' = ntype at" using assms(1,2) by (auto simp: wf_node_eq)
  from assms(1) have v: "ntype at = AstVarRef \<Longrightarrow> o1 = [] \<and> o2 = [] \<and> o3 = [] \<and> o4 = []"
    and g: "ntype at = AstNodeAssign \<Longrightarrow> length o2 \<le> 1 \<and> o3 = [] \<and> o4 = []"
    and m: "ntype at = AstModule \<or> ntype at = AstPackage \<Longrightarrow>
              nomod o1 \<and> nomod o2 \<and> nomod o3 \<and> nomod o4"
    by (simp_all add: wf_node_eq)
  have "ntype at = AstVarRef \<Longrightarrow> r1 = [] \<and> r2 = [] \<and> r3 = [] \<and> r4 = []"
    using v assms(3-6) by simp
  moreover have "ntype at = AstNodeAssign \<Longrightarrow> length r2 \<le> 1 \<and> r3 = [] \<and> r4 = []"
    using g assms(4-6) by simp
  moreover have "ntype at = AstModule \<or> ntype at = AstPackage \<Longrightarrow>
              nomod r1 \<and> nomod r2 \<and> nomod r3 \<and> nomod r4"
    using m assms(7-10) by blast
  ultimately show ?thesis unfolding wf_node_eq a(2) using a(1) by blast
qed

text \<open>What the traversal establishes, for a counter \<open>y\<close>.\<close>

definition counted :: "addr \<Rightarrow> node list \<Rightarrow> dv \<Rightarrow> node list \<Rightarrow> dv \<Rightarrow> bool" where
  "counted y ns s rs s' =
     (wf_forest ns \<longrightarrow>
        gain y ns s rs s' \<and> wf_forest rs \<and> length rs \<le> length ns \<and> (nomod ns \<longrightarrow> nomod rs)
        \<and> (wf_forest (pend s) \<longrightarrow> wf_forest (pend s')))"

lemma counted_nil: "counted y [] s [] s"
  by (simp add: counted_def gain_nil)

lemma counted_cons:
  assumes "counted y [n] s r s1" "counted y ns s1 rs s2"
  shows "counted y (n # ns) s (r @ rs) s2"
  unfolding counted_def
proof (intro impI)
  assume "wf_forest (n # ns)"
  then have w: "wf_forest [n]" "wf_forest ns" using wf_forest_Cons[of n ns] by auto
  from assms(1) w(1) have 1: "gain y [n] s r s1" "wf_forest r" "length r \<le> 1"
    "nomod [n] \<longrightarrow> nomod r" "wf_forest (pend s) \<longrightarrow> wf_forest (pend s1)"
    by (auto simp: counted_def)
  from assms(2) w(2) have 2: "gain y ns s1 rs s2" "wf_forest rs" "length rs \<le> length ns"
    "nomod ns \<longrightarrow> nomod rs" "wf_forest (pend s1) \<longrightarrow> wf_forest (pend s2)"
    by (auto simp: counted_def)
  show "gain y (n # ns) s (r @ rs) s2 \<and> wf_forest (r @ rs) \<and> length (r @ rs) \<le> length (n # ns)
       \<and> (nomod (n # ns) \<longrightarrow> nomod (r @ rs)) \<and> (wf_forest (pend s) \<longrightarrow> wf_forest (pend s2))"
    using gain_cons[OF 1(1) 2(1)] 1 2 nomod_Cons[of n ns]
    by (auto simp: wf_forest_simps nomod_simps)
qed

lemma counted_node:
  assumes k: "ntype at \<noteq> AstNodeAssign"
    and 1: "counted y o1 (visitPre a at s) r1 s1" and 2: "counted y o2 s1 r2 s2"
    and 3: "counted y o3 s2 r3 s3" and 4: "counted y o4 s3 r4 s4"
    and p: "visitPost f h a at r1 r2 r3 r4 s4 = Inr (r, s')"
  shows "counted y [Node a at o1 o2 o3 o4] s r s'"
  unfolding counted_def
proof (intro impI)
  assume "wf_forest [Node a at o1 o2 o3 o4]"
  then have wn: "wf_node (Node a at o1 o2 o3 o4)"
    and w: "wf_forest o1" "wf_forest o2" "wf_forest o3" "wf_forest o4"
    by (auto simp: wf_forest_simps)
  from 1 w(1) have c1: "gain y o1 (visitPre a at s) r1 s1" "wf_forest r1" "length r1 \<le> length o1"
    "nomod o1 \<longrightarrow> nomod r1" "wf_forest (pend s) \<longrightarrow> wf_forest (pend s1)"
    by (auto simp: counted_def)
  from 2 w(2) have c2: "gain y o2 s1 r2 s2" "wf_forest r2" "length r2 \<le> length o2"
    "nomod o2 \<longrightarrow> nomod r2" "wf_forest (pend s1) \<longrightarrow> wf_forest (pend s2)"
    by (auto simp: counted_def)
  from 3 w(3) have c3: "gain y o3 s2 r3 s3" "wf_forest r3" "length r3 \<le> length o3"
    "nomod o3 \<longrightarrow> nomod r3" "wf_forest (pend s2) \<longrightarrow> wf_forest (pend s3)"
    by (auto simp: counted_def)
  from 4 w(4) have c4: "gain y o4 s3 r4 s4" "wf_forest r4" "length r4 \<le> length o4"
    "nomod o4 \<longrightarrow> nomod r4" "wf_forest (pend s3) \<longrightarrow> wf_forest (pend s4)"
    by (auto simp: counted_def)
  have c: "gain y (o1 @ o2 @ o3 @ o4) (visitPre a at s) (r1 @ r2 @ r3 @ r4) s4"
    by (rule gain_append[OF c1(1) gain_append[OF c2(1) gain_append[OF c3(1) c4(1)]]])
  have wa: "wf_attrs at" by (rule wf_node_attrs[OF wn])
  note post = visitPost_count[OF p wa]
  have g: "gain y [Node a at o1 o2 o3 o4] s r s'" by (rule gain_node[OF c post k wn])
  have wp: "wf_forest (pend s) \<longrightarrow> wf_forest (pend s4)" using c1(5) c2(5) c3(5) c4(5) by blast
  from post have rest: "wf_forest r \<and> length r \<le> 1 \<and> (nomod [Node a at o1 o2 o3 o4] \<longrightarrow> nomod r)
      \<and> (wf_forest (pend s4) \<longrightarrow> wf_forest (pend s'))"
  proof
    assume "kept a at r1 r2 r3 r4 s4 r s'"
    from kept_shape[OF this] obtain at' where
      r: "r = [Node a at' r1 r2 r3 r4]" and a: "at' = at \<or> at' = at\<lparr>packagep := None\<rparr>"
      and m: "m_deleteps s' = m_deleteps s4" by blast
    have "wf_node (Node a at' r1 r2 r3 r4)"
      by (rule wf_node_result[OF wn a c1(3) c2(3) c3(3) c4(3) c1(4) c2(4) c3(4) c4(4)])
    moreover have "pend s' = pend s4" by (simp add: pend_def m)
    moreover have "ntype at' = ntype at" using a by auto
    ultimately have "wf_forest r" "nomod [Node a at o1 o2 o3 o4] \<longrightarrow> nomod r"
      "wf_forest (pend s4) \<longrightarrow> wf_forest (pend s')"
      using r c1(2,4) c2(2,4) c3(2,4) c4(2,4)
      by (simp_all add: wf_forest_simps nomod_simps)
    then show ?thesis using r by simp
  next
    assume "r = [] \<and> s' = pushDeletep (Node a at r1 r2 r3 r4) s4 \<and> \<not> pub at
                \<and> (ntype at = AstModport \<or> ntype at = AstTypedef)"
    then show ?thesis using c1(2) c2(2) c3(2) c4(2)
      by (simp add: wf_forest_simps nomod_simps kids_def)
  qed
  show "gain y [Node a at o1 o2 o3 o4] s r s' \<and> wf_forest r \<and> length r \<le> length [Node a at o1 o2 o3 o4]
       \<and> (nomod [Node a at o1 o2 o3 o4] \<longrightarrow> nomod r) \<and> (wf_forest (pend s) \<longrightarrow> wf_forest (pend s'))"
    using g rest wp by simp
qed


lemma refs_assign:
  "wf_attrs at \<Longrightarrow> ntype at = AstNodeAssign \<Longrightarrow> refs y a at = dpart y a at"
  by (auto simp: refs_def wf_attrs_def edge_def)

lemma user1_assignMap [simp]: "user1 (s\<lparr>m_assignMap := m\<rparr>) = user1 s"
  by simp

lemma wf_varref:
  assumes "wf_forest [l]" "ntype (attrs_of l) = AstVarRef"
  shows "l = Node (addr_of l) (attrs_of l) [] [] [] []"
  using assms by (cases l) (simp add: wf_forest_simps wf_node_eq)

lemma counted_recorded:
  assumes k: "ntype at = AstNodeAssign"
    and 1: "counted y o1 (s\<lparr>m_sideEffect := False\<rparr>) r1 s1"
    and l: "ntype (attrs_of l) = AstVarRef" and vs: "varScopep (attrs_of l) = Some vs"
  shows "counted y [Node a at o1 (l # ls) o3 o4] s [Node a at r1 (l # ls) o3 o4]
           (checkAll a at (checkAll (addr_of l) (attrs_of l)
              ((checkAll a at s1)\<lparr>m_assignMap := m_assignMap s1 @ [(vs, a)]\<rparr>)))"
    (is "counted y _ s _ ?s'")
  unfolding counted_def
proof (intro impI)
  assume wf: "wf_forest [Node a at o1 (l # ls) o3 o4]"
  then have wn: "wf_node (Node a at o1 (l # ls) o3 o4)" and w1: "wf_forest o1"
    and w2: "wf_forest (l # ls)"
    by (auto simp: wf_forest_simps)
  from wn k have e: "ls = []" "o3 = []" "o4 = []" and wa: "wf_attrs at"
    by (simp_all add: wf_node_eq)
  from w2 have wl: "wf_forest [l]" using wf_forest_Cons[of l ls] by simp
  obtain la lat where ll: "l = Node la lat [] [] [] []" and la: "la = addr_of l" "lat = attrs_of l"
    using wf_varref[OF wl l] by blast
  have rl: "recordable lat" using l vs la by (simp add: recordable_def)
  have npl: "\<not> pub lat" "ntype lat = AstVarRef" using l la by (simp_all add: pub_def)
  have np: "\<not> pub at" using k by (simp add: pub_def)
  from 1 w1 have c1: "gain y o1 (s\<lparr>m_sideEffect := False\<rparr>) r1 s1" "wf_forest r1"
    "length r1 \<le> length o1" "nomod o1 \<longrightarrow> nomod r1" "wf_forest (pend s) \<longrightarrow> wf_forest (pend s1)"
    by (auto simp: counted_def)
  have u: "user1 ?s' y = user1 s1 y + 2 * int (dpart y a at) + int (dpart y la lat)"
    by (simp add: user1_checkAll la)
  have m: "m_modp ?s' = m_modp s1" by simp
  have pe: "pend ?s' = pend s1" by simp
  have nd: "need_list y False [Node a at r1 (l # ls) o3 o4]
            = dpart y a at + need_list y False r1 + dpart y la lat"
    using k rl by (simp add: e ll refs_assign[OF wa k])
  have pn: "pinned y [Node a at o1 (l # ls) o3 o4] = pinned y o1"
    using k npl by (simp add: e ll pinned_simps pubs_simps)
  have pb: "pubs [Node a at o1 (l # ls) o3 o4] = pubs o1"
    using np npl by (simp add: e ll pubs_simps)
  have nm: "nomod [Node a at o1 (l # ls) o3 o4] = nomod o1"
    using k npl by (simp add: e ll nomod_simps)
  have nmr: "nomod [Node a at r1 (l # ls) o3 o4] = nomod r1"
    using k npl by (simp add: e ll nomod_simps)
  have g: "gain y [Node a at o1 (l # ls) o3 o4] s [Node a at r1 (l # ls) o3 o4] ?s'"
    unfolding gain_def nd pn pb nm u m pe using c1(1) by (auto simp: gain_def split: if_splits)
  have wr: "wf_forest [Node a at r1 (l # ls) o3 o4]"
    using wn c1(2,3) w2 k by (simp add: wf_forest_simps wf_node_eq e)
  show "gain y [Node a at o1 (l # ls) o3 o4] s [Node a at r1 (l # ls) o3 o4] ?s'
       \<and> wf_forest [Node a at r1 (l # ls) o3 o4]
       \<and> length [Node a at r1 (l # ls) o3 o4] \<le> length [Node a at o1 (l # ls) o3 o4]
       \<and> (nomod [Node a at o1 (l # ls) o3 o4] \<longrightarrow> nomod [Node a at r1 (l # ls) o3 o4])
       \<and> (wf_forest (pend s) \<longrightarrow> wf_forest (pend ?s'))"
    unfolding nm nmr pe using g wr c1(4,5) by simp
qed

lemma counted_tracked:
  assumes k: "ntype at = AstNodeAssign"
    and 1: "counted y o1 (s\<lparr>m_sideEffect := False\<rparr>) r1 s1"
    and 2: "counted y (l # ls) (checkAll a at s1) r2 s2"
  shows "counted y [Node a at o1 (l # ls) o3 o4] s [Node a at r1 r2 o3 o4] (checkAll a at s2)"
  unfolding counted_def
proof (intro impI)
  assume wf: "wf_forest [Node a at o1 (l # ls) o3 o4]"
  then have wn: "wf_node (Node a at o1 (l # ls) o3 o4)" and w1: "wf_forest o1"
    and w2: "wf_forest (l # ls)"
    by (auto simp: wf_forest_simps)
  from wn k have e: "ls = []" "o3 = []" "o4 = []" and wa: "wf_attrs at"
    by (simp_all add: wf_node_eq)
  have np: "\<not> pub at" using k by (simp add: pub_def)
  from 1 w1 have c1: "gain y o1 (s\<lparr>m_sideEffect := False\<rparr>) r1 s1" "wf_forest r1"
    "length r1 \<le> length o1" "nomod o1 \<longrightarrow> nomod r1" "wf_forest (pend s) \<longrightarrow> wf_forest (pend s1)"
    by (auto simp: counted_def)
  from 2 w2 have c2: "gain y (l # ls) (checkAll a at s1) r2 s2" "wf_forest r2"
    "length r2 \<le> length (l # ls)" "nomod (l # ls) \<longrightarrow> nomod r2"
    "wf_forest (pend s1) \<longrightarrow> wf_forest (pend s2)"
    by (auto simp: counted_def)
  have nd: "need_list y False [Node a at r1 r2 o3 o4]
            \<le> dpart y a at + need_list y False r1 + need_list y False r2"
    using k need_flag_le(2)[of y r2] by (simp add: e refs_assign[OF wa k])
  have pn: "pinned y [Node a at o1 (l # ls) o3 o4] = pinned y o1 + pinned y (l # ls)"
    using k by (simp add: e pinned_simps)
  have pb: "pubs [Node a at o1 (l # ls) o3 o4] = pubs o1 + pubs (l # ls)"
    using np by (simp add: e pubs_simps)
  have nm: "nomod [Node a at o1 (l # ls) o3 o4] = (nomod o1 \<and> nomod (l # ls))"
    using k by (simp add: e nomod_simps)
  have nmr: "nomod [Node a at r1 r2 o3 o4] = (nomod r1 \<and> nomod r2)"
    using k by (simp add: e nomod_simps)
  have g1: "user1 s y + int (need_list y False r1) + int (need_list y False (pend s1))
         + int (pinned y o1) + (if nomod o1 \<and> m_modp s = Some (y, True) then int (pubs o1) else 0)
       \<le> user1 s1 y + int (need_list y False (pend s))"
    and m1: "nomod o1 \<longrightarrow> m_modp s1 = m_modp s"
    using c1(1) by (simp_all add: gain_def)
  have g2: "user1 s1 y + int (dpart y a at) + int (need_list y False r2)
         + int (need_list y False (pend s2)) + int (pinned y (l # ls))
         + (if nomod (l # ls) \<and> m_modp s1 = Some (y, True) then int (pubs (l # ls)) else 0)
       \<le> user1 s2 y + int (need_list y False (pend s1))"
    and m2: "nomod (l # ls) \<longrightarrow> m_modp s2 = m_modp s1"
    using c2(1) by (simp_all add: gain_def user1_checkAll)
  have g: "gain y [Node a at o1 (l # ls) o3 o4] s [Node a at r1 r2 o3 o4] (checkAll a at s2)"
    unfolding gain_def pn pb nm using g1 g2 m1 m2 nd
    by (auto simp: user1_checkAll split: if_splits)
  have wr: "wf_forest [Node a at r1 r2 o3 o4]"
    using wn c1(2,3) c2(2,3) k by (simp add: wf_forest_simps wf_node_eq e)
  show "gain y [Node a at o1 (l # ls) o3 o4] s [Node a at r1 r2 o3 o4] (checkAll a at s2)
       \<and> wf_forest [Node a at r1 r2 o3 o4]
       \<and> length [Node a at r1 r2 o3 o4] \<le> length [Node a at o1 (l # ls) o3 o4]
       \<and> (nomod [Node a at o1 (l # ls) o3 o4] \<longrightarrow> nomod [Node a at r1 r2 o3 o4])
       \<and> (wf_forest (pend s) \<longrightarrow> wf_forest (pend (checkAll a at s2)))"
    unfolding nm nmr using g wr c1(4,5) c2(4,5) by simp
qed

text \<open>The traversal counts every counted edge, keeps the tree well-formed, and pins
  the packages.\<close>

lemma visit_counted:
  shows "visit f h n s = Inr (r, s') \<Longrightarrow> counted y [n] s r s'"
    and "iterateAndNext f h ns s = Inr (rs, s') \<Longrightarrow> counted y ns s rs s'"
proof -
  let ?R = "\<lambda>n s r s'. counted y [n] s r s'"
  let ?RL = "\<lambda>ns s rs s'. counted y ns s rs s'"
  have nil: "\<And>s. ?RL [] s [] s" by (rule counted_nil)
  have cons: "\<And>n ns s r s1 rs s2. ?R n s r s1 \<Longrightarrow> ?RL ns s1 rs s2 \<Longrightarrow> ?RL (n # ns) s (r @ rs) s2"
    by (rule counted_cons)
  have node: "\<And>a at o1 o2 o3 o4 s r1 s1 r2 s2 r3 s3 r4 s4 r s'.
       ntype at \<noteq> AstNodeAssign \<Longrightarrow> ?RL o1 (visitPre a at s) r1 s1 \<Longrightarrow> ?RL o2 s1 r2 s2 \<Longrightarrow>
       ?RL o3 s2 r3 s3 \<Longrightarrow> ?RL o4 s3 r4 s4 \<Longrightarrow> visitPost f h a at r1 r2 r3 r4 s4 = Inr (r, s') \<Longrightarrow>
       ?R (Node a at o1 o2 o3 o4) s r s'"
    by (rule counted_node)
  have recorded: "\<And>a at o1 l ls o3 o4 s r1 s1 vs.
       ntype at = AstNodeAssign \<Longrightarrow> o1 \<noteq> [] \<Longrightarrow> ?RL o1 (s\<lparr>m_sideEffect := False\<rparr>) r1 s1 \<Longrightarrow>
       ntype (attrs_of l) = AstVarRef \<Longrightarrow> \<not> m_sideEffect s1 \<Longrightarrow> varScopep (attrs_of l) = Some vs \<Longrightarrow>
       ?R (Node a at o1 (l # ls) o3 o4) s [Node a at r1 (l # ls) o3 o4]
         (checkAll a at (checkAll (addr_of l) (attrs_of l)
            ((checkAll a at s1)\<lparr>m_assignMap := m_assignMap s1 @ [(vs, a)]\<rparr>)))"
    by (rule counted_recorded)
  have tracked: "\<And>a at o1 l ls o3 o4 s r1 s1 r2 s2.
       ntype at = AstNodeAssign \<Longrightarrow> o1 \<noteq> [] \<Longrightarrow> ?RL o1 (s\<lparr>m_sideEffect := False\<rparr>) r1 s1 \<Longrightarrow>
       \<not> (ntype (attrs_of l) = AstVarRef \<and> \<not> m_sideEffect s1 \<and> varScopep (attrs_of l) \<noteq> None) \<Longrightarrow>
       ?RL (l # ls) (checkAll a at s1) r2 s2 \<Longrightarrow>
       ?R (Node a at o1 (l # ls) o3 o4) s [Node a at r1 r2 o3 o4] (checkAll a at s2)"
    by (rule counted_tracked)
  show "visit f h n s = Inr (r, s') \<Longrightarrow> counted y [n] s r s'"
    by (rule visit_rule_node[where R = ?R and RL = ?RL, OF nil cons node recorded tracked])
  show "iterateAndNext f h ns s = Inr (rs, s') \<Longrightarrow> counted y ns s rs s'"
    by (rule visit_rule_list[where R = ?R and RL = ?RL, OF nil cons node recorded tracked])
qed


section \<open>Unlinking takes counted edges away\<close>

text \<open>The edges to \<open>y\<close> that the sweeps decrement when they unlink a node.\<close>

definition decp :: "addr \<Rightarrow> attrs \<Rightarrow> nat" where
  "decp y at = edge (dtypep at) y + edge (scopep at) y + edge (aboveScopep at) y + edge (modp at) y"

lemma need_del_le:
  "need y lhs (del_node a n) \<le> need y lhs n"
  "need_list y lhs (del_list a ns) \<le> need_list y lhs ns"
proof (induction a n and a ns arbitrary: lhs and lhs rule: del_node_del_list.induct)
  case (1 a b at o1 o2 o3 o4)
  show ?case
    using "1.IH"(1)[of False] "1.IH"(2)[of "ntype at = AstNodeAssign"] "1.IH"(3)[of False]
      "1.IH"(4)[of False]
    by simp
next
  case (2 a)
  show ?case by simp
next
  case (3 a n ns)
  show ?case
  proof (cases "addr_of n = a")
    case True
    have "need_list y lhs (del_list a ns) \<le> need_list y False (del_list a ns)"
      using need_flag_le(2)[of y "del_list a ns"] by (cases lhs) simp_all
    also have "\<dots> \<le> need_list y False ns" using "3.IH"(1)[OF True, of False] .
    finally show ?thesis using True by simp
  next
    case False
    show ?thesis using "3.IH"(2)[OF False, of lhs] "3.IH"(3)[OF False, of False] False by simp
  qed
qed

lemma decp_le_need:
  "x \<in> set (nodes n) \<Longrightarrow> wf_forest [n] \<Longrightarrow> y \<noteq> addr_of x \<Longrightarrow> decp y (attrs_of x) \<le> need y lhs n"
  "x \<in> set (nodes_list ns) \<Longrightarrow> wf_forest ns \<Longrightarrow> y \<noteq> addr_of x \<Longrightarrow>
     decp y (attrs_of x) \<le> need_list y lhs ns"
proof (induction n and ns arbitrary: lhs and lhs rule: nodes_nodes_list.induct)
  case (1 a at o1 o2 o3 o4)
  from "1.prems"(2) have wn: "wf_node (Node a at o1 o2 o3 o4)"
    and w: "wf_forest o1" "wf_forest o2" "wf_forest o3" "wf_forest o4"
    by (auto simp: wf_forest_simps)
  from "1.prems"(1) consider "x = Node a at o1 o2 o3 o4"
    | "x \<in> set (nodes_list o1)" | "x \<in> set (nodes_list o2)"
    | "x \<in> set (nodes_list o3)" | "x \<in> set (nodes_list o4)"
    by auto
  then show ?case
  proof cases
    case 1
    have wa: "wf_attrs at" by (rule wf_node_attrs[OF wn])
    have "decp y at \<le> dpart y a at" if "recordable at"
      using that wa "1.prems"(3) 1
      by (auto simp: decp_def dpart_def recordable_def wf_attrs_def edge_def)
    moreover have "decp y at \<le> refs y a at"
      using "1.prems"(3) 1 by (auto simp: decp_def refs_def dpart_def edge_def)
    ultimately show ?thesis using 1 by simp
  next
    case 2
    then have "o1 \<noteq> []" by auto
    then have nr: "\<not> recordable at" using wn by (auto simp: wf_node_eq recordable_def)
    show ?thesis using "1.IH"(1)[OF 2 w(1) "1.prems"(3), of False] nr by simp
  next
    case 3
    then have "o2 \<noteq> []" by auto
    then have nr: "\<not> recordable at" using wn by (auto simp: wf_node_eq recordable_def)
    show ?thesis using "1.IH"(2)[OF 3 w(2) "1.prems"(3), of "ntype at = AstNodeAssign"] nr by simp
  next
    case 4
    then have "o3 \<noteq> []" by auto
    then have nr: "\<not> recordable at" using wn by (auto simp: wf_node_eq recordable_def)
    show ?thesis using "1.IH"(3)[OF 4 w(3) "1.prems"(3), of False] nr by simp
  next
    case 5
    then have "o4 \<noteq> []" by auto
    then have nr: "\<not> recordable at" using wn by (auto simp: wf_node_eq recordable_def)
    show ?thesis using "1.IH"(4)[OF 5 w(4) "1.prems"(3), of False] nr by simp
  qed
next
  case 2
  then show ?case by simp
next
  case (3 n ns)
  from "3.prems"(2) have w: "wf_forest [n]" "wf_forest ns" using wf_forest_Cons[of n ns] by auto
  from "3.prems"(1) consider "x \<in> set (nodes n)" | "x \<in> set (nodes_list ns)" by auto
  then show ?case
  proof cases
    case 1
    show ?thesis using "3.IH"(1)[OF 1 w(1) "3.prems"(3), of lhs] by simp
  next
    case 2
    show ?thesis using "3.IH"(2)[OF 2 w(2) "3.prems"(3), of False] by simp
  qed
qed

lemma need_del_dec:
  "x \<in> set (nodes n) \<Longrightarrow> addr_of x = a \<Longrightarrow> addr_of n \<noteq> a \<Longrightarrow> wf_forest [n] \<Longrightarrow> y \<noteq> a \<Longrightarrow>
     need y lhs (del_node a n) + decp y (attrs_of x) \<le> need y lhs n"
  "x \<in> set (nodes_list ns) \<Longrightarrow> addr_of x = a \<Longrightarrow> wf_forest ns \<Longrightarrow> y \<noteq> a \<Longrightarrow>
     need_list y lhs (del_list a ns) + decp y (attrs_of x) \<le> need_list y lhs ns"
proof (induction a n and a ns arbitrary: lhs and lhs rule: del_node_del_list.induct)
  case (1 a b at o1 o2 o3 o4)
  from "1.prems"(4) have wn: "wf_node (Node b at o1 o2 o3 o4)"
    and w: "wf_forest o1" "wf_forest o2" "wf_forest o3" "wf_forest o4"
    by (auto simp: wf_forest_simps)
  note m1 = need_del_le(2)[of y False a o1]
  note m2 = need_del_le(2)[of y "ntype at = AstNodeAssign" a o2]
  note m3 = need_del_le(2)[of y False a o3]
  note m4 = need_del_le(2)[of y False a o4]
  from "1.prems"(1,2,3) consider
      "x \<in> set (nodes_list o1)" | "x \<in> set (nodes_list o2)"
    | "x \<in> set (nodes_list o3)" | "x \<in> set (nodes_list o4)"
    by auto
  then show ?case
  proof cases
    case 1
    then have "o1 \<noteq> []" by auto
    then have nr: "\<not> recordable at" using wn by (auto simp: wf_node_eq recordable_def)
    show ?thesis
      using "1.IH"(1)[OF 1 "1.prems"(2) w(1) "1.prems"(5), of False] m2 m3 m4 nr by simp
  next
    case 2
    then have "o2 \<noteq> []" by auto
    then have nr: "\<not> recordable at" using wn by (auto simp: wf_node_eq recordable_def)
    show ?thesis
      using "1.IH"(2)[OF 2 "1.prems"(2) w(2) "1.prems"(5), of "ntype at = AstNodeAssign"]
        m1 m3 m4 nr by simp
  next
    case 3
    then have "o3 \<noteq> []" by auto
    then have nr: "\<not> recordable at" using wn by (auto simp: wf_node_eq recordable_def)
    show ?thesis
      using "1.IH"(3)[OF 3 "1.prems"(2) w(3) "1.prems"(5), of False] m1 m2 m4 nr by simp
  next
    case 4
    then have "o4 \<noteq> []" by auto
    then have nr: "\<not> recordable at" using wn by (auto simp: wf_node_eq recordable_def)
    show ?thesis
      using "1.IH"(4)[OF 4 "1.prems"(2) w(4) "1.prems"(5), of False] m1 m2 m3 nr by simp
  qed
next
  case (2 a)
  then show ?case by simp
next
  case (3 a n ns)
  from "3.prems"(3) have w: "wf_forest [n]" "wf_forest ns" using wf_forest_Cons[of n ns] by auto
  have fl: "need_list y lhs (del_list a ns) \<le> need_list y False (del_list a ns)"
    using need_flag_le(2)[of y "del_list a ns"] by (cases lhs) simp_all
  show ?case
  proof (cases "addr_of n = a")
    case True
    from "3.prems"(1) consider "x \<in> set (nodes n)" | "x \<in> set (nodes_list ns)" by auto
    then show ?thesis
    proof cases
      case 1
      have "decp y (attrs_of x) \<le> need y lhs n"
        using decp_le_need(1)[OF 1 w(1)] "3.prems"(2,4) by simp
      moreover have "need_list y False (del_list a ns) \<le> need_list y False ns"
        by (rule need_del_le(2))
      ultimately show ?thesis using True fl by simp
    next
      case 2
      show ?thesis
        using "3.IH"(1)[OF True 2 "3.prems"(2) w(2) "3.prems"(4), of False] True fl by simp
    qed
  next
    case False
    from "3.prems"(1) consider "x \<in> set (nodes n)" | "x \<in> set (nodes_list ns)" by auto
    then show ?thesis
    proof cases
      case 1
      show ?thesis
        using "3.IH"(2)[OF False 1 "3.prems"(2) False w(1) "3.prems"(4), of lhs]
          need_del_le(2)[of y False a ns] False by simp
    next
      case 2
      show ?thesis
        using "3.IH"(3)[OF False 2 "3.prems"(2) w(2) "3.prems"(4), of False]
          need_del_le(1)[of y lhs a n] False by simp
    qed
  qed
qed

lemma wf_del:
  "wf_forest [n] \<Longrightarrow> wf_forest [del_node a n]"
  "wf_forest ns \<Longrightarrow> wf_forest (del_list a ns)"
proof (induction a n and a ns rule: del_node_del_list.induct)
  case (1 a b at o1 o2 o3 o4)
  from "1.prems" have wn: "wf_node (Node b at o1 o2 o3 o4)"
    and w: "wf_forest o1" "wf_forest o2" "wf_forest o3" "wf_forest o4"
    by (auto simp: wf_forest_simps)
  have len: "length (del_list a o2) \<le> length o2" by (induction o2) auto
  have nm: "nomod (del_list a xs)" if "nomod xs" for xs
  proof -
    have "\<forall>x \<in> set (nodes_list (del_list a xs)). \<not> castNodeModule x"
    proof
      fix x assume "x \<in> set (nodes_list (del_list a xs))"
      from del_nodes_pruned(2)[OF this] obtain z where
        "z \<in> set (nodes_list xs)" "pruned x z" by blast
      then show "\<not> castNodeModule x" using that
        by (auto simp: nomod_def list_all_iff pruned_def castNodeModule_def)
    qed
    then show ?thesis by (simp add: nomod_def list_all_iff)
  qed
  have e: "del_list a xs = []" if "xs = []" for xs using that by simp
  have "wf_node (Node b at (del_list a o1) (del_list a o2) (del_list a o3) (del_list a o4))"
    using wn len nm[of o1] nm[of o2] nm[of o3] nm[of o4] unfolding wf_node_eq
    by (auto simp: e)
  then show ?case using "1.IH" w by (simp add: wf_forest_simps)
next
  case (2 a)
  then show ?case by simp
next
  case (3 a n ns)
  from "3.prems" have w: "wf_forest [n]" "wf_forest ns" using wf_forest_Cons[of n ns] by auto
  show ?case
  proof (cases "addr_of n = a")
    case True
    then show ?thesis using "3.IH"(1) w by simp
  next
    case False
    then show ?thesis
      using "3.IH"(2,3) w wf_forest_Cons[of "del_node a n" "del_list a ns"] by simp
  qed
qed


section \<open>The counters bound the counted edges, through every sweep\<close>

text \<open>The nodes a sweep can reach: the netlist and what hangs below the queued
  subtrees.\<close>

definition forest :: "dv \<Rightarrow> node list" where
  "forest s = rootp s # pend s"

text \<open>The sites that unlink a node after a test of its counter.\<close>

definition tested :: "site \<Rightarrow> bool" where
  "tested st = (st \<noteq> InVisit \<and> st \<noteq> DeadAssign)"

text \<open>The addresses of the roots that a trace unlinked.\<close>

definition droots :: "(site \<times> node \<times> (addr \<Rightarrow> int)) list \<Rightarrow> addr set" where
  "droots D = set (map (\<lambda>e. addr_of (fst (snd e))) D)"

lemma droots_simps [simp]:
  "droots [] = {}" "droots (D @ E) = droots D \<union> droots E"
  "droots ((st, n, u) # D) = insert (addr_of n) (droots D)"
  by (auto simp: droots_def)

text \<open>The invariant. \<open>K y\<close> is the number of pins on \<open>y\<close>. The counter of a node
  of the forest, and of any address that was not unlinked as a root, is at least the
  number of counted edges to it plus its pins; a node unlinked after a test of its
  counter has no pin and no counted edge to it is left.\<close>

definition sound ::
  "(addr \<Rightarrow> nat) \<Rightarrow> node list \<Rightarrow> (addr \<Rightarrow> int) \<Rightarrow> (site \<times> node \<times> (addr \<Rightarrow> int)) list \<Rightarrow> bool" where
  "sound K F u D =
     (wf_forest F
      \<and> (\<forall>y. y \<in> set (addrs_list F) \<or> y \<notin> droots D \<longrightarrow>
            int (need_list y False F) + int (K y) \<le> u y)
      \<and> (\<forall>e \<in> set D. tested (fst e) \<longrightarrow>
            need_list (addr_of (fst (snd e))) False F = 0 \<and> K (addr_of (fst (snd e))) = 0))"

definition ok :: "(addr \<Rightarrow> nat) \<Rightarrow> dv \<Rightarrow> bool" where
  "ok K s = sound K (forest s) (user1 s) (deaths s)"

lemma del_gone:
  "addr_of n \<noteq> a \<Longrightarrow> a \<notin> set (addrs (del_node a n))"
  "a \<notin> set (addrs_list (del_list a ns))"
  by (induction a n and a ns rule: del_node_del_list.induct) auto

lemma sound_del:
  assumes so: "sound K F u D" and x: "x \<in> set (nodes_list F)" "addr_of x = a"
    and d: "\<And>y. y \<noteq> a \<Longrightarrow> u y \<le> u' y + int (decp y (attrs_of x))"
    and t: "tested st \<Longrightarrow> u a \<le> 0"
  shows "sound K (del_list a F) u' (D @ [(st, x, v)])"
proof -
  from so have wf: "wf_forest F"
    and c: "\<And>y. y \<in> set (addrs_list F) \<or> y \<notin> droots D \<Longrightarrow>
              int (need_list y False F) + int (K y) \<le> u y"
    and z: "\<And>e. e \<in> set D \<Longrightarrow> tested (fst e) \<Longrightarrow>
              need_list (addr_of (fst (snd e))) False F = 0 \<and> K (addr_of (fst (snd e))) = 0"
    by (auto simp: sound_def)
  have aF: "a \<in> set (addrs_list F)" using x by (auto simp: addrs_list_def)
  have 1: "wf_forest (del_list a F)" by (rule wf_del(2)[OF wf])
  have 2: "int (need_list y False (del_list a F)) + int (K y) \<le> u' y"
    if "y \<in> set (addrs_list (del_list a F)) \<or> y \<notin> droots (D @ [(st, x, v)])" for y
  proof -
    from that have ya: "y \<noteq> a" using del_gone(2)[of a F] x(2) by auto
    from that have "y \<in> set (addrs_list F) \<or> y \<notin> droots D"
      using del_addrs_subset(2)[of a F] by auto
    from c[OF this] d[OF ya] need_del_dec(2)[OF x wf ya, of False] show ?thesis by linarith
  qed
  have m: "need_list y False (del_list a F) \<le> need_list y False F" for y
    by (rule need_del_le(2))
  have 3: "need_list (addr_of (fst (snd e))) False (del_list a F) = 0 \<and> K (addr_of (fst (snd e))) = 0"
    if "e \<in> set (D @ [(st, x, v)])" "tested (fst e)" for e
  proof (cases "e \<in> set D")
    case True
    from z[OF True that(2)] m[of "addr_of (fst (snd e))"] show ?thesis by simp
  next
    case False
    with that have e: "e = (st, x, v)" "tested st" by auto
    from aF have "int (need_list a False F) + int (K a) \<le> u a" by (intro c) simp
    with t[OF e(2)] have "need_list a False F = 0" "K a = 0" by auto
    with m[of a] show ?thesis using e x(2) by simp
  qed
  show ?thesis unfolding sound_def using 1 2 3 by blast
qed

lemma del_list_append: "del_list a (xs @ ys) = del_list a xs @ del_list a ys"
  by (induction xs) auto

lemma del_list_concat: "del_list a (concat xss) = concat (map (del_list a) xss)"
  by (induction xss) (auto simp: del_list_append)

lemma kids_del: "kids (del_node a m) = del_list a (kids m)"
  by (cases m) (simp add: kids_def del_list_append)

lemma nodes_kids: "nodes m = m # nodes_list (kids m)"
  by (cases m) (simp add: kids_def)

lemma nodes_list_roots:
  "set (nodes_list ms) = set ms \<union> set (nodes_list (concat (map kids ms)))"
  by (induction ms) (auto simp: nodes_kids)

text \<open>One \<open>unlinkFrBack()->deleteTree()\<close> of a sweep, after the decrements \<open>s1\<close>
  of edges of the unlinked node.\<close>

lemma ok_unlink:
  assumes so: "ok K s" and n: "deref (heap s) a = Some n"
    and h: "rootp s1 = rootp s" "m_deleteps s1 = m_deleteps s" "deaths s1 = deaths s"
    and d: "\<And>y. y \<noteq> a \<Longrightarrow> user1 s y \<le> user1 s1 y + int (decp y (attrs_of n))"
    and t: "tested st \<Longrightarrow> user1 s a \<le> 0"
    and u: "unlinkDelete st v a s1 = Inr s2"
  shows "ok K s2"
proof -
  have hp: "heap s1 = heap s" by (simp add: heap_def h)
  from u n hp have na: "a \<notin> set (map addr_of (heap s))"
    and s2: "rootp s2 = del_node a (rootp s)" "m_deleteps s2 = map (del_node a) (m_deleteps s)"
      "deaths s2 = deaths s @ [(st, n, v)]" "user1 s2 = user1 s1"
    by (auto simp: unlinkDelete_def h split: option.splits if_splits)
  have f2: "forest s2 = del_list a (forest s)"
    using na by (simp add: forest_def pend_def s2 heap_def del_list_concat kids_del comp_def)
  have an: "addr_of n = a" by (rule deref_addr[OF n])
  from deref_in[OF n] have "n \<in> set (nodes (rootp s)) \<or> n \<in> set (nodes_list (m_deleteps s))"
    by (auto simp: heap_def)
  then have nf: "n \<in> set (nodes_list (forest s))"
    using na an nodes_list_roots[of "m_deleteps s"] by (auto simp: forest_def pend_def heap_def)
  from sound_del[OF so[unfolded ok_def] nf an, of "user1 s1" st v] d t
  show ?thesis unfolding ok_def f2 s2 by simp
qed


lemma user1_dec:
  "user1 (user1Inc d (- 1) s) y = user1 s y - int (edge (Some d) y)"
  "user1 (decOpt p s) y = user1 s y - int (edge p y)"
  by (simp_all add: user1Inc_eq decOpt_eq edge_hit)

lemma frame_dec [simp]:
  "rootp (user1Inc d k s) = rootp s" "rootp (decOpt p s) = rootp s"
  "m_deleteps (decOpt p s) = m_deleteps s"
  by (simp_all add: user1Inc_eq decOpt_eq)

lemma decp_ge:
  "edge (dtypep at) y \<le> decp y at" "edge (scopep at) y \<le> decp y at"
  "edge (aboveScopep at) y \<le> decp y at" "edge (modp at) y \<le> decp y at"
  "edge (dtypep at) y + edge (scopep at) y \<le> decp y at"
  "edge (dtypep at) y + edge (aboveScopep at) y \<le> decp y at"
  by (simp_all add: decp_def)

lemma not_tested [simp]: "\<not> tested DeadAssign" "\<not> tested InVisit"
  by (simp_all add: tested_def)

lemma deadAssigns_ok:
  "deadAssigns as s = Inr s' \<Longrightarrow> ok K s \<Longrightarrow> ok K s' \<and> (\<forall>y. user1 s' y \<le> user1 s y)"
proof (induction as arbitrary: s)
  case Nil
  then show ?case by simp
next
  case (Cons assp rest)
  from Cons.prems obtain an d s2 where
    an: "deref (heap s) assp = Some an" and d: "dtypep (attrs_of an) = Some d"
    and u: "unlinkDelete DeadAssign (user1 s) assp (user1Inc d (- 1) s) = Inr s2"
    and r: "deadAssigns rest s2 = Inr s'"
    by (auto split: option.splits sum.splits)
  have dd: "user1 s y \<le> user1 (user1Inc d (- 1) s) y + int (decp y (attrs_of an))" for y
    using decp_ge(1)[of "attrs_of an" y] d by (simp add: user1_dec)
  have k2: "ok K s2"
    by (rule ok_unlink[OF Cons.prems(2) an _ _ _ dd _ u]) simp_all
  have "user1 s2 y \<le> user1 s y" for y
    using unlinkDelete_user1[OF u] by (simp add: user1_dec)
  with Cons.IH[OF r k2] show ?case by (meson order_trans)
qed

lemma deadVarScope_ok:
  assumes "deadVarScope vscp s = Inr s'" "ok K s" "user1 s vscp = 0"
  shows "ok K s'"
proof -
  from assms(1) obtain s1 vn d where
    a: "deadAssigns (equal_range (m_assignMap s) vscp) s = Inr s1"
    and vn: "deref (heap s1) vscp = Some vn" and d: "dtypep (attrs_of vn) = Some d"
    and u: "unlinkDelete DeadVarScope (user1 s) vscp
              (user1Inc d (- 1) (decOpt (scopep (attrs_of vn)) s1)) = Inr s'"
    by (auto simp: deadVarScope_def split: sum.splits option.splits)
  from deadAssigns_ok[OF a assms(2)] have k1: "ok K s1" and le: "user1 s1 vscp \<le> 0"
    using assms(3) by (auto dest: spec[of _ vscp])
  let ?s2 = "user1Inc d (- 1) (decOpt (scopep (attrs_of vn)) s1)"
  have dd: "user1 s1 y \<le> user1 ?s2 y + int (decp y (attrs_of vn))" for y
    using decp_ge(5)[of "attrs_of vn" y] d by (simp add: user1_dec)
  show ?thesis
    by (rule ok_unlink[OF k1 vn _ _ _ dd le u]) simp_all
qed

lemma deadVarScopes_ok:
  "deadVarScopes vs s = Inr s' \<Longrightarrow> ok K s \<Longrightarrow> ok K s'"
proof (induction vs arbitrary: s)
  case Nil
  then show ?case by simp
next
  case (Cons v vs)
  show ?case
  proof (cases "user1 s v = 0")
    case True
    with Cons.prems obtain s1 where k: "deadVarScope v s = Inr s1" and r: "deadVarScopes vs s1 = Inr s'"
      by (auto split: sum.splits)
    from Cons.IH[OF r deadVarScope_ok[OF k Cons.prems(2) True]] show ?thesis .
  next
    case False
    with Cons show ?thesis by simp
  qed
qed

lemma deadVar_ok:
  assumes "deadVar vp s = Inr s'" "ok K s" "user1 s vp = 0"
  shows "ok K s'"
proof -
  from assms(1) obtain vn where vn: "deref (heap s) vp = Some vn"
    and u: "unlinkDelete DeadVar (user1 s) vp (decOpt (dtypep (attrs_of vn)) s) = Inr s'"
    by (auto simp: deadVar_def split: option.splits)
  have dd: "user1 s y \<le> user1 (decOpt (dtypep (attrs_of vn)) s) y + int (decp y (attrs_of vn))" for y
    using decp_ge(1)[of "attrs_of vn" y] by (simp add: user1_dec)
  have le: "user1 s vp \<le> 0" using assms(3) by simp
  show ?thesis
    by (rule ok_unlink[OF assms(2) vn _ _ _ dd le u]) simp_all
qed

lemma deadScope_ok:
  assumes "deadScope scp s = Inr s'" "ok K s" "user1 s scp = 0"
  shows "ok K s'"
proof -
  from assms(1) obtain sn ab where sn: "deref (heap s) scp = Some sn"
    and ab: "aboveScopep (attrs_of sn) = Some ab"
    and u: "unlinkDelete DeadScope (user1 s) scp
              (decOpt (dtypep (attrs_of sn)) (user1Inc ab (- 1) s)) = Inr s'"
    by (auto simp: deadScope_def split: option.splits)
  let ?s2 = "decOpt (dtypep (attrs_of sn)) (user1Inc ab (- 1) s)"
  have dd: "user1 s y \<le> user1 ?s2 y + int (decp y (attrs_of sn))" for y
    using decp_ge(6)[of "attrs_of sn" y] ab by (simp add: user1_dec)
  have le: "user1 s scp \<le> 0" using assms(3) by simp
  show ?thesis
    by (rule ok_unlink[OF assms(2) sn _ _ _ dd le u]) simp_all
qed

lemma sweepPass_ok:
  assumes kill: "\<And>p s s1. kill p s = Inr s1 \<Longrightarrow> ok K s \<Longrightarrow> user1 s p = 0 \<Longrightarrow> ok K s1"
  shows "sweepPass kill slots s = Inr (slots', s', retry) \<Longrightarrow> ok K s \<Longrightarrow> ok K s'"
proof (induction slots arbitrary: s slots' retry)
  case Nil
  then show ?case by simp
next
  case (Cons x rest)
  show ?case
  proof (cases x)
    case None
    with Cons.prems obtain rest' where "sweepPass kill rest s = Inr (rest', s', retry)"
      by (auto split: sum.splits)
    from Cons.IH[OF this Cons.prems(2)] show ?thesis .
  next
    case (Some p)
    show ?thesis
    proof (cases "user1 s p = 0")
      case True
      with Cons.prems Some obtain s1 rest' r where
        k: "kill p s = Inr s1" and "sweepPass kill rest s1 = Inr (rest', s', r)"
        by (auto split: sum.splits)
      with kill[OF k Cons.prems(2) True] Cons.IH[of s1 rest' r] show ?thesis by blast
    next
      case False
      with Cons.prems Some obtain rest' where "sweepPass kill rest s = Inr (rest', s', retry)"
        by (auto split: sum.splits)
      from Cons.IH[OF this Cons.prems(2)] show ?thesis .
    qed
  qed
qed

lemma sweepLoop_ok:
  assumes kill: "\<And>p s s1. kill p s = Inr s1 \<Longrightarrow> ok K s \<Longrightarrow> user1 s p = 0 \<Longrightarrow> ok K s1"
    and run: "sweepLoop kill slots s = Some (Inr (slots', s'))"
  shows "ok K s \<longrightarrow> ok K s'"
proof (rule sweepLoop_rule[OF run, where P = "\<lambda>slots s. ok K s \<longrightarrow> ok K s'"])
  show "ok K s' \<longrightarrow> ok K s'" by simp
next
  fix slots s slots1 s1
  assume "sweepPass kill slots s = Inr (slots1, s1, True)" and "ok K s1 \<longrightarrow> ok K s'"
  then show "ok K s \<longrightarrow> ok K s'"
    using sweepPass_ok[of kill K slots s slots1 s1 True] kill by blast
qed

lemma deadDTypes_ok:
  "deadDTypes ds s = Inr s' \<Longrightarrow> ok K s \<Longrightarrow> ok K s'"
proof (induction ds arbitrary: s)
  case Nil
  then show ?case by simp
next
  case (Cons d ds)
  show ?case
  proof (cases "\<exists>s1 dn. unlinkDelete DeadDType (user1 s) d s = Inr s1 \<and> deadDTypes ds s1 = Inr s'
                  \<and> user1 s d = 0 \<and> deref (heap s) d = Some dn")
    case True
    then obtain s1 dn where u: "unlinkDelete DeadDType (user1 s) d s = Inr s1"
      and r: "deadDTypes ds s1 = Inr s'" and z: "user1 s d = 0"
      and dn: "deref (heap s) d = Some dn"
      by blast
    have le: "user1 s d \<le> 0" using z by simp
    have "ok K s1"
      by (rule ok_unlink[OF Cons.prems(2) dn _ _ _ _ le u]) simp_all
    from Cons.IH[OF r this] show ?thesis .
  next
    case False
    then have "deadDTypes ds s = Inr s'"
      using Cons.prems(1) by (auto split: if_splits option.splits sum.splits)
    from Cons.IH[OF this Cons.prems(2)] show ?thesis .
  qed
qed

lemma deadCells_ok:
  "deadCells cs s = Inr s' \<Longrightarrow> ok K s \<Longrightarrow> ok K s'"
proof (induction cs arbitrary: s)
  case Nil
  then show ?case by simp
next
  case (Cons c cs)
  show ?case
  proof (cases "\<exists>cn m s1. deref (heap s) c = Some cn \<and> modp (attrs_of cn) = Some m
                  \<and> unlinkDelete DeadCell (user1 s) c (user1Inc m (- 1) s) = Inr s1
                  \<and> deadCells cs s1 = Inr s' \<and> user1 s c = 0")
    case True
    then obtain cn m s1 where cn: "deref (heap s) c = Some cn" and m: "modp (attrs_of cn) = Some m"
      and u: "unlinkDelete DeadCell (user1 s) c (user1Inc m (- 1) s) = Inr s1"
      and r: "deadCells cs s1 = Inr s'" and z: "user1 s c = 0"
      by blast
    have dd: "user1 s y \<le> user1 (user1Inc m (- 1) s) y + int (decp y (attrs_of cn))" for y
      using decp_ge(4)[of "attrs_of cn" y] m by (simp add: user1_dec)
    have le: "user1 s c \<le> 0" using z by simp
    have "ok K s1"
      by (rule ok_unlink[OF Cons.prems(2) cn _ _ _ dd le u]) simp_all
    from Cons.IH[OF r this] show ?thesis .
  next
    case False
    then have "deadCells cs s = Inr s'"
      using Cons.prems(1) by (auto split: if_splits option.splits sum.splits)
    from Cons.IH[OF this Cons.prems(2)] show ?thesis .
  qed
qed

lemma ok_frame:
  "rootp s' = rootp s \<Longrightarrow> m_deleteps s' = m_deleteps s \<Longrightarrow> user1 s' = user1 s \<Longrightarrow>
     deaths s' = deaths s \<Longrightarrow> ok K s' = ok K s"
  by (simp add: ok_def forest_def pend_def)

lemma deadCheckVar_ok:
  assumes "deadCheckVar s = Some (Inr s')" "ok K s"
  shows "ok K s'"
proof -
  from assms(1) obtain s1 slots s2 where
    a: "deadVarScopes (m_vscsp s) s = Inr s1"
    and b: "sweepLoop deadVar (m_varsp s1) s1 = Some (Inr (slots, s2))"
    and c: "deadDTypes (m_dtypesp s2) (s2\<lparr>m_varsp := slots\<rparr>) = Inr s'"
    by (auto simp: deadCheckVar_def split: option.splits sum.splits)
  have 1: "ok K s1" by (rule deadVarScopes_ok[OF a assms(2)])
  from sweepLoop_ok[OF _ b, of K] deadVar_ok 1 have 2: "ok K s2" by blast
  have 3: "ok K (s2\<lparr>m_varsp := slots\<rparr>)" using 2 ok_frame[of "s2\<lparr>m_varsp := slots\<rparr>" s2 K] by simp
  show ?thesis by (rule deadDTypes_ok[OF c 3])
qed

lemma deadCheckScope_ok:
  assumes "deadCheckScope s = Some (Inr s')" "ok K s"
  shows "ok K s'"
proof -
  from assms(1) obtain slots s1 where
    b: "sweepLoop deadScope (m_scopesp s) s = Some (Inr (slots, s1))"
    and s': "s' = s1\<lparr>m_scopesp := slots\<rparr>"
    by (auto simp: deadCheckScope_def split: option.splits sum.splits)
  from sweepLoop_ok[OF _ b, of K] deadScope_ok assms(2) have 2: "ok K s1" by blast
  show ?thesis unfolding s' using 2 ok_frame[of "s1\<lparr>m_scopesp := slots\<rparr>" s1 K] by simp
qed


subsection \<open>The module sweep\<close>

lemma DeadModVisitor_dec:
  "DeadModVisitor n s = Inr s' \<Longrightarrow>
     user1 s y \<le> user1 s' y + int (need y lhs n) \<and> rootp s' = rootp s \<and> m_deleteps s' = m_deleteps s"
  "DeadModVisitor_list ns s = Inr s' \<Longrightarrow>
     user1 s y \<le> user1 s' y + int (need_list y lhs ns) \<and> rootp s' = rootp s
     \<and> m_deleteps s' = m_deleteps s"
proof (induction n s and ns s arbitrary: s' lhs and s' lhs
    rule: DeadModVisitor_DeadModVisitor_list.induct)
  case (1 s)
  then show ?case by simp
next
  case (2 n ns s)
  from "2.prems" obtain s1 where r: "DeadModVisitor n s = Inr s1" "DeadModVisitor_list ns s1 = Inr s'"
    by (simp split: sum.splits)
  from "2.IH"(1)[OF r(1), of lhs] "2.IH"(2)[OF r(1) r(2), of False] show ?case by simp
next
  case (3 a at o1 o2 o3 o4 s)
  show ?case
  proof (cases "isNodeMath (ntype at)")
    case True
    then show ?thesis using "3.prems" by simp
  next
    case False
    then have nr: "\<not> recordable at" by (auto simp: recordable_def isNodeMath_def)
    from False obtain s1 s2 s3 s4 where
      r: "DeadModVisitor_list o1 s = Inr s1" "DeadModVisitor_list o2 s1 = Inr s2"
         "DeadModVisitor_list o3 s2 = Inr s3" "DeadModVisitor_list o4 s3 = Inr s4"
      using "3.prems" by (simp split: sum.splits)
    note ih = "3.IH"(1)[OF False r(1), of False]
        "3.IH"(2)[OF False r(1) r(2), of "ntype at = AstNodeAssign"]
        "3.IH"(3)[OF False r(1) r(2) r(3), of False]
        "3.IH"(4)[OF False r(1) r(2) r(3) r(4), of False]
    have e: "s' = s4 \<or> (\<exists>m. modp at = Some m \<and> s' = user1Inc m (- 1) s4)"
      using "3.prems" False r by (auto split: if_splits option.splits)
    have "user1 s4 y \<le> user1 s' y + int (edge (modp at) y)"
      using e by (auto simp: user1_dec)
    moreover have "edge (modp at) y \<le> refs y a at" by (simp add: refs_def)
    moreover have "rootp s' = rootp s4" "m_deleteps s' = m_deleteps s4"
      using e by (auto simp: user1Inc_eq)
    ultimately show ?thesis using ih nr by simp
  qed
qed

text \<open>A dead module leaves the list of modules.\<close>

lemma sound_drop:
  assumes so: "sound K (Node r rat (pre @ m # ms) o2 o3 o4 # P) u D"
    and d: "\<And>y. u y \<le> u' y + int (need y False m)"
    and t: "u (addr_of m) \<le> 0"
  shows "sound K (Node r rat (pre @ ms) o2 o3 o4 # P) u' (D @ [(DeadModule, m, v)])"
proof -
  let ?F = "Node r rat (pre @ m # ms) o2 o3 o4 # P"
  let ?F' = "Node r rat (pre @ ms) o2 o3 o4 # P"
  from so have wf: "wf_forest ?F"
    and c: "\<And>y. y \<in> set (addrs_list ?F) \<or> y \<notin> droots D \<Longrightarrow>
              int (need_list y False ?F) + int (K y) \<le> u y"
    and z: "\<And>e. e \<in> set D \<Longrightarrow> tested (fst e) \<Longrightarrow>
              need_list (addr_of (fst (snd e))) False ?F = 0 \<and> K (addr_of (fst (snd e))) = 0"
    by (auto simp: sound_def)
  have nd: "need_list y False ?F = need_list y False ?F' + need y False m" for y
    by (simp add: need_list_append)
  have sub: "set (addrs_list ?F') \<subseteq> set (addrs_list ?F)"
    by (auto simp: addrs_list_def)
  have am: "addr_of m \<in> set (addrs_list ?F)"
    using nodes_self[of m] by (auto simp: addrs_list_def)
  have 1: "wf_forest ?F'"
    using wf wf_forest_Cons[of m ms]
    by (auto simp: wf_forest_simps wf_node_eq nomod_simps nomod_Cons[of m ms])
  have 2: "int (need_list y False ?F') + int (K y) \<le> u' y"
    if "y \<in> set (addrs_list ?F') \<or> y \<notin> droots (D @ [(DeadModule, m, v)])" for y
  proof -
    from that have "y \<in> set (addrs_list ?F) \<or> y \<notin> droots D" using sub by auto
    from c[OF this] d[of y] nd[of y] show ?thesis by simp
  qed
  have 3: "need_list (addr_of (fst (snd e))) False ?F' = 0 \<and> K (addr_of (fst (snd e))) = 0"
    if "e \<in> set (D @ [(DeadModule, m, v)])" "tested (fst e)" for e
  proof (cases "e \<in> set D")
    case True
    from z[OF True that(2)] nd[of "addr_of (fst (snd e))"] show ?thesis by simp
  next
    case False
    with that have e: "e = (DeadModule, m, v)" by auto
    from am have "int (need_list (addr_of m) False ?F) + int (K (addr_of m)) \<le> u (addr_of m)"
      by (intro c) simp
    with t nd[of "addr_of m"] show ?thesis using e by simp
  qed
  show ?thesis unfolding sound_def using 1 2 3 by blast
qed

lemma deadModPass_ok:
  "deadModPass ms s = Inr (ms', s', retry) \<Longrightarrow>
     sound K (Node r rat (pre @ ms) o2 o3 o4 # P) (user1 s) (deaths s) \<Longrightarrow>
     sound K (Node r rat (pre @ ms') o2 o3 o4 # P) (user1 s') (deaths s')
     \<and> rootp s' = rootp s \<and> m_deleteps s' = m_deleteps s"
proof (induction ms arbitrary: pre s ms' retry)
  case Nil
  then show ?case by simp
next
  case (Cons m ms)
  show ?case
  proof (cases "castNodeModule m \<and> modDead (user1 s) m")
    case True
    then obtain s1 r1 where
      v: "DeadModVisitor m s = Inr s1"
      and p: "deadModPass ms (s1\<lparr>deaths := deaths s1 @ [(DeadModule, m, user1 s)]\<rparr>) = Inr (ms', s', r1)"
      using Cons.prems(1) by (auto simp: modDead_def split: sum.splits)
    let ?s2 = "s1\<lparr>deaths := deaths s1 @ [(DeadModule, m, user1 s)]\<rparr>"
    note dm = DeadModVisitor_dec(1)[OF v, of _ False]
    have t: "user1 s (addr_of m) \<le> 0" using True by (simp add: modDead_def)
    have "sound K (Node r rat (pre @ ms) o2 o3 o4 # P) (user1 s1) (deaths s @ [(DeadModule, m, user1 s)])"
      by (rule sound_drop[OF Cons.prems(2) _ t]) (use dm in simp)
    then have "sound K (Node r rat (pre @ ms) o2 o3 o4 # P) (user1 ?s2) (deaths ?s2)"
      using DeadModVisitor_deaths(1)[OF v] by simp
    from Cons.IH[OF p this] dm show ?thesis by simp
  next
    case False
    then have "(ms' = m # ms \<and> s' = s)
        \<or> (\<exists>ms1. deadModPass ms s = Inr (ms1, s', retry) \<and> ms' = m # ms1)"
      using Cons.prems(1) by (auto simp: modDead_def split: sum.splits if_splits)
    then show ?thesis
    proof
      assume "ms' = m # ms \<and> s' = s"
      then show ?thesis using Cons.prems(2) by simp
    next
      assume "\<exists>ms1. deadModPass ms s = Inr (ms1, s', retry) \<and> ms' = m # ms1"
      then obtain ms1 where p: "deadModPass ms s = Inr (ms1, s', retry)" and e: "ms' = m # ms1"
        by blast
      from Cons.IH[OF p, of "pre @ [m]"] Cons.prems(2) show ?thesis unfolding e by simp
    qed
  qed
qed

lemma deadModLoop_ok:
  assumes run: "deadModLoop ms s = Some (Inr (ms', s'))"
  shows "sound K (Node r rat ms o2 o3 o4 # P) (user1 s) (deaths s) \<longrightarrow>
           sound K (Node r rat ms' o2 o3 o4 # P) (user1 s') (deaths s')
           \<and> rootp s' = rootp s \<and> m_deleteps s' = m_deleteps s"
proof (rule deadModLoop_rule[OF run, where P = "\<lambda>ms s.
           sound K (Node r rat ms o2 o3 o4 # P) (user1 s) (deaths s) \<longrightarrow>
           sound K (Node r rat ms' o2 o3 o4 # P) (user1 s') (deaths s')
           \<and> rootp s' = rootp s \<and> m_deleteps s' = m_deleteps s"])
  show "sound K (Node r rat ms' o2 o3 o4 # P) (user1 s') (deaths s') \<longrightarrow>
           sound K (Node r rat ms' o2 o3 o4 # P) (user1 s') (deaths s')
           \<and> rootp s' = rootp s' \<and> m_deleteps s' = m_deleteps s'"
    by simp
next
  fix ms s ms1 s1
  assume p: "deadModPass ms s = Inr (ms1, s1, True)"
    and ih: "sound K (Node r rat ms1 o2 o3 o4 # P) (user1 s1) (deaths s1) \<longrightarrow>
           sound K (Node r rat ms' o2 o3 o4 # P) (user1 s') (deaths s')
           \<and> rootp s' = rootp s1 \<and> m_deleteps s' = m_deleteps s1"
  show "sound K (Node r rat ms o2 o3 o4 # P) (user1 s) (deaths s) \<longrightarrow>
           sound K (Node r rat ms' o2 o3 o4 # P) (user1 s') (deaths s')
           \<and> rootp s' = rootp s \<and> m_deleteps s' = m_deleteps s"
    using deadModPass_ok[OF p, of K r rat "[]" o2 o3 o4 P] ih by simp
qed

lemma deadCheckMod_ok:
  assumes "deadCheckMod s = Some (Inr s')" "ok K s"
  shows "ok K s'"
proof -
  from assms(1) obtain ms s1 where
    l: "deadModLoop (op1p (rootp s)) s = Some (Inr (ms, s1))"
    and s': "s' = s1\<lparr>rootp := setModules ms (rootp s1)\<rparr>"
    by (auto simp: deadCheckMod_def split: option.splits sum.splits)
  obtain r rat o1 o2 o3 o4 where rt: "rootp s = Node r rat o1 o2 o3 o4" by (cases "rootp s") auto
  from assms(2) have "sound K (Node r rat o1 o2 o3 o4 # pend s) (user1 s) (deaths s)"
    by (simp add: ok_def forest_def rt)
  with deadModLoop_ok[OF l, of K r rat o2 o3 o4 "pend s"] rt
  have 1: "sound K (Node r rat ms o2 o3 o4 # pend s) (user1 s1) (deaths s1)"
    and 2: "rootp s1 = rootp s" "m_deleteps s1 = m_deleteps s"
    by auto
  show ?thesis using 1 2 rt unfolding s' by (simp add: ok_def forest_def pend_def setModules_def)
qed

subsection \<open>From the traversal to the end of the run\<close>

lemma visit_sites:
  shows "visit f h n s = Inr (r, s') \<Longrightarrow>
           wf_forest [n] \<longrightarrow> (\<forall>e \<in> set (deaths s'). tested (fst e) \<longrightarrow> e \<in> set (deaths s))"
proof -
  let ?RL = "\<lambda>ns s rs s'. wf_forest ns \<longrightarrow> (\<forall>e \<in> set (deaths s'). tested (fst e) \<longrightarrow> e \<in> set (deaths s))"
  let ?R = "\<lambda>n s r s'. ?RL [n] s r s'"
  show "visit f h n s = Inr (r, s') \<Longrightarrow> ?R n s r s'"
  proof (rule visit_rule_node[where R = ?R and RL = ?RL])
    fix s show "?RL [] s [] s" by simp
  next
    fix n ns s r s1 rs s2
    assume "?R n s r s1" "?RL ns s1 rs s2"
    then show "?RL (n # ns) s (r @ rs) s2" using wf_forest_Cons[of n ns] by auto
  next
    fix a at o1 o2 o3 o4 s r1 s1 r2 s2 r3 s3 r4 s4 r s'
    assume k: "ntype at \<noteq> AstNodeAssign"
      and 1: "?RL o1 (visitPre a at s) r1 s1" and 2: "?RL o2 s1 r2 s2"
      and 3: "?RL o3 s2 r3 s3" and 4: "?RL o4 s3 r4 s4"
      and p: "visitPost f h a at r1 r2 r3 r4 s4 = Inr (r, s')"
    show "?R (Node a at o1 o2 o3 o4) s r s'"
    proof (intro impI)
      assume wf: "wf_forest [Node a at o1 o2 o3 o4]"
      then have wn: "wf_node (Node a at o1 o2 o3 o4)"
        and w: "wf_forest o1" "wf_forest o2" "wf_forest o3" "wf_forest o4"
        by (auto simp: wf_forest_simps)
      have c: "\<forall>e \<in> set (deaths s4). tested (fst e) \<longrightarrow> e \<in> set (deaths s)"
        using 1 2 3 4 w by auto
      from visitPost_count[OF p wf_node_attrs[OF wn]]
      have "deaths s' = deaths s4 \<or> (\<exists>x. deaths s' = deaths s4 @ [(InVisit, x, user1 s4)])"
        by (auto simp: kept_def pushDeletep_def)
      then show "\<forall>e \<in> set (deaths s'). tested (fst e) \<longrightarrow> e \<in> set (deaths s)"
        using c by auto
    qed
  next
    fix a and at :: attrs and o1 l ls o3 o4 and s :: dv and r1 and s1 :: dv and vs
    assume 1: "?RL o1 (s\<lparr>m_sideEffect := False\<rparr>) r1 s1"
    show "?R (Node a at o1 (l # ls) o3 o4) s [Node a at r1 (l # ls) o3 o4]
           (checkAll a at (checkAll (addr_of l) (attrs_of l)
              ((checkAll a at s1)\<lparr>m_assignMap := m_assignMap s1 @ [(vs, a)]\<rparr>)))"
      using 1 by (auto simp: wf_forest_simps)
  next
    fix a and at :: attrs and o1 l ls o3 o4 and s :: dv and r1 and s1 :: dv and r2 and s2 :: dv
    assume 1: "?RL o1 (s\<lparr>m_sideEffect := False\<rparr>) r1 s1"
      and 2: "?RL (l # ls) (checkAll a at s1) r2 s2"
    show "?R (Node a at o1 (l # ls) o3 o4) s [Node a at r1 r2 o3 o4] (checkAll a at s2)"
      using 1 2 by (auto simp: wf_forest_simps)
  qed
qed

lemma countRefs_ok:
  assumes "countRefs f t = Inr s" "wf_forest [t]"
  shows "ok (\<lambda>y. pinned y [t]) s"
proof -
  from assms(1) obtain r s0 n ns where v: "visit f t t (dv_init t) = Inr (r, s0)"
    and r: "r = n # ns" and s: "s = s0\<lparr>rootp := n\<rparr>"
    by (auto simp: countRefs_def split: sum.splits list.splits)
  have p0: "pend (dv_init t) = []" "user1 (dv_init t) = (\<lambda>_. 0)" "m_modp (dv_init t) = None"
    "deaths (dv_init t) = []"
    by (simp_all add: pend_def dv_init_def)
  have c: "gain y [t] (dv_init t) r s0 \<and> wf_forest r \<and> length r \<le> 1 \<and> wf_forest (pend s0)" for y
    using visit_counted(1)[OF v, of y] assms(2) by (simp add: counted_def p0 wf_forest_simps)
  from c r have ns: "ns = []" by simp
  have f: "forest s = n # pend s0" by (simp add: forest_def pend_def s)
  have 1: "wf_forest (forest s)"
    using c r ns wf_forest_Cons[of n "pend s0"] unfolding f by simp
  have 2: "int (need_list y False (forest s)) + int (pinned y [t]) \<le> user1 s y" for y
    using c[of y] unfolding f r ns gain_def p0 by (simp add: s)
  have 3: "\<not> tested (fst e)" if "e \<in> set (deaths s)" for e
    using visit_sites[OF v] assms(2) that by (auto simp: p0 s)
  show ?thesis unfolding ok_def sound_def using 1 2 3 by blast
qed

lemma DeadVisitor_ok:
  assumes "DeadVisitor f t = Some (Inr s)" "wf_forest [t]"
  shows "sound (\<lambda>y. pinned y [t]) [rootp s] (user1 s) (deaths s)"
proof -
  let ?K = "\<lambda>y. pinned y [t]"
  from assms(1) obtain s0 s1 s2 s3 s4 where
    0: "countRefs f t = Inr s0" and 1: "deadCheckVar s0 = Some (Inr s1)"
    and 2: "(if elimScopes f then deadCheckScope s1 else Some (Inr s1)) = Some (Inr s2)"
    and 3: "(if elimCells f then Some (deadCheckCells s2) else Some (Inr s2)) = Some (Inr s3)"
    and 4: "deadCheckMod s3 = Some (Inr s4)" and 5: "s = s4\<lparr>m_deleteps := []\<rparr>"
    by (auto simp: DeadVisitor_def andThen_def split: option.splits sum.splits)
  have k0: "ok ?K s0" by (rule countRefs_ok[OF 0 assms(2)])
  have k1: "ok ?K s1" by (rule deadCheckVar_ok[OF 1 k0])
  have k2: "ok ?K s2" using 2 k1 deadCheckScope_ok[of s1 s2 ?K] by (auto split: if_splits)
  have k3: "ok ?K s3"
    using 3 k2 deadCells_ok[of "m_cellsp s2" s2 s3 ?K] by (auto simp: deadCheckCells_def split: if_splits)
  have k4: "ok ?K s4" by (rule deadCheckMod_ok[OF 4 k3])
  have m: "need_list y False [rootp s4] \<le> need_list y False (forest s4)" for y
    by (simp add: forest_def)
  have a: "set (addrs_list [rootp s4]) \<subseteq> set (addrs_list (forest s4))"
    by (auto simp: forest_def)
  have w: "wf_forest [rootp s4]"
    using k4 wf_forest_Cons[of "rootp s4" "pend s4"] by (simp add: ok_def sound_def forest_def)
  from k4 have c: "\<And>y. y \<in> set (addrs_list (forest s4)) \<or> y \<notin> droots (deaths s4) \<Longrightarrow>
        int (need_list y False (forest s4)) + int (pinned y [t]) \<le> user1 s4 y"
    and z: "\<And>e. e \<in> set (deaths s4) \<Longrightarrow> tested (fst e) \<Longrightarrow>
        need_list (addr_of (fst (snd e))) False (forest s4) = 0 \<and> pinned (addr_of (fst (snd e))) [t] = 0"
    by (auto simp: ok_def sound_def)
  have 6: "int (need_list y False [rootp s4]) + int (pinned y [t]) \<le> user1 s4 y"
    if "y \<in> set (addrs_list [rootp s4]) \<or> y \<notin> droots (deaths s4)" for y
    using c[of y] that a m[of y] by auto
  have 7: "need_list (addr_of (fst (snd e))) False [rootp s4] = 0 \<and> pinned (addr_of (fst (snd e))) [t] = 0"
    if "e \<in> set (deaths s4)" "tested (fst e)" for e
    using z[OF that] m[of "addr_of (fst (snd e))"] by simp
  show ?thesis unfolding sound_def 5 using w 6 7 by simp
qed


lemma countRefs_pins:
  assumes "countRefs f t = Inr s" "wf_forest [t]"
  shows "int (pinned y [t]) \<le> user1 s y"
proof -
  from assms(1) obtain r s0 n ns where v: "visit f t t (dv_init t) = Inr (r, s0)"
    and s: "s = s0\<lparr>rootp := n\<rparr>"
    by (auto simp: countRefs_def split: sum.splits list.splits)
  have p0: "pend (dv_init t) = []" "user1 (dv_init t) = (\<lambda>_. 0)" "m_modp (dv_init t) = None"
    by (simp_all add: pend_def dv_init_def)
  have "gain y [t] (dv_init t) r s0"
    using visit_counted(1)[OF v, of y] assms(2) by (simp add: counted_def)
  then show ?thesis unfolding gain_def p0 s by simp
qed

lemma pinned_package:
  assumes "p \<in> set (nodes_list ns)" "ntype (attrs_of p) = AstPackage"
  shows "pubs (kids p) \<le> pinned (addr_of p) ns"
proof -
  let ?g = "\<lambda>m. if addr_of m = addr_of p \<and> ntype (attrs_of m) = AstPackage then pubs (kids m) else 0"
  have "?g p \<in> set (map ?g (nodes_list ns))" using assms(1) by (auto intro!: image_eqI[where x = p])
  from member_le_sum_list[OF this] show ?thesis using assms(2) by (simp add: pinned_def)
qed

lemma pubs_pos:
  "x \<in> set (nodes_list ns) \<Longrightarrow> pub (attrs_of x) \<Longrightarrow> 1 \<le> pubs ns"
  unfolding pubs_def
  by (metis (mono_tags, lifting) One_nat_def Suc_leI filter_empty_conv length_greater_0_conv)

lemma need_zero:
  "need y lhs n = 0 \<Longrightarrow> wf_forest [n] \<Longrightarrow> m \<in> set (nodes n) \<Longrightarrow>
     dpart y (addr_of m) (attrs_of m) = 0
     \<and> (\<not> recordable (attrs_of m) \<longrightarrow> refs y (addr_of m) (attrs_of m) = 0)"
  "need_list y lhs ns = 0 \<Longrightarrow> wf_forest ns \<Longrightarrow> m \<in> set (nodes_list ns) \<Longrightarrow>
     dpart y (addr_of m) (attrs_of m) = 0
     \<and> (\<not> recordable (attrs_of m) \<longrightarrow> refs y (addr_of m) (attrs_of m) = 0)"
proof (induction n and ns arbitrary: lhs and lhs rule: nodes_nodes_list.induct)
  case (1 a at o1 o2 o3 o4)
  from "1.prems"(2) have wn: "wf_node (Node a at o1 o2 o3 o4)"
    and w: "wf_forest o1" "wf_forest o2" "wf_forest o3" "wf_forest o4"
    by (auto simp: wf_forest_simps)
  have dr: "dpart y a at \<le> refs y a at" by (simp add: refs_def)
  show ?case
  proof (cases "lhs \<and> recordable at")
    case True
    then have "o1 = []" "o2 = []" "o3 = []" "o4 = []" using wn by (auto simp: wf_node_eq recordable_def)
    then have "m = Node a at o1 o2 o3 o4" using "1.prems"(3) by simp
    then show ?thesis using "1.prems"(1) True by simp
  next
    case False
    then have z: "refs y a at = 0" "need_list y False o1 = 0"
      "need_list y (ntype at = AstNodeAssign) o2 = 0" "need_list y False o3 = 0"
      "need_list y False o4 = 0"
      using "1.prems"(1) by auto
    from "1.prems"(3) consider "m = Node a at o1 o2 o3 o4"
      | "m \<in> set (nodes_list o1)" | "m \<in> set (nodes_list o2)"
      | "m \<in> set (nodes_list o3)" | "m \<in> set (nodes_list o4)"
      by auto
    then show ?thesis
    proof cases
      case 1 then show ?thesis using z(1) dr by simp
    next
      case 2 show ?thesis by (rule "1.IH"(1)[OF z(2) w(1) 2])
    next
      case 3 show ?thesis by (rule "1.IH"(2)[OF z(3) w(2) 3])
    next
      case 4 show ?thesis by (rule "1.IH"(3)[OF z(4) w(3) 4])
    next
      case 5 show ?thesis by (rule "1.IH"(4)[OF z(5) w(4) 5])
    qed
  qed
next
  case 2
  then show ?case by simp
next
  case (3 n ns)
  from "3.prems"(2) have w: "wf_forest [n]" "wf_forest ns" using wf_forest_Cons[of n ns] by auto
  from "3.prems"(1) have z: "need y lhs n = 0" "need_list y False ns = 0" by auto
  from "3.prems"(3) consider "m \<in> set (nodes n)" | "m \<in> set (nodes_list ns)" by auto
  then show ?case
  proof cases
    case 1 show ?thesis by (rule "3.IH"(1)[OF z(1) w(1) 1])
  next
    case 2 show ?thesis by (rule "3.IH"(2)[OF z(2) w(2) 2])
  qed
qed

section \<open>A public variable or typedef pins its package\<close>

text \<open>A package (3, level 3) with a public variable (4) and a public typedef (7), beside
  the top module (2) and an unused module (5, level 3).\<close>

definition ex_package :: node where
  "ex_package =
     Node 1 (plain AstNetlist)
       [Node 2 ((plain AstModule)\<lparr>level := 2\<rparr>) [] [] [] [],
        Node 3 ((plain AstPackage)\<lparr>level := 3\<rparr>) []
          [Node 4 ((plain AstVar)\<lparr>isSigPublic := True\<rparr>) [] [] [] [],
           Node 7 ((plain AstTypedef)\<lparr>attrPublic := True\<rparr>) [] [] [] []] [] [],
        Node 5 ((plain AstModule)\<lparr>level := 3\<rparr>) [] [] [] []]
       [] [] []"

definition modeAll :: mode where
  "modeAll = \<lparr>elimUserVars = True, elimDTypes = True, elimScopes = False, elimCells = True\<rparr>"

section \<open>The pins are the only counts of an address that no pointer targets\<close>

text \<open>The addresses that some pointer of a forest targets.\<close>

definition pointed :: "node list \<Rightarrow> addr set" where
  "pointed F = (\<Union>n \<in> set (nodes_list F). set (pointers (attrs_of n)))"

lemma pointed_simps:
  "pointed [] = {}"
  "pointed (xs @ ys) = pointed xs \<union> pointed ys"
  "pointed (Node a at o1 o2 o3 o4 # ns) =
     set (pointers at) \<union> pointed o1 \<union> pointed o2 \<union> pointed o3 \<union> pointed o4 \<union> pointed ns"
  by (auto simp: pointed_def)

lemma pointed_Cons: "pointed (n # ns) = pointed [n] \<union> pointed ns"
  by (auto simp: pointed_def)

lemma pointed_deref:
  "deref F a = Some n \<Longrightarrow> set (pointers (attrs_of n)) \<subseteq> pointed F"
  using deref_in[of F a n] by (auto simp: pointed_def)

lemma visitVarRef_pins:
  assumes "visitVarRef h a at s = Inr s1" "y \<notin> set (pointers at)" "y \<notin> pointed [h]"
  shows "user1 s1 y = user1 s y" "m_modp s1 = m_modp s"
proof -
  have ne: "dtypep at \<noteq> Some y" "getChildDTypep at \<noteq> Some y" "varp at \<noteq> Some y"
    "varScopep at \<noteq> Some y"
    using assms(2) by (auto simp: pointers_iff)
  have v: "v \<noteq> y" if "deref [h] vs = Some vn" "varp (attrs_of vn) = Some v" for vs vn v
    using pointed_deref[OF that(1)] that(2) assms(3) by (auto simp: pointers_iff)
  show "user1 s1 y = user1 s y" "m_modp s1 = m_modp s"
    using assms(1) ne v
    by (auto simp: visitVarRef_def Let_def checkAll_eq incOpt_eq user1Inc_eq hit_def
        split: option.splits if_splits)
qed

lemma visitVarScope_pins:
  assumes "visitVarScope f h a at s = Inr s1" "y \<notin> set (pointers at)"
  shows "user1 s1 y = user1 s y" "m_modp s1 = m_modp s"
proof -
  have ne: "dtypep at \<noteq> Some y" "getChildDTypep at \<noteq> Some y" "scopep at \<noteq> Some y"
    using assms(2) by (auto simp: pointers_iff)
  show "user1 s1 y = user1 s y" "m_modp s1 = m_modp s"
    using assms(1) ne
    by (auto simp: visitVarScope_def Let_def checkAll_eq incOpt_eq user1Inc_eq hit_def
        split: option.splits if_splits)
qed

lemma packageLink_pins:
  assumes "packageLink f at s = (at', s1)" "y \<notin> set (pointers at)"
  shows "user1 s1 y = user1 s y" "m_modp s1 = m_modp s" "deaths s1 = deaths s"
  using assms
  by (auto simp: packageLink_def user1Inc_eq hit_def pointers_iff split: option.splits if_splits)

lemma pinPackage_pins:
  "user1 (pinPackage b s) y = user1 s y + (if b \<and> m_modp s = Some (y, True) then 1 else 0)"
  "m_modp (pinPackage b s) = m_modp s"
  by (auto simp: pinPackage_def user1Inc_eq hit_def split: option.splits bool.splits)

lemma checkAll_pins:
  "y \<notin> set (pointers at) \<Longrightarrow> user1 (checkAll a at s) y = user1 s y"
  "m_modp (checkAll a at s) = m_modp s"
  by (auto simp: checkAll_eq hit_def pointers_iff)

lemma checkDType_pins:
  "y \<notin> set (pointers at) \<Longrightarrow> user1 (checkDType f a at s) y = user1 s y"
  "m_modp (checkDType f a at s) = m_modp s"
  by (auto simp: checkDType_eq hit_def pointers_iff)

lemma incOpt_pins:
  "p \<noteq> Some y \<Longrightarrow> user1 (incOpt p s) y = user1 s y"
  "m_modp (incOpt p s) = m_modp s"
  by (auto simp: incOpt_eq hit_def)

lemma visitPost_pins:
  assumes run: "visitPost f h a at r1 r2 r3 r4 s = Inr (r, s')"
    and y: "y \<notin> set (pointers at)" "y \<notin> pointed [h]"
  shows "user1 s' y = user1 s y + (if pub at \<and> m_modp s = Some (y, True) then 1 else 0)
       \<and> m_modp s' = (if ntype at = AstModule \<or> ntype at = AstPackage then None else m_modp s)"
proof -
  have ne: "scopep at \<noteq> Some y" "aboveScopep at \<noteq> Some y" "modp at \<noteq> Some y"
    using y(1) by (auto simp: pointers_iff)
  have y': "y \<notin> set (pointers (at\<lparr>packagep := None\<rparr>))" using y(1) pointers_scrub[of at] by auto
  note ca = checkAll_pins(1)[OF y(1)] checkAll_pins(2) checkDType_pins(1)[OF y(1)] checkDType_pins(2)
  show ?thesis
  proof (cases "ntype at")
    case AstVarRef
    with run obtain s1 at' where v: "visitVarRef h a at s = Inr s1" and l: "packageLink f at s1 = (at', s')"
      by (auto simp: visitPost_def split: sum.splits prod.splits)
    from visitVarRef_pins[OF v y] packageLink_pins[OF l y(1)] AstVarRef show ?thesis
      by (simp add: pub_def)
  next
    case AstVarXRef
    with run obtain s1 at' where v: "visitVarRef h a at s = Inr s1" and l: "packageLink f at s1 = (at', s')"
      by (auto simp: visitPost_def split: sum.splits prod.splits)
    from visitVarRef_pins[OF v y] packageLink_pins[OF l y(1)] AstVarXRef show ?thesis
      by (simp add: pub_def)
  next
    case AstNodeFTaskRef
    with run obtain at' where l: "packageLink f at (checkAll a at s) = (at', s')"
      by (auto simp: visitPost_def split: sum.splits prod.splits)
    from packageLink_pins[OF l y(1)] ca AstNodeFTaskRef show ?thesis by (simp add: pub_def)
  next
    case AstRefDType
    with run obtain at' where l: "packageLink f at (checkAll a at (checkDType f a at s)) = (at', s')"
      by (auto simp: visitPost_def split: sum.splits prod.splits)
    from packageLink_pins[OF l y(1)] ca AstRefDType show ?thesis by (simp add: pub_def)
  next
    case AstEnumItemRef
    with run obtain at' s1 where l: "packageLink f at (checkAll a at s) = (at', s1)"
      and s': "s' = checkAll a at' s1"
      by (auto simp: visitPost_def split: sum.splits prod.splits)
    have "at' = at \<or> at' = at\<lparr>packagep := None\<rparr>" using packageLink_cases[OF l] by auto
    then have "y \<notin> set (pointers at')" using y(1) y' by auto
    from checkAll_pins(1)[OF this] packageLink_pins[OF l y(1)] ca AstEnumItemRef s'
    show ?thesis by (simp add: pub_def checkAll_pins(2))
  next
    case AstVarScope
    with run have v: "visitVarScope f h a at s = Inr s'"
      by (auto simp: visitPost_def split: sum.splits prod.splits)
    from visitVarScope_pins[OF v y(1)] AstVarScope show ?thesis by (simp add: pub_def)
  next
    case AstCell
    with run obtain m where "modp at = Some m"
      "s' = user1Inc m 1 ((checkAll a at s)\<lparr>m_cellsp := m_cellsp (checkAll a at s) @ [a]\<rparr>)"
      by (auto simp: visitPost_def Let_def split: option.splits)
    with ne ca AstCell show ?thesis by (simp add: pub_def user1Inc_eq hit_def)
  next
    case AstScope
    with run have "user1 s' = user1 (incOpt (aboveScopep at) (checkAll a at s))"
      "m_modp s' = m_modp (incOpt (aboveScopep at) (checkAll a at s))"
      by (auto simp: visitPost_def Let_def split: if_splits)
    with ne ca AstScope show ?thesis by (simp add: pub_def incOpt_pins)
  next
    case AstCFunc
    with run have "s' = incOpt (scopep at) (checkAll a at s)"
      by (auto simp: visitPost_def)
    with ne ca AstCFunc show ?thesis by (simp add: pub_def incOpt_pins)
  next
    case AstVar
    with run have "user1 s' = user1 (pinPackage (isSigPublic at) (checkAll a at s))"
      "m_modp s' = m_modp (pinPackage (isSigPublic at) (checkAll a at s))"
      by (auto simp: visitPost_def Let_def split: if_splits)
    with ca AstVar show ?thesis by (simp add: pub_def pinPackage_pins)
  next
    case AstTypedef
    with run have "(s' = pinPackage (attrPublic at) (checkAll a at s))
        \<or> (\<not> attrPublic at \<and> s' = pushDeletep (Node a at r1 r2 r3 r4) s)"
      by (auto simp: visitPost_def split: if_splits)
    with ca AstTypedef show ?thesis by (auto simp: pub_def pinPackage_pins pushDeletep_def)
  next
    case AstModport
    with run have "(s' = checkAll a at s) \<or> (s' = pushDeletep (Node a at r1 r2 r3 r4) s)"
      by (auto simp: visitPost_def split: if_splits)
    with ca AstModport show ?thesis by (auto simp: pub_def pushDeletep_def)
  next
    case AstModule
    with run have "s' = (checkAll a at s)\<lparr>m_modp := None\<rparr>" by (auto simp: visitPost_def)
    with ca AstModule show ?thesis by (simp add: pub_def)
  next
    case AstPackage
    with run have "s' = (checkAll a at s)\<lparr>m_modp := None\<rparr>" by (auto simp: visitPost_def)
    with ca AstPackage show ?thesis by (simp add: pub_def)
  next
    case AstNetlist
    with run have "s' = checkAll a at s" by (auto simp: visitPost_def)
    with ca AstNetlist show ?thesis by (simp add: pub_def)
  next
    case AstNodeAssign
    with run have "s' = checkAll a at s" by (auto simp: visitPost_def)
    with ca AstNodeAssign show ?thesis by (simp add: pub_def)
  next
    case AstNodeMath
    with run have "s' = checkAll a at s" by (auto simp: visitPost_def)
    with ca AstNodeMath show ?thesis by (simp add: pub_def)
  next
    case AstNode
    with run have "s' = checkAll a at s" by (auto simp: visitPost_def)
    with ca AstNode show ?thesis by (simp add: pub_def)
  next
    case AstNodeClassDType
    with run have "s' = checkAll a at (checkDType f a at s)" by (auto simp: visitPost_def)
    with ca AstNodeClassDType show ?thesis by (simp add: pub_def)
  next
    case AstMemberDType
    with run have "s' = checkAll a at (checkDType f a at s)" by (auto simp: visitPost_def)
    with ca AstMemberDType show ?thesis by (simp add: pub_def)
  next
    case AstNodeDType
    with run have "s' = checkAll a at (checkDType f a at s)" by (auto simp: visitPost_def)
    with ca AstNodeDType show ?thesis by (simp add: pub_def)
  qed
qed


text \<open>What a visit adds to the counter of an address \<open>y\<close> that no pointer targets:
  one per public variable or typedef below each package at \<open>y\<close>, and, inside the
  package at \<open>y\<close>, one per public variable or typedef visited. After a module,
  \<open>m_modp\<close> is null.\<close>

definition pinsOnly :: "addr \<Rightarrow> node list \<Rightarrow> dv \<Rightarrow> dv \<Rightarrow> bool" where
  "pinsOnly y ns s s' =
     (user1 s' y = user1 s y + int (pinned y ns)
          + (if nomod ns \<and> m_modp s = Some (y, True) then int (pubs ns) else 0)
      \<and> m_modp s' = (if nomod ns then m_modp s else None))"

lemma pinsOnly_nil: "pinsOnly y [] s s"
  by (simp add: pinsOnly_def pinned_simps pubs_simps nomod_simps)

lemma pinsOnly_next:
  "pinsOnly y xs s s1 \<Longrightarrow> m_modp s = None \<or> nomod (xs @ ys) \<Longrightarrow> m_modp s1 = None \<or> nomod ys"
  by (auto simp: pinsOnly_def nomod_simps)

lemma pinsOnly_append:
  assumes "pinsOnly y xs s s1" "pinsOnly y ys s1 s2" "m_modp s = None \<or> nomod (xs @ ys)"
  shows "pinsOnly y (xs @ ys) s s2"
  using assms
  by (auto simp: pinsOnly_def pinned_simps pubs_simps nomod_simps split: if_splits)

lemma pinsOnly_pre:
  "pinsOnly y ns s0 s' \<Longrightarrow> user1 s y = user1 s0 y \<Longrightarrow> m_modp s = m_modp s0 \<Longrightarrow> pinsOnly y ns s s'"
  by (simp add: pinsOnly_def)

lemma pinsOnly_post:
  "pinsOnly y ns s s0 \<Longrightarrow> user1 s' y = user1 s0 y \<Longrightarrow> m_modp s' = m_modp s0 \<Longrightarrow> pinsOnly y ns s s'"
  by (simp add: pinsOnly_def)

lemma visit_pinsOnly:
  assumes h: "y \<notin> pointed [h]"
  shows "visit f h n s = Inr (r, s') \<Longrightarrow> wf_forest [n] \<Longrightarrow> y \<notin> pointed [n] \<Longrightarrow>
           m_modp s = None \<or> nomod [n] \<Longrightarrow> pinsOnly y [n] s s'"
proof -
  let ?R = "\<lambda>n s (r :: node list) s'. wf_forest [n] \<longrightarrow> y \<notin> pointed [n] \<longrightarrow>
              (m_modp s = None \<or> nomod [n]) \<longrightarrow> pinsOnly y [n] s s'"
  let ?RL = "\<lambda>ns s (rs :: node list) s'. wf_forest ns \<longrightarrow> y \<notin> pointed ns \<longrightarrow>
              (m_modp s = None \<or> nomod ns) \<longrightarrow> pinsOnly y ns s s'"
  have "visit f h n s = Inr (r, s') \<Longrightarrow> ?R n s r s'"
  proof (rule visit_rule_node[where R = ?R and RL = ?RL])
    fix s show "?RL [] s [] s" by (simp add: pinsOnly_nil)
  next
    fix n ns s r s1 rs s2
    assume 1: "?R n s r s1" and 2: "?RL ns s1 rs s2"
    show "?RL (n # ns) s (r @ rs) s2"
    proof (intro impI)
      assume w: "wf_forest (n # ns)" and p: "y \<notin> pointed (n # ns)"
        and m: "m_modp s = None \<or> nomod (n # ns)"
      from w have w': "wf_forest [n]" "wf_forest ns" using wf_forest_Cons[of n ns] by auto
      from p have p': "y \<notin> pointed [n]" "y \<notin> pointed ns" using pointed_Cons[of n ns] by auto
      from m have m1: "m_modp s = None \<or> nomod [n]" using nomod_Cons[of n ns] by auto
      from 1 w' p' m1 have a: "pinsOnly y [n] s s1" by simp
      have m': "m_modp s = None \<or> nomod ([n] @ ns)" using m by simp
      from pinsOnly_next[OF a m'] 2 w' p' have b: "pinsOnly y ns s1 s2" by simp
      from pinsOnly_append[OF a b m'] show "pinsOnly y (n # ns) s s2" by simp
    qed
  next
    fix a at o1 o2 o3 o4 s r1 s1 r2 s2 r3 s3 r4 s4 r s'
    assume k: "ntype at \<noteq> AstNodeAssign"
      and 1: "?RL o1 (visitPre a at s) r1 s1" and 2: "?RL o2 s1 r2 s2"
      and 3: "?RL o3 s2 r3 s3" and 4: "?RL o4 s3 r4 s4"
      and po: "visitPost f h a at r1 r2 r3 r4 s4 = Inr (r, s')"
    let ?n = "Node a at o1 o2 o3 o4"
    show "?R ?n s r s'"
    proof (intro impI)
      assume w: "wf_forest [?n]" and p: "y \<notin> pointed [?n]" and m: "m_modp s = None \<or> nomod [?n]"
      from w have wn: "wf_node ?n" and wo: "wf_forest o1" "wf_forest o2" "wf_forest o3" "wf_forest o4"
        by (auto simp: wf_forest_simps)
      from p have pa: "y \<notin> set (pointers at)"
        and pc: "y \<notin> pointed o1" "y \<notin> pointed o2" "y \<notin> pointed o3" "y \<notin> pointed o4"
        by (auto simp: pointed_simps)
      let ?s0 = "visitPre a at s"
      have u0: "user1 ?s0 y = user1 s y" by (simp add: visitPre_def)
      let ?mod = "ntype at = AstModule \<or> ntype at = AstPackage"
      have m0: "m_modp ?s0 = (if ?mod then Some (a, ntype at = AstPackage) else m_modp s)"
        by (simp add: visitPre_def)
      have nk: "?mod \<longrightarrow> nomod o1 \<and> nomod o2 \<and> nomod o3 \<and> nomod o4"
        using wn by (simp add: wf_node_eq)
      have c0: "m_modp ?s0 = None \<or> nomod (o1 @ o2 @ o3 @ o4)"
        using m m0 nk by (auto simp: nomod_simps)
      then have c1: "m_modp ?s0 = None \<or> nomod (o1 @ (o2 @ o3 @ o4))" by simp
      have d1: "m_modp ?s0 = None \<or> nomod o1" using c0 by (auto simp: nomod_simps)
      from 1 wo pc d1 have a1: "pinsOnly y o1 ?s0 s1" by simp
      from pinsOnly_next[OF a1 c1] have c2: "m_modp s1 = None \<or> nomod (o2 @ (o3 @ o4))" by simp
      then have d2: "m_modp s1 = None \<or> nomod o2" by (auto simp: nomod_simps)
      from 2 wo pc d2 have a2: "pinsOnly y o2 s1 s2" by simp
      from pinsOnly_next[OF a2 c2] have c3: "m_modp s2 = None \<or> nomod (o3 @ o4)" .
      then have d3: "m_modp s2 = None \<or> nomod o3" by (auto simp: nomod_simps)
      from 3 wo pc d3 have a3: "pinsOnly y o3 s2 s3" by simp
      from pinsOnly_next[OF a3 c3] have d4: "m_modp s3 = None \<or> nomod o4" .
      from 4 wo pc d4 have a4: "pinsOnly y o4 s3 s4" by simp
      have a34: "pinsOnly y (o3 @ o4) s2 s4" by (rule pinsOnly_append[OF a3 a4 c3])
      have a234: "pinsOnly y (o2 @ o3 @ o4) s1 s4" by (rule pinsOnly_append[OF a2 a34 c2])
      have all: "pinsOnly y (o1 @ o2 @ o3 @ o4) ?s0 s4" by (rule pinsOnly_append[OF a1 a234 c1])
      from visitPost_pins[OF po pa h] have
        e: "user1 s' y = user1 s4 y + (if pub at \<and> m_modp s4 = Some (y, True) then 1 else 0)"
          "m_modp s' = (if ?mod then None else m_modp s4)" by auto
      show "pinsOnly y [?n] s s'"
      proof (cases ?mod)
        case True
        then have np: "\<not> pub at" by (auto simp: pub_def)
        have z: "pinned y (o1 @ o2 @ o3 @ o4) = 0"
          using nk True by (intro pinned_nomod) (simp add: nomod_simps)
        have nm: "nomod (o1 @ o2 @ o3 @ o4)" using nk True by (simp add: nomod_simps)
        from all z nm u0 m0 True have
          "user1 s4 y = user1 s y + (if a = y \<and> ntype at = AstPackage then int (pubs (o1 @ o2 @ o3 @ o4)) else 0)"
          by (auto simp: pinsOnly_def)
        with e np True z show ?thesis
          by (auto simp: pinsOnly_def pinned_simps nomod_simps pubs_simps)
      next
        case False
        from all u0 m0 False have
          u4: "user1 s4 y = user1 s y + int (pinned y (o1 @ o2 @ o3 @ o4))
                + (if nomod (o1 @ o2 @ o3 @ o4) \<and> m_modp s = Some (y, True)
                   then int (pubs (o1 @ o2 @ o3 @ o4)) else 0)"
          and m4: "m_modp s4 = (if nomod (o1 @ o2 @ o3 @ o4) then m_modp s else None)"
          by (auto simp: pinsOnly_def)
        from u4 m4 e False show ?thesis
          by (auto simp: pinsOnly_def pinned_simps nomod_simps pubs_simps)
      qed
    qed
  next
    fix a and at :: attrs and o1 l ls o3 o4 s r1 s1 vs
    assume k: "ntype at = AstNodeAssign" and 1: "?RL o1 (s\<lparr>m_sideEffect := False\<rparr>) r1 s1"
      and lv: "ntype (attrs_of l) = AstVarRef"
    let ?n = "Node a at o1 (l # ls) o3 o4"
    let ?s' = "checkAll a at (checkAll (addr_of l) (attrs_of l)
            ((checkAll a at s1)\<lparr>m_assignMap := m_assignMap s1 @ [(vs, a)]\<rparr>))"
    show "?R ?n s [Node a at r1 (l # ls) o3 o4] ?s'"
    proof (intro impI)
      assume w: "wf_forest [?n]" and p: "y \<notin> pointed [?n]" and m: "m_modp s = None \<or> nomod [?n]"
      from w have wn: "wf_node ?n" and wo: "wf_forest o1" and wl: "wf_forest [l]"
        using wf_forest_Cons[of l ls] by (auto simp: wf_forest_simps)
      from wn k have sh: "ls = []" "o3 = []" "o4 = []" by (auto simp: wf_node_eq)
      obtain la lat l1 l2 l3 l4 where l: "l = Node la lat l1 l2 l3 l4" by (cases l)
      from wl lv l have lk: "l1 = []" "l2 = []" "l3 = []" "l4 = []"
        by (auto simp: wf_forest_simps wf_node_eq)
      from p have pa: "y \<notin> set (pointers at)" and pc: "y \<notin> pointed o1"
        and pl: "y \<notin> set (pointers (attrs_of l))"
        using l by (auto simp: pointed_simps)
      have np: "\<not> pub at" "\<not> pub lat" using k lv l by (auto simp: pub_def)
      have d1: "m_modp (s\<lparr>m_sideEffect := False\<rparr>) = None \<or> nomod o1"
        using m by (auto simp: nomod_simps)
      from 1 wo pc d1 have a1: "pinsOnly y o1 (s\<lparr>m_sideEffect := False\<rparr>) s1" by auto
      have u: "user1 ?s' y = user1 s1 y" "m_modp ?s' = m_modp s1"
        using pa pl by (simp_all add: checkAll_pins)
      from a1 u np k lv show "pinsOnly y [?n] s ?s'"
        unfolding l sh lk
        by (auto simp: pinsOnly_def pinned_simps nomod_simps pubs_simps)
    qed
  next
    fix a and at :: attrs and o1 l ls o3 o4 s r1 s1 r2 s2
    assume k: "ntype at = AstNodeAssign" and 1: "?RL o1 (s\<lparr>m_sideEffect := False\<rparr>) r1 s1"
      and 2: "?RL (l # ls) (checkAll a at s1) r2 s2"
    let ?n = "Node a at o1 (l # ls) o3 o4"
    show "?R ?n s [Node a at r1 r2 o3 o4] (checkAll a at s2)"
    proof (intro impI)
      assume w: "wf_forest [?n]" and p: "y \<notin> pointed [?n]" and m: "m_modp s = None \<or> nomod [?n]"
      from w have wn: "wf_node ?n" and wo: "wf_forest o1" "wf_forest (l # ls)"
        by (auto simp: wf_forest_simps)
      from wn k have sh: "o3 = []" "o4 = []" by (auto simp: wf_node_eq)
      from p have pa: "y \<notin> set (pointers at)" and pc: "y \<notin> pointed o1" "y \<notin> pointed (l # ls)"
        by (auto simp: pointed_simps)
      have np: "\<not> pub at" using k by (auto simp: pub_def)
      let ?s0 = "s\<lparr>m_sideEffect := False\<rparr>"
      have c1: "m_modp ?s0 = None \<or> nomod (o1 @ (l # ls))"
        using m sh by (auto simp: nomod_simps)
      then have d1: "m_modp ?s0 = None \<or> nomod o1" by (auto simp: nomod_simps)
      from 1 wo pc d1 have a1: "pinsOnly y o1 ?s0 s1" by auto
      from pinsOnly_next[OF a1 c1] have d2: "m_modp (checkAll a at s1) = None \<or> nomod (l # ls)"
        by (simp add: checkAll_pins)
      from 2 wo pc d2 have "pinsOnly y (l # ls) (checkAll a at s1) s2" by auto
      then have a2: "pinsOnly y (l # ls) s1 s2"
        by (rule pinsOnly_pre) (simp_all add: checkAll_pins pa)
      have all: "pinsOnly y (o1 @ (l # ls)) ?s0 s2" by (rule pinsOnly_append[OF a1 a2 c1])
      have u: "user1 (checkAll a at s2) y = user1 s2 y" "m_modp (checkAll a at s2) = m_modp s2"
        using pa by (simp_all add: checkAll_pins)
      from all u np k show "pinsOnly y [?n] s (checkAll a at s2)"
        unfolding sh
        by (auto simp: pinsOnly_def pinned_simps nomod_simps pubs_simps)
    qed
  qed
  then show "visit f h n s = Inr (r, s') \<Longrightarrow> wf_forest [n] \<Longrightarrow> y \<notin> pointed [n] \<Longrightarrow>
           m_modp s = None \<or> nomod [n] \<Longrightarrow> pinsOnly y [n] s s'" by blast
qed

lemma countRefs_pins_exact:
  assumes "countRefs f t = Inr s" "wf_forest [t]" "y \<notin> pointed [t]"
  shows "user1 s y = int (pinned y [t])"
proof -
  from assms(1) obtain r s0 n where v: "visit f t t (dv_init t) = Inr (r, s0)"
    and s: "s = s0\<lparr>rootp := n\<rparr>"
    by (auto simp: countRefs_def split: sum.splits list.splits)
  have "pinsOnly y [t] (dv_init t) s0"
    by (rule visit_pinsOnly[OF assms(3) v assms(2,3)]) (simp add: dv_init_def)
  then show ?thesis unfolding s by (simp add: pinsOnly_def dv_init_def)
qed

text \<open>With distinct addresses, the package at an address is one node.\<close>

lemma pinned_distinct:
  assumes "distinct (map addr_of xs)" "p \<in> set xs" "ntype (attrs_of p) = AstPackage"
  shows "sum_list (map (\<lambda>m. if addr_of m = addr_of p \<and> ntype (attrs_of m) = AstPackage
                             then pubs (kids m) else 0) xs) = pubs (kids p)"
  using assms(1,2)
proof (induction xs)
  case Nil
  then show ?case by simp
next
  case (Cons x xs)
  show ?case
  proof (cases "x = p")
    case True
    have "addr_of m \<noteq> addr_of p" if "m \<in> set xs" for m
      using Cons.prems(1) True that by (auto simp: image_iff)
    then have "sum_list (map (\<lambda>m. if addr_of m = addr_of p \<and> ntype (attrs_of m) = AstPackage
                             then pubs (kids m) else 0) xs) = 0"
      by (induction xs) auto
    with True assms(3) show ?thesis by simp
  next
    case False
    with Cons.prems have px: "p \<in> set xs" and "addr_of x \<noteq> addr_of p" by auto
    with Cons.IH Cons.prems(1) show ?thesis by simp
  qed
qed

lemma pinned_unique:
  assumes "distinct (addrs t)" "p \<in> set (nodes t)" "ntype (attrs_of p) = AstPackage"
  shows "pinned (addr_of p) [t] = pubs (kids p)"
  using pinned_distinct[of "nodes t" p] assms by (simp add: pinned_def addrs_def)


text \<open>
  Claim C7. In a well-formed netlist (\<open>wf_forest\<close>: the fields a class does not have
  are null, a \<open>AstVarRef\<close> has no children, an assignment has one left-hand side, and
  modules are not nested), let \<open>p\<close> be a package among the modules of the netlist and
  \<open>x\<close> a variable with \<open>isSigPublic\<close> or a typedef with \<open>attrPublic\<close> below it.
  The traversal adds one to the counter of \<open>p\<close> for each such entity below \<open>p\<close>:
  the counter it leaves is at least their number, which is at least one, and it is
  exactly their number when the addresses of the netlist are distinct and no pointer of
  the netlist targets \<open>p\<close>, so that the pins are its only counts. No run of the
  module sweep unlinks a module at the address of \<open>p\<close>; and while a node at that
  address is in the netlist at the end of the run, its counter is still at least that
  number plus the counted edges to it.
\<close>

theorem C7_public_pins_package:
  assumes wf: "wf_forest [t]"
    and p: "p \<in> set (op1p t)" "ntype (attrs_of p) = AstPackage"
    and x: "x \<in> set (nodes_list (kids p))" "pub (attrs_of x)"
  shows "1 \<le> pubs (kids p)
       \<and> (\<forall>s0. countRefs f t = Inr s0 \<longrightarrow>
             int (pubs (kids p)) \<le> user1 s0 (addr_of p)
             \<and> (distinct (addrs t) \<and> addr_of p \<notin> pointed [t] \<longrightarrow>
                  user1 s0 (addr_of p) = int (pubs (kids p))))
       \<and> (\<forall>s. DeadVisitor f t = Some (Inr s) \<longrightarrow>
             (\<forall>e \<in> set (deaths s). fst e = DeadModule \<longrightarrow> addr_of (fst (snd e)) \<noteq> addr_of p)
             \<and> (addr_of p \<in> set (addrs (rootp s)) \<longrightarrow>
                  int (need (addr_of p) False (rootp s)) + int (pubs (kids p))
                    \<le> user1 s (addr_of p)))"
proof -
  have pp: "1 \<le> pubs (kids p)" by (rule pubs_pos[OF x])
  have "set (op1p t) \<subseteq> set (nodes_list (op1p t))" using nodes_list_roots[of "op1p t"] by blast
  then have pt: "p \<in> set (nodes_list [t])" using p(1) by (cases t) auto
  from pinned_package[OF this p(2)] have k: "pubs (kids p) \<le> pinned (addr_of p) [t]" .
  have 1: "int (pubs (kids p)) \<le> user1 s0 (addr_of p)" if "countRefs f t = Inr s0" for s0
    using countRefs_pins[OF that wf, of "addr_of p"] k by simp
  have ex: "user1 s0 (addr_of p) = int (pubs (kids p))"
    if "countRefs f t = Inr s0" "distinct (addrs t)" "addr_of p \<notin> pointed [t]" for s0
    using countRefs_pins_exact[OF that(1) wf that(3)] pinned_unique[OF that(2) _ p(2)] pt by simp
  have 2: "(\<forall>e \<in> set (deaths s). fst e = DeadModule \<longrightarrow> addr_of (fst (snd e)) \<noteq> addr_of p)
         \<and> (addr_of p \<in> set (addrs (rootp s)) \<longrightarrow>
              int (need (addr_of p) False (rootp s)) + int (pubs (kids p)) \<le> user1 s (addr_of p))"
    if "DeadVisitor f t = Some (Inr s)" for s
  proof -
    from DeadVisitor_ok[OF that wf] have
      c: "\<And>y. y \<in> set (addrs_list [rootp s]) \<Longrightarrow>
            int (need_list y False [rootp s]) + int (pinned y [t]) \<le> user1 s y"
      and z: "\<And>e. e \<in> set (deaths s) \<Longrightarrow> tested (fst e) \<Longrightarrow> pinned (addr_of (fst (snd e))) [t] = 0"
      by (auto simp: sound_def)
    have "addr_of (fst (snd e)) \<noteq> addr_of p" if "e \<in> set (deaths s)" "fst e = DeadModule" for e
      using z[OF that(1)] that(2) k pp by (auto simp: tested_def)
    moreover have "int (need (addr_of p) False (rootp s)) + int (pubs (kids p)) \<le> user1 s (addr_of p)"
      if "addr_of p \<in> set (addrs (rootp s))"
      using c[of "addr_of p"] that k by simp
    ultimately show ?thesis by blast
  qed
  show ?thesis using pp 1 ex 2 by blast
qed

theorem C7_public_pins_package_witness:
  "\<exists>s0 s. wf_forest [ex_package] \<and> distinct (addrs ex_package) \<and> 3 \<notin> pointed [ex_package]
     \<and> countRefs modeAll ex_package = Inr s0 \<and> user1 s0 3 = 2
     \<and> deadifyAll ex_package = Some (Inr s)
     \<and> map (\<lambda>e. (fst e, addr_of (fst (snd e)))) (deaths s) = [(DeadModule, 5)]
     \<and> addrs (rootp s) = [1, 2, 3, 4, 7] \<and> 2 \<le> user1 s 3"
proof -
  let ?p = "Node 3 ((plain AstPackage)\<lparr>level := 3\<rparr>) []
          [Node 4 ((plain AstVar)\<lparr>isSigPublic := True\<rparr>) [] [] [] [],
           Node 7 ((plain AstTypedef)\<lparr>attrPublic := True\<rparr>) [] [] [] []] [] []"
  let ?x = "Node 4 ((plain AstVar)\<lparr>isSigPublic := True\<rparr>) [] [] [] []"
  have wf: "wf_forest [ex_package]"
    by (simp add: ex_package_def wf_forest_simps wf_node_eq wf_attrs_def nomod_simps plain_def)
  have di: "distinct (addrs ex_package)" by (simp add: ex_package_def)
  have np: "3 \<notin> pointed [ex_package]"
    by (simp add: ex_package_def pointed_simps pointers_def plain_def)
  have p: "?p \<in> set (op1p ex_package)" "ntype (attrs_of ?p) = AstPackage"
    by (simp_all add: ex_package_def plain_def)
  have x: "?x \<in> set (nodes_list (kids ?p))" "pub (attrs_of ?x)"
    by (simp_all add: kids_def pub_def plain_def)
  have n: "pubs (kids ?p) = 2" by (simp add: kids_def pubs_simps pub_def plain_def)
  obtain s0 where s0: "countRefs modeAll ex_package = Inr s0"
    by (simp add: run_defs ex_package_def modeAll_def)
  obtain s where s: "deadifyAll ex_package = Some (Inr s)"
    by (simp add: run_defs ex_package_def)
  have d: "map (\<lambda>e. (fst e, addr_of (fst (snd e)))) (deaths s) = [(DeadModule, 5)]"
    "addrs (rootp s) = [1, 2, 3, 4, 7]"
    using s by (auto simp: run_defs ex_package_def)
  have r: "DeadVisitor modeAll ex_package = Some (Inr s)"
    using s by (simp add: deadifyAll_def modeAll_def)
  from C7_public_pins_package[OF wf p x, of modeAll] s0 r n d(2) di np
  have "user1 s0 3 = 2" "2 \<le> user1 s 3" by auto
  with wf di np s0 s d show ?thesis by (intro exI[of _ s0] exI[of _ s]) simp
qed

section \<open>Edges into unlinked subtrees\<close>











section \<open>Deleted with an ancestor\<close>





section \<open>Which nodes the sweeps may choose\<close>

text \<open>The fields of a node apart from the package pointer, which the traversal may
  null; a node is identified by its address and these fields.\<close>

definition scrub :: "attrs \<Rightarrow> attrs" where
  "scrub at = at\<lparr>packagep := None\<rparr>"

definition key :: "node \<Rightarrow> addr \<times> attrs" where
  "key n = (addr_of n, scrub (attrs_of n))"

text \<open>The kind-specific test that puts a node on a candidate list of the traversal:
  \<open>mightElimVar\<close> for a variable and for the variable of a varscope (read in the netlist
  \<open>t\<close> the traversal runs on), the test of \<open>checkDType\<close> for a data type, the test of
  \<open>visit(AstScope*)\<close> for a scope; every cell is a candidate.\<close>

definition eligible :: "mode \<Rightarrow> node \<Rightarrow> site \<Rightarrow> node \<Rightarrow> bool" where
  "eligible f t st x =
     (case st of
        DeadVar \<Rightarrow>
          ntype (attrs_of x) = AstVar \<and> \<not> isSigPublic (attrs_of x) \<and> \<not> isIO (attrs_of x)
          \<and> (isTemp (attrs_of x) \<or> (isParam (attrs_of x) \<and> \<not> isTrace (attrs_of x)) \<or> elimUserVars f)
      | DeadVarScope \<Rightarrow>
          ntype (attrs_of x) = AstVarScope
          \<and> (\<exists>v vn. varp (attrs_of x) = Some v \<and> deref [t] v = Some vn
                \<and> \<not> isSigPublic (attrs_of vn) \<and> \<not> isIO (attrs_of vn)
                \<and> (isTemp (attrs_of vn) \<or> (isParam (attrs_of vn) \<and> \<not> isTrace (attrs_of vn))
                    \<or> elimUserVars f))
      | DeadDType \<Rightarrow>
          (ntype (attrs_of x) = AstRefDType \<or> ntype (attrs_of x) = AstNodeClassDType
           \<or> ntype (attrs_of x) = AstNodeDType)
          \<and> \<not> generic (attrs_of x) \<and> elimDTypes f
      | DeadScope \<Rightarrow>
          ntype (attrs_of x) = AstScope \<and> \<not> isTop (attrs_of x)
          \<and> op1p x = [] \<and> op2p x = [] \<and> op3p x = []
      | DeadCell \<Rightarrow> ntype (attrs_of x) = AstCell
      | _ \<Rightarrow> True)"

text \<open>The candidates of a state, each with the sweep that reads it.\<close>

definition cands :: "dv \<Rightarrow> (site \<times> addr) set" where
  "cands s =
     {(DeadVar, a) | a. Some a \<in> set (m_varsp s)} \<union> {(DeadVarScope, a) | a. a \<in> set (m_vscsp s)}
     \<union> {(DeadDType, a) | a. a \<in> set (m_dtypesp s)} \<union> {(DeadScope, a) | a. Some a \<in> set (m_scopesp s)}
     \<union> {(DeadCell, a) | a. a \<in> set (m_cellsp s)}"

lemma cands_iff:
  "(st, a) \<in> cands s \<longleftrightarrow>
     (st = DeadVar \<and> Some a \<in> set (m_varsp s)) \<or> (st = DeadVarScope \<and> a \<in> set (m_vscsp s))
     \<or> (st = DeadDType \<and> a \<in> set (m_dtypesp s)) \<or> (st = DeadScope \<and> Some a \<in> set (m_scopesp s))
     \<or> (st = DeadCell \<and> a \<in> set (m_cellsp s))"
  by (auto simp: cands_def)

lemma cands_same:
  "m_varsp s' = m_varsp s \<Longrightarrow> m_vscsp s' = m_vscsp s \<Longrightarrow> m_dtypesp s' = m_dtypesp s \<Longrightarrow>
     m_scopesp s' = m_scopesp s \<Longrightarrow> m_cellsp s' = m_cellsp s \<Longrightarrow> cands s' = cands s"
  by (simp add: cands_def)

lemma lists_simps [simp]:
  "m_varsp (incOpt p s) = m_varsp s" "m_vscsp (incOpt p s) = m_vscsp s"
  "m_dtypesp (incOpt p s) = m_dtypesp s" "m_scopesp (incOpt p s) = m_scopesp s"
  "m_cellsp (incOpt p s) = m_cellsp s"
  "m_varsp (user1Inc b k s) = m_varsp s" "m_vscsp (user1Inc b k s) = m_vscsp s"
  "m_dtypesp (user1Inc b k s) = m_dtypesp s" "m_scopesp (user1Inc b k s) = m_scopesp s"
  "m_cellsp (user1Inc b k s) = m_cellsp s"
  "m_varsp (checkAll a at s) = m_varsp s" "m_vscsp (checkAll a at s) = m_vscsp s"
  "m_dtypesp (checkAll a at s) = m_dtypesp s" "m_scopesp (checkAll a at s) = m_scopesp s"
  "m_cellsp (checkAll a at s) = m_cellsp s"
  "m_varsp (pinPackage b' s) = m_varsp s" "m_vscsp (pinPackage b' s) = m_vscsp s"
  "m_dtypesp (pinPackage b' s) = m_dtypesp s" "m_scopesp (pinPackage b' s) = m_scopesp s"
  "m_cellsp (pinPackage b' s) = m_cellsp s"
  "m_varsp (pushDeletep n s) = m_varsp s" "m_vscsp (pushDeletep n s) = m_vscsp s"
  "m_dtypesp (pushDeletep n s) = m_dtypesp s" "m_scopesp (pushDeletep n s) = m_scopesp s"
  "m_cellsp (pushDeletep n s) = m_cellsp s"
  "m_varsp (visitPre a at s) = m_varsp s" "m_vscsp (visitPre a at s) = m_vscsp s"
  "m_dtypesp (visitPre a at s) = m_dtypesp s" "m_scopesp (visitPre a at s) = m_scopesp s"
  "m_cellsp (visitPre a at s) = m_cellsp s"
  "m_varsp (decOpt p s) = m_varsp s" "m_vscsp (decOpt p s) = m_vscsp s"
  "m_dtypesp (decOpt p s) = m_dtypesp s" "m_scopesp (decOpt p s) = m_scopesp s"
  "m_cellsp (decOpt p s) = m_cellsp s"
  by (simp_all add: incOpt_eq decOpt_eq user1Inc_eq checkAll_eq pinPackage_def pushDeletep_def visitPre_def
      split: option.splits bool.splits)

lemma cands_simps [simp]:
  "cands (incOpt p s) = cands s" "cands (user1Inc b k s) = cands s"
  "cands (checkAll a at s) = cands s" "cands (pinPackage b' s) = cands s"
  "cands (pushDeletep n s) = cands s" "cands (visitPre a at s) = cands s"
  "cands (decOpt p s) = cands s"
  "cands (s\<lparr>m_modp := mp\<rparr>) = cands s" "cands (s\<lparr>m_sideEffect := se\<rparr>) = cands s"
  "cands (s\<lparr>m_assignMap := am\<rparr>) = cands s" "cands (s\<lparr>rootp := rt\<rparr>) = cands s"
  "cands (s\<lparr>m_deleteps := dl\<rparr>) = cands s" "cands (s\<lparr>deaths := dt\<rparr>) = cands s"
  "cands (s\<lparr>user1 := u\<rparr>) = cands s"
  by (simp_all add: cands_def)

lemma packageLink_lists:
  assumes "packageLink f at s = (at', s')"
  shows "cands s' = cands s" "scrub at' = scrub at" "m_deleteps s' = m_deleteps s" "deaths s' = deaths s"
  using assms
  by (auto simp: packageLink_def scrub_def split: option.splits if_splits)

lemma visitVarRef_lists:
  assumes "visitVarRef h a at s = Inr s'"
  shows "cands s' = cands s" "m_deleteps s' = m_deleteps s" "deaths s' = deaths s"
  using assms
  by (auto simp: visitVarRef_def Let_def split: option.splits sum.splits)

lemma checkDType_cands:
  "(st, b) \<in> cands (checkDType f a at s) \<Longrightarrow>
     (st, b) \<in> cands s
     \<or> (st = DeadDType \<and> b = a \<and> \<not> generic at \<and> elimDTypes f \<and> ntype at \<noteq> AstMemberDType)"
  by (auto simp: checkDType_eq cands_iff split: if_splits)

text \<open>What a visit function does to the tree and to the candidate lists: it keeps its
  node, with the package pointer nulled or not, and any new candidate is that node and
  passes the test; or it queues the node for deletion.\<close>

lemma visitPost_cands:
  assumes run: "visitPost f h a at r1 r2 r3 r4 s = Inr (r, s')"
  shows "(\<exists>at'. r = [Node a at' r1 r2 r3 r4] \<and> scrub at' = scrub at
            \<and> m_deleteps s' = m_deleteps s \<and> deaths s' = deaths s
            \<and> (\<forall>st b. (st, b) \<in> cands s' \<longrightarrow>
                  (st, b) \<in> cands s \<or> (b = a \<and> eligible f h st (Node a at' r1 r2 r3 r4))))
         \<or> (r = [] \<and> s' = pushDeletep (Node a at r1 r2 r3 r4) s)"
proof -
  have same: ?thesis if "r = [Node a at' r1 r2 r3 r4]" "scrub at' = scrub at"
    "m_deleteps s' = m_deleteps s" "deaths s' = deaths s" "cands s' = cands s" for at'
    using that by auto
  have dt: ?thesis if k: "ntype at = AstRefDType \<or> ntype at = AstNodeClassDType \<or> ntype at = AstNodeDType
        \<or> ntype at = AstMemberDType"
    and "r = [Node a at' r1 r2 r3 r4]" "scrub at' = scrub at"
    "m_deleteps s' = m_deleteps s" "deaths s' = deaths s" "cands s' = cands (checkDType f a at s)" for at'
  proof -
    have nt: "ntype at' = ntype at" "generic at' = generic at"
      using arg_cong[OF that(3), of ntype] arg_cong[OF that(3), of generic] by (simp_all add: scrub_def)
    have "(st, b) \<in> cands s \<or> (b = a \<and> eligible f h st (Node a at' r1 r2 r3 r4))"
      if "(st, b) \<in> cands s'" for st b
      using checkDType_cands[of st b f a at s] that \<open>cands s' = cands (checkDType f a at s)\<close> k nt
      by (auto simp: eligible_def)
    with that show ?thesis by auto
  qed
  show ?thesis
  proof (cases "ntype at")
    case AstNetlist
    with run have "r = [Node a at r1 r2 r3 r4]" "s' = checkAll a at s" by (auto simp: visitPost_def)
    then show ?thesis by (intro same[of at]) simp_all
  next
    case AstNodeAssign
    with run have "r = [Node a at r1 r2 r3 r4]" "s' = checkAll a at s" by (auto simp: visitPost_def)
    then show ?thesis by (intro same[of at]) simp_all
  next
    case AstNodeMath
    with run have "r = [Node a at r1 r2 r3 r4]" "s' = checkAll a at s" by (auto simp: visitPost_def)
    then show ?thesis by (intro same[of at]) simp_all
  next
    case AstNode
    with run have "r = [Node a at r1 r2 r3 r4]" "s' = checkAll a at s" by (auto simp: visitPost_def)
    then show ?thesis by (intro same[of at]) simp_all
  next
    case AstModule
    with run have "r = [Node a at r1 r2 r3 r4]" "s' = (checkAll a at s)\<lparr>m_modp := None\<rparr>"
      by (auto simp: visitPost_def)
    then show ?thesis by (intro same[of at]) simp_all
  next
    case AstPackage
    with run have "r = [Node a at r1 r2 r3 r4]" "s' = (checkAll a at s)\<lparr>m_modp := None\<rparr>"
      by (auto simp: visitPost_def)
    then show ?thesis by (intro same[of at]) simp_all
  next
    case AstCFunc
    with run have "r = [Node a at r1 r2 r3 r4]" "s' = incOpt (scopep at) (checkAll a at s)"
      by (auto simp: visitPost_def)
    then show ?thesis by (intro same[of at]) simp_all
  next
    case AstVarRef
    with run obtain s1 at' where v: "visitVarRef h a at s = Inr s1" and l: "packageLink f at s1 = (at', s')"
      and r: "r = [Node a at' r1 r2 r3 r4]"
      by (auto simp: visitPost_def split: sum.splits prod.splits)
    from visitVarRef_lists[OF v] packageLink_lists[OF l] r show ?thesis by (intro same[of at']) simp_all
  next
    case AstVarXRef
    with run obtain s1 at' where v: "visitVarRef h a at s = Inr s1" and l: "packageLink f at s1 = (at', s')"
      and r: "r = [Node a at' r1 r2 r3 r4]"
      by (auto simp: visitPost_def split: sum.splits prod.splits)
    from visitVarRef_lists[OF v] packageLink_lists[OF l] r show ?thesis by (intro same[of at']) simp_all
  next
    case AstNodeFTaskRef
    with run obtain at' where l: "packageLink f at (checkAll a at s) = (at', s')"
      and r: "r = [Node a at' r1 r2 r3 r4]"
      by (auto simp: visitPost_def split: sum.splits prod.splits)
    from packageLink_lists[OF l] r show ?thesis by (intro same[of at']) simp_all
  next
    case AstEnumItemRef
    with run obtain at' s1 where l: "packageLink f at (checkAll a at s) = (at', s1)"
      and s': "s' = checkAll a at' s1" and r: "r = [Node a at' r1 r2 r3 r4]"
      by (auto simp: visitPost_def split: sum.splits prod.splits)
    from packageLink_lists[OF l] r s' show ?thesis by (intro same[of at']) simp_all
  next
    case AstRefDType
    with run obtain at' where l: "packageLink f at (checkAll a at (checkDType f a at s)) = (at', s')"
      and r: "r = [Node a at' r1 r2 r3 r4]"
      by (auto simp: visitPost_def split: sum.splits prod.splits)
    from packageLink_lists[OF l] r AstRefDType show ?thesis
      by (intro dt[of at']) (simp_all add: checkDType_eq)
  next
    case AstNodeClassDType
    with run have "r = [Node a at r1 r2 r3 r4]" "s' = checkAll a at (checkDType f a at s)"
      by (auto simp: visitPost_def)
    with AstNodeClassDType show ?thesis by (intro dt[of at]) (simp_all add: checkDType_eq)
  next
    case AstMemberDType
    with run have "r = [Node a at r1 r2 r3 r4]" "s' = checkAll a at (checkDType f a at s)"
      by (auto simp: visitPost_def)
    with AstMemberDType show ?thesis by (intro dt[of at]) (simp_all add: checkDType_eq)
  next
    case AstNodeDType
    with run have "r = [Node a at r1 r2 r3 r4]" "s' = checkAll a at (checkDType f a at s)"
      by (auto simp: visitPost_def)
    with AstNodeDType show ?thesis by (intro dt[of at]) (simp_all add: checkDType_eq)
  next
    case AstModport
    with run have "(r = [Node a at r1 r2 r3 r4] \<and> s' = checkAll a at s)
        \<or> (r = [] \<and> s' = pushDeletep (Node a at r1 r2 r3 r4) s)"
      by (auto simp: visitPost_def split: if_splits)
    then show ?thesis
    proof
      assume "r = [Node a at r1 r2 r3 r4] \<and> s' = checkAll a at s"
      then show ?thesis by (intro same[of at]) simp_all
    qed simp
  next
    case AstTypedef
    with run have "(r = [Node a at r1 r2 r3 r4] \<and> s' = pinPackage (attrPublic at) (checkAll a at s))
        \<or> (r = [] \<and> s' = pushDeletep (Node a at r1 r2 r3 r4) s)"
      by (auto simp: visitPost_def split: if_splits)
    then show ?thesis
    proof
      assume "r = [Node a at r1 r2 r3 r4] \<and> s' = pinPackage (attrPublic at) (checkAll a at s)"
      then show ?thesis by (intro same[of at]) simp_all
    qed simp
  next
    case AstCell
    with run obtain m where r: "r = [Node a at r1 r2 r3 r4]"
      and s': "s' = user1Inc m 1 ((checkAll a at s)\<lparr>m_cellsp := m_cellsp (checkAll a at s) @ [a]\<rparr>)"
      by (auto simp: visitPost_def Let_def split: option.splits)
    have "(st, b) \<in> cands s \<or> (b = a \<and> eligible f h st (Node a at r1 r2 r3 r4))"
      if "(st, b) \<in> cands s'" for st b
      using that AstCell unfolding s' by (auto simp: cands_iff eligible_def)
    with r s' show ?thesis by (auto simp: pushDeletep_def)
  next
    case AstScope
    with run have r: "r = [Node a at r1 r2 r3 r4]"
      and s': "s' = (if \<not> isTop at \<and> r1 = [] \<and> r3 = [] \<and> r2 = []
                     then (incOpt (aboveScopep at) (checkAll a at s))
                            \<lparr>m_scopesp := m_scopesp (incOpt (aboveScopep at) (checkAll a at s)) @ [Some a]\<rparr>
                     else incOpt (aboveScopep at) (checkAll a at s))"
      by (auto simp: visitPost_def Let_def)
    have "(st, b) \<in> cands s \<or> (b = a \<and> eligible f h st (Node a at r1 r2 r3 r4))"
      if "(st, b) \<in> cands s'" for st b
      using that AstScope unfolding s' by (auto simp: cands_iff eligible_def split: if_splits)
    moreover have "m_deleteps s' = m_deleteps s" "deaths s' = deaths s" unfolding s' by simp_all
    ultimately show ?thesis using r by auto
  next
    case AstVar
    with run have r: "r = [Node a at r1 r2 r3 r4]"
      and s': "s' = (if mightElimVar f at
                     then (pinPackage (isSigPublic at) (checkAll a at s))
                            \<lparr>m_varsp := m_varsp (pinPackage (isSigPublic at) (checkAll a at s)) @ [Some a]\<rparr>
                     else pinPackage (isSigPublic at) (checkAll a at s))"
      by (auto simp: visitPost_def Let_def)
    have "(st, b) \<in> cands s \<or> (b = a \<and> eligible f h st (Node a at r1 r2 r3 r4))"
      if "(st, b) \<in> cands s'" for st b
      using that AstVar unfolding s'
      by (auto simp: cands_iff eligible_def mightElimVar_def split: if_splits)
    moreover have "m_deleteps s' = m_deleteps s" "deaths s' = deaths s" unfolding s' by simp_all
    ultimately show ?thesis using r by auto
  next
    case AstVarScope
    with run have v: "visitVarScope f h a at s = Inr s'" and r: "r = [Node a at r1 r2 r3 r4]"
      by (auto simp: visitPost_def split: sum.splits)
    from v obtain vp vn where vn: "varp at = Some vp" "deref [h] vp = Some vn"
      and s': "s' = (if mightElimVar f (attrs_of vn)
                     then (incOpt (scopep at) (checkAll a at s))
                            \<lparr>m_vscsp := m_vscsp (incOpt (scopep at) (checkAll a at s)) @ [a]\<rparr>
                     else incOpt (scopep at) (checkAll a at s))"
      by (auto simp: visitVarScope_def Let_def split: option.splits)
    have "(st, b) \<in> cands s \<or> (b = a \<and> eligible f h st (Node a at r1 r2 r3 r4))"
      if "(st, b) \<in> cands s'" for st b
      using that AstVarScope vn unfolding s'
      by (auto simp: cands_iff eligible_def mightElimVar_def split: if_splits)
    moreover have "m_deleteps s' = m_deleteps s" "deaths s' = deaths s" unfolding s' by simp_all
    ultimately show ?thesis using r by auto
  qed
qed



lemma addrs_list_append [simp]: "addrs_list (xs @ ys) = addrs_list xs @ addrs_list ys"
  by (simp add: addrs_list_def)




lemma key_Node [simp]: "key (Node a at o1 o2 o3 o4) = (a, scrub at)"
  by (simp add: key_def)




section \<open>Every unlinked root was a candidate that passed its test\<close>









lemma key_del [simp]: "key (del_node a y) = key y"
  by (simp add: key_def)



lemma m_assignMap_simps [simp]:
  "m_assignMap (user1Inc b k s) = m_assignMap s" "m_assignMap (decOpt p s) = m_assignMap s"
  by (simp_all add: user1Inc_def decOpt_eq)

























section \<open>A run that unlinks nothing is a fixed point\<close>

text \<open>The traversal does not read \<open>rootp\<close>.\<close>

lemma rootp_commute [simp]:
  "user1Inc b k (s\<lparr>rootp := x\<rparr>) = (user1Inc b k s)\<lparr>rootp := x\<rparr>"
  "incOpt p (s\<lparr>rootp := x\<rparr>) = (incOpt p s)\<lparr>rootp := x\<rparr>"
  "checkAll a at (s\<lparr>rootp := x\<rparr>) = (checkAll a at s)\<lparr>rootp := x\<rparr>"
  "checkDType f a at (s\<lparr>rootp := x\<rparr>) = (checkDType f a at s)\<lparr>rootp := x\<rparr>"
  "pinPackage b' (s\<lparr>rootp := x\<rparr>) = (pinPackage b' s)\<lparr>rootp := x\<rparr>"
  "visitPre a at (s\<lparr>rootp := x\<rparr>) = (visitPre a at s)\<lparr>rootp := x\<rparr>"
  by (simp_all add: user1Inc_def incOpt_def checkAll_def checkDType_def pinPackage_def visitPre_def
      split: option.splits bool.splits)

lemma rootp_out:
  "s\<lparr>rootp := x, m_sideEffect := se\<rparr> = s\<lparr>m_sideEffect := se, rootp := x\<rparr>"
  "s\<lparr>rootp := x, m_assignMap := am\<rparr> = s\<lparr>m_assignMap := am, rootp := x\<rparr>"
  "s\<lparr>rootp := x, m_cellsp := cl\<rparr> = s\<lparr>m_cellsp := cl, rootp := x\<rparr>"
  "s\<lparr>rootp := x, m_varsp := vs\<rparr> = s\<lparr>m_varsp := vs, rootp := x\<rparr>"
  "s\<lparr>rootp := x, m_vscsp := vc\<rparr> = s\<lparr>m_vscsp := vc, rootp := x\<rparr>"
  "s\<lparr>rootp := x, m_scopesp := sc\<rparr> = s\<lparr>m_scopesp := sc, rootp := x\<rparr>"
  "s\<lparr>rootp := x, m_dtypesp := dt\<rparr> = s\<lparr>m_dtypesp := dt, rootp := x\<rparr>"
  "s\<lparr>rootp := x, m_modp := mp\<rparr> = s\<lparr>m_modp := mp, rootp := x\<rparr>"
  "s\<lparr>rootp := x, user1 := u\<rparr> = s\<lparr>user1 := u, rootp := x\<rparr>"
  by simp_all

text \<open>Two heaps in which a pointer finds nodes with the same fields, up to the package
  pointer.\<close>

definition agree :: "node \<Rightarrow> node \<Rightarrow> bool" where
  "agree h2 h = (\<forall>a. map_option key (deref [h2] a) = map_option key (deref [h] a))"

lemma find_keys:
  "map key xs = map key ys \<Longrightarrow>
     map_option key (find (\<lambda>n. addr_of n = a) xs) = map_option key (find (\<lambda>n. addr_of n = a) ys)"
proof (induction xs arbitrary: ys)
  case Nil
  then show ?case by simp
next
  case (Cons x xs)
  then obtain y ys' where ys: "ys = y # ys'" "key x = key y" "map key xs = map key ys'" by auto
  from ys(2) have "addr_of x = addr_of y" by (simp add: key_def)
  with Cons.IH[OF ys(3)] ys show ?case by simp
qed

lemma agree_keys: "map key (nodes h2) = map key (nodes h) \<Longrightarrow> agree h2 h"
  unfolding agree_def deref_def using find_keys[of "nodes h2" "nodes h"] by simp

lemma agree_deref:
  assumes "agree h2 h" "deref [h] a = Some vn"
  obtains vn2 where "deref [h2] a = Some vn2" "scrub (attrs_of vn2) = scrub (attrs_of vn)"
proof -
  from assms have "map_option key (deref [h2] a) = Some (key vn)" by (simp add: agree_def)
  then obtain vn2 where "deref [h2] a = Some vn2" "key vn2 = key vn" by auto
  then show ?thesis using that by (simp add: key_def)
qed

lemma scrub_eq_fields:
  assumes "scrub at2 = scrub at"
  shows "ntype at2 = ntype at" "dtypep at2 = dtypep at" "getChildDTypep at2 = getChildDTypep at"
    "virtRefDTypep at2 = virtRefDTypep at" "modp at2 = modp at" "scopep at2 = scopep at"
    "aboveScopep at2 = aboveScopep at" "varScopep at2 = varScopep at" "varp at2 = varp at"
    "generic at2 = generic at" "isTop at2 = isTop at" "attrPublic at2 = attrPublic at"
    "isSigPublic at2 = isSigPublic at" "isIO at2 = isIO at" "isTemp at2 = isTemp at"
    "isParam at2 = isParam at" "isTrace at2 = isTrace at" "isOutputter at2 = isOutputter at"
  using arg_cong[OF assms, of ntype] arg_cong[OF assms, of dtypep] arg_cong[OF assms, of getChildDTypep]
    arg_cong[OF assms, of virtRefDTypep] arg_cong[OF assms, of modp] arg_cong[OF assms, of scopep]
    arg_cong[OF assms, of aboveScopep] arg_cong[OF assms, of varScopep] arg_cong[OF assms, of varp]
    arg_cong[OF assms, of generic] arg_cong[OF assms, of isTop] arg_cong[OF assms, of attrPublic]
    arg_cong[OF assms, of isSigPublic] arg_cong[OF assms, of isIO] arg_cong[OF assms, of isTemp]
    arg_cong[OF assms, of isParam] arg_cong[OF assms, of isTrace] arg_cong[OF assms, of isOutputter]
  by (simp_all add: scrub_def)

lemma checkAll_scrub: "scrub at2 = scrub at \<Longrightarrow> checkAll a at2 s = checkAll a at s"
  using scrub_eq_fields[of at2 at] by (simp add: checkAll_def)

lemma checkDType_scrub: "scrub at2 = scrub at \<Longrightarrow> checkDType f a at2 s = checkDType f a at s"
  using scrub_eq_fields[of at2 at] by (simp add: checkDType_def)

lemma visitPre_scrub: "scrub at2 = scrub at \<Longrightarrow> visitPre a at2 s = visitPre a at s"
  using scrub_eq_fields[of at2 at] by (simp add: visitPre_def)

lemma mightElimVar_scrub: "scrub at2 = scrub at \<Longrightarrow> mightElimVar f at2 = mightElimVar f at"
  using scrub_eq_fields[of at2 at] by (simp add: mightElimVar_def)

lemma visitVarRef_again:
  assumes "visitVarRef h a at s = Inr s1" "agree h2 h" "scrub at2 = scrub at"
  shows "visitVarRef h2 a at2 (s\<lparr>rootp := x\<rparr>) = Inr (s1\<lparr>rootp := x\<rparr>)"
proof -
  note f = scrub_eq_fields[OF assms(3)] checkAll_scrub[OF assms(3)]
  show ?thesis
  proof (cases "varScopep at")
    case None
    with assms(1) show ?thesis by (auto simp: visitVarRef_def Let_def f)
  next
    case (Some vs)
    with assms(1) obtain vn v where vn: "deref [h] vs = Some vn" "varp (attrs_of vn) = Some v"
      and s1: "s1 = incOpt (varp at) (user1Inc v 1 (user1Inc vs 1 (checkAll a at s)))"
      by (auto simp: visitVarRef_def Let_def split: option.splits)
    from agree_deref[OF assms(2) vn(1)] obtain vn2 where
      vn2: "deref [h2] vs = Some vn2" "scrub (attrs_of vn2) = scrub (attrs_of vn)" by blast
    from scrub_eq_fields(9)[OF vn2(2)] vn(2) have "varp (attrs_of vn2) = Some v" by simp
    with vn2(1) Some s1 show ?thesis by (simp add: visitVarRef_def Let_def f)
  qed
qed

lemma visitVarScope_again:
  assumes "visitVarScope f h a at s = Inr s1" "agree h2 h" "scrub at2 = scrub at"
  shows "visitVarScope f h2 a at2 (s\<lparr>rootp := x\<rparr>) = Inr (s1\<lparr>rootp := x\<rparr>)"
proof -
  note f = scrub_eq_fields[OF assms(3)] checkAll_scrub[OF assms(3)]
  from assms(1) obtain v vn where v: "varp at = Some v" "deref [h] v = Some vn"
    and s1: "s1 = (if mightElimVar f (attrs_of vn)
                   then (incOpt (scopep at) (checkAll a at s))
                          \<lparr>m_vscsp := m_vscsp (incOpt (scopep at) (checkAll a at s)) @ [a]\<rparr>
                   else incOpt (scopep at) (checkAll a at s))"
    by (auto simp: visitVarScope_def Let_def split: option.splits)
  from agree_deref[OF assms(2) v(2)] obtain vn2 where
    vn2: "deref [h2] v = Some vn2" "scrub (attrs_of vn2) = scrub (attrs_of vn)" by blast
  from mightElimVar_scrub[OF vn2(2)] v vn2(1) s1 show ?thesis
    by (simp add: visitVarScope_def Let_def f)
qed

lemma packageLink_twice:
  assumes "packageLink f at s = (at', s')"
  shows "s' = (if elimCells f then s else incOpt (packagep at) s)"
    and "scrub at' = scrub at"
    and "packageLink f at' s0 = (at', if elimCells f then s0 else incOpt (packagep at) s0)"
  using assms
  by (auto simp: packageLink_def incOpt_def scrub_def split: option.splits if_splits)

text \<open>A visit function that unlinks nothing does the same again on the node it left.\<close>

lemma visitPost_again:
  assumes run: "visitPost f h a at r1 r2 r3 r4 s = Inr (r, s')" and nd: "deaths s' = deaths s"
    and ag: "agree h2 h"
  shows "\<exists>at'. r = [Node a at' r1 r2 r3 r4] \<and> scrub at' = scrub at
           \<and> visitPost f h2 a at' r1 r2 r3 r4 (s\<lparr>rootp := x\<rparr>) = Inr (r, s'\<lparr>rootp := x\<rparr>)"
proof -
  have same: ?thesis
    if "r = [Node a at r1 r2 r3 r4]"
      "visitPost f h2 a at r1 r2 r3 r4 (s\<lparr>rootp := x\<rparr>) = Inr (r, s'\<lparr>rootp := x\<rparr>)"
    using that by (intro exI[of _ at]) simp
  show ?thesis
  proof (cases "ntype at")
    case AstNetlist
    with run show ?thesis by (intro same) (auto simp: visitPost_def)
  next
    case AstNodeAssign
    with run show ?thesis by (intro same) (auto simp: visitPost_def)
  next
    case AstNodeMath
    with run show ?thesis by (intro same) (auto simp: visitPost_def)
  next
    case AstNode
    with run show ?thesis by (intro same) (auto simp: visitPost_def)
  next
    case AstModule
    with run show ?thesis by (intro same) (auto simp: visitPost_def)
  next
    case AstPackage
    with run show ?thesis by (intro same) (auto simp: visitPost_def)
  next
    case AstCFunc
    with run show ?thesis by (intro same) (auto simp: visitPost_def)
  next
    case AstNodeClassDType
    with run show ?thesis by (intro same) (auto simp: visitPost_def)
  next
    case AstMemberDType
    with run show ?thesis by (intro same) (auto simp: visitPost_def)
  next
    case AstNodeDType
    with run show ?thesis by (intro same) (auto simp: visitPost_def)
  next
    case AstScope
    with run show ?thesis by (intro same) (auto simp: visitPost_def Let_def)
  next
    case AstCell
    with run show ?thesis
      by (intro same) (auto simp: visitPost_def Let_def user1Inc_def checkAll_eq split: option.splits)
  next
    case AstVar
    with run show ?thesis by (intro same) (auto simp: visitPost_def Let_def)
  next
    case AstModport
    with run nd have "r = [Node a at r1 r2 r3 r4]" "s' = checkAll a at s" "\<not> (elimCells f \<and> r1 = [])"
      by (auto simp: visitPost_def pushDeletep_def split: if_splits)
    with AstModport show ?thesis by (intro same) (auto simp: visitPost_def)
  next
    case AstTypedef
    with run nd have "r = [Node a at r1 r2 r3 r4]" "s' = pinPackage (attrPublic at) (checkAll a at s)"
      "\<not> (elimCells f \<and> \<not> attrPublic at)"
      by (auto simp: visitPost_def pushDeletep_def split: if_splits)
    with AstTypedef show ?thesis by (intro same) (auto simp: visitPost_def)
  next
    case AstVarScope
    with run have v: "visitVarScope f h a at s = Inr s'" and r: "r = [Node a at r1 r2 r3 r4]"
      by (auto simp: visitPost_def split: sum.splits)
    from visitVarScope_again[OF v ag refl, of x] r AstVarScope show ?thesis
      by (intro same) (auto simp: visitPost_def)
  next
    case AstVarRef
    with run obtain s1 at' where v: "visitVarRef h a at s = Inr s1" and l: "packageLink f at s1 = (at', s')"
      and r: "r = [Node a at' r1 r2 r3 r4]"
      by (auto simp: visitPost_def split: sum.splits prod.splits)
    note t = packageLink_twice[OF l]
    have k: "ntype at' = AstVarRef" using scrub_eq_fields(1)[OF t(2)] AstVarRef by simp
    from visitVarRef_again[OF v ag t(2), of x] t(1) t(3)[of "s1\<lparr>rootp := x\<rparr>"] r k t(2)
    show ?thesis by (intro exI[of _ at']) (auto simp: visitPost_def)
  next
    case AstVarXRef
    with run obtain s1 at' where v: "visitVarRef h a at s = Inr s1" and l: "packageLink f at s1 = (at', s')"
      and r: "r = [Node a at' r1 r2 r3 r4]"
      by (auto simp: visitPost_def split: sum.splits prod.splits)
    note t = packageLink_twice[OF l]
    have k: "ntype at' = AstVarXRef" using scrub_eq_fields(1)[OF t(2)] AstVarXRef by simp
    from visitVarRef_again[OF v ag t(2), of x] t(1) t(3)[of "s1\<lparr>rootp := x\<rparr>"] r k t(2)
    show ?thesis by (intro exI[of _ at']) (auto simp: visitPost_def)
  next
    case AstNodeFTaskRef
    with run obtain at' where l: "packageLink f at (checkAll a at s) = (at', s')"
      and r: "r = [Node a at' r1 r2 r3 r4]"
      by (auto simp: visitPost_def split: sum.splits prod.splits)
    note t = packageLink_twice[OF l]
    have k: "ntype at' = AstNodeFTaskRef" using scrub_eq_fields(1)[OF t(2)] AstNodeFTaskRef by simp
    from t(1) t(3)[of "(checkAll a at s)\<lparr>rootp := x\<rparr>"] r k t(2) checkAll_scrub[OF t(2)]
    show ?thesis by (intro exI[of _ at']) (auto simp: visitPost_def)
  next
    case AstRefDType
    with run obtain at' where l: "packageLink f at (checkAll a at (checkDType f a at s)) = (at', s')"
      and r: "r = [Node a at' r1 r2 r3 r4]"
      by (auto simp: visitPost_def split: sum.splits prod.splits)
    note t = packageLink_twice[OF l]
    have k: "ntype at' = AstRefDType" using scrub_eq_fields(1)[OF t(2)] AstRefDType by simp
    from t(1) t(3)[of "(checkAll a at (checkDType f a at s))\<lparr>rootp := x\<rparr>"] r k t(2)
      checkAll_scrub[OF t(2)] checkDType_scrub[OF t(2)]
    show ?thesis by (intro exI[of _ at']) (auto simp: visitPost_def)
  next
    case AstEnumItemRef
    with run obtain at' s1 where l: "packageLink f at (checkAll a at s) = (at', s1)"
      and s': "s' = checkAll a at' s1" and r: "r = [Node a at' r1 r2 r3 r4]"
      by (auto simp: visitPost_def split: sum.splits prod.splits)
    note t = packageLink_twice[OF l]
    have k: "ntype at' = AstEnumItemRef" using scrub_eq_fields(1)[OF t(2)] AstEnumItemRef by simp
    from t(1) t(3)[of "(checkAll a at s)\<lparr>rootp := x\<rparr>"] r k t(2) s' checkAll_scrub[OF t(2)]
    show ?thesis by (intro exI[of _ at']) (auto simp: visitPost_def)
  qed
qed


lemma iterateAndNext_append:
  "iterateAndNext f h (xs @ ys) s =
     (case iterateAndNext f h xs s of
        Inl e \<Rightarrow> Inl e
      | Inr (r, s1) \<Rightarrow>
          (case iterateAndNext f h ys s1 of
             Inl e \<Rightarrow> Inl e
           | Inr (rs, s2) \<Rightarrow> Inr (r @ rs, s2)))"
  by (induction xs arbitrary: s) (auto split: sum.splits)

text \<open>A visit that unlinks nothing leaves a list of the same nodes, up to nulled package
  pointers, and a second visit of that list, from the same state, ends in the same
  state and changes nothing.\<close>

definition replay :: "mode \<Rightarrow> node \<Rightarrow> node list \<Rightarrow> dv \<Rightarrow> node list \<Rightarrow> dv \<Rightarrow> bool" where
  "replay f h ns s rs s' =
     ((\<exists>new. deaths s' = deaths s @ new)
      \<and> (deaths s' = deaths s \<longrightarrow>
            length rs = length ns \<and> map key (nodes_list rs) = map key (nodes_list ns)
            \<and> (\<forall>h2 x. agree h2 h \<longrightarrow>
                  iterateAndNext f h2 rs (s\<lparr>rootp := x\<rparr>) = Inr (rs, s'\<lparr>rootp := x\<rparr>))))"

lemma replay_same:
  "replay f h [] s [] s"
  by (simp add: replay_def)

lemma replay_pre:
  "replay f h ns s0 rs s' \<Longrightarrow> deaths s0 = deaths s \<Longrightarrow>
     (\<And>x. s0\<lparr>rootp := x\<rparr> = g (s\<lparr>rootp := x\<rparr>)) \<Longrightarrow>
     (\<exists>new. deaths s' = deaths s @ new)
      \<and> (deaths s' = deaths s \<longrightarrow>
            length rs = length ns \<and> map key (nodes_list rs) = map key (nodes_list ns)
            \<and> (\<forall>h2 x. agree h2 h \<longrightarrow>
                  iterateAndNext f h2 rs (g (s\<lparr>rootp := x\<rparr>)) = Inr (rs, s'\<lparr>rootp := x\<rparr>)))"
  by (simp add: replay_def)

lemma replay_append:
  assumes "replay f h xs s r s1" "replay f h ys s1 rs s2"
  shows "replay f h (xs @ ys) s (r @ rs) s2"
proof -
  from assms obtain new1 new2 where d: "deaths s1 = deaths s @ new1" "deaths s2 = deaths s1 @ new2"
    unfolding replay_def by blast
  have "length (r @ rs) = length (xs @ ys)
        \<and> map key (nodes_list (r @ rs)) = map key (nodes_list (xs @ ys))
        \<and> (\<forall>h2 x. agree h2 h \<longrightarrow>
              iterateAndNext f h2 (r @ rs) (s\<lparr>rootp := x\<rparr>) = Inr (r @ rs, s2\<lparr>rootp := x\<rparr>))"
    if "deaths s2 = deaths s"
  proof -
    from that d have e: "deaths s1 = deaths s" "deaths s2 = deaths s1" by auto
    from assms(1) e(1) have 1: "length r = length xs" "map key (nodes_list r) = map key (nodes_list xs)"
      "\<And>h2 x. agree h2 h \<Longrightarrow> iterateAndNext f h2 r (s\<lparr>rootp := x\<rparr>) = Inr (r, s1\<lparr>rootp := x\<rparr>)"
      unfolding replay_def by auto
    from assms(2) e(2) have 2: "length rs = length ys" "map key (nodes_list rs) = map key (nodes_list ys)"
      "\<And>h2 x. agree h2 h \<Longrightarrow> iterateAndNext f h2 rs (s1\<lparr>rootp := x\<rparr>) = Inr (rs, s2\<lparr>rootp := x\<rparr>)"
      unfolding replay_def by auto
    show ?thesis using 1 2 by (simp add: iterateAndNext_append)
  qed
  then show ?thesis unfolding replay_def using d by auto
qed

lemma replay_split:
  assumes "replay f h ns s rs s'" "deaths s' = deaths s"
  shows "length rs = length ns" "map key (nodes_list rs) = map key (nodes_list ns)"
    "\<And>h2 x. agree h2 h \<Longrightarrow> iterateAndNext f h2 rs (s\<lparr>rootp := x\<rparr>) = Inr (rs, s'\<lparr>rootp := x\<rparr>)"
  using assms unfolding replay_def by auto

lemma replay_grow: "replay f h ns s rs s' \<Longrightarrow> \<exists>new. deaths s' = deaths s @ new"
  by (simp add: replay_def)

lemma visitPost_grow:
  "visitPost f h a at r1 r2 r3 r4 s = Inr (r, s') \<Longrightarrow> \<exists>new. deaths s' = deaths s @ new"
  using visitPost_cands[of f h a at r1 r2 r3 r4 s r s'] by (auto simp: pushDeletep_def)

lemma visit_replay:
  "visit f h n s = Inr (r, s') \<Longrightarrow> replay f h [n] s r s'"
proof -
  let ?R = "\<lambda>n s r s'. replay f h [n] s r s'"
  let ?RL = "\<lambda>ns s rs s'. replay f h ns s rs s'"
  show "visit f h n s = Inr (r, s') \<Longrightarrow> ?R n s r s'"
  proof (rule visit_rule_node[where R = ?R and RL = ?RL])
    fix s show "?RL [] s [] s" by (rule replay_same)
  next
    fix n ns s r s1 rs s2
    assume "?R n s r s1" "?RL ns s1 rs s2"
    from replay_append[OF this] show "?RL (n # ns) s (r @ rs) s2" by simp
  next
    fix a at o1 o2 o3 o4 s r1 s1 r2 s2 r3 s3 r4 s4 r s'
    assume k: "ntype at \<noteq> AstNodeAssign"
      and 1: "?RL o1 (visitPre a at s) r1 s1" and 2: "?RL o2 s1 r2 s2"
      and 3: "?RL o3 s2 r3 s3" and 4: "?RL o4 s3 r4 s4"
      and po: "visitPost f h a at r1 r2 r3 r4 s4 = Inr (r, s')"
    let ?n = "Node a at o1 o2 o3 o4"
    from replay_grow[OF 1] replay_grow[OF 2] replay_grow[OF 3] replay_grow[OF 4] visitPost_grow[OF po]
    obtain n1 n2 n3 n4 n5 where g: "deaths s1 = deaths s @ n1" "deaths s2 = deaths s1 @ n2"
      "deaths s3 = deaths s2 @ n3" "deaths s4 = deaths s3 @ n4" "deaths s' = deaths s4 @ n5"
      by auto
    have "length r = length [?n] \<and> map key (nodes_list r) = map key (nodes_list [?n])
        \<and> (\<forall>h2 x. agree h2 h \<longrightarrow>
              iterateAndNext f h2 r (s\<lparr>rootp := x\<rparr>) = Inr (r, s'\<lparr>rootp := x\<rparr>))"
      if nd: "deaths s' = deaths s"
    proof -
      from nd g have e: "deaths s1 = deaths (visitPre a at s)" "deaths s2 = deaths s1"
        "deaths s3 = deaths s2" "deaths s4 = deaths s3" "deaths s' = deaths s4" by auto
      note c1 = replay_split[OF 1 e(1)] and c2 = replay_split[OF 2 e(2)]
        and c3 = replay_split[OF 3 e(3)] and c4 = replay_split[OF 4 e(4)]
      have again: "iterateAndNext f h2 r (s\<lparr>rootp := x\<rparr>) = Inr (r, s'\<lparr>rootp := x\<rparr>)"
        if ag: "agree h2 h" for h2 x
      proof -
        from visitPost_again[OF po e(5) ag, of x] obtain at' where
          r: "r = [Node a at' r1 r2 r3 r4]" and sc: "scrub at' = scrub at"
          and p2: "visitPost f h2 a at' r1 r2 r3 r4 (s4\<lparr>rootp := x\<rparr>) = Inr (r, s'\<lparr>rootp := x\<rparr>)"
          by blast
        have nt: "ntype at' \<noteq> AstNodeAssign" using scrub_eq_fields(1)[OF sc] k by simp
        have pre: "visitPre a at' (s\<lparr>rootp := x\<rparr>) = (visitPre a at s)\<lparr>rootp := x\<rparr>"
          using visitPre_scrub[OF sc] by simp
        have "visit f h2 (Node a at' r1 r2 r3 r4) (s\<lparr>rootp := x\<rparr>) = Inr (r, s'\<lparr>rootp := x\<rparr>)"
          using nt pre c1(3)[OF ag, of x] c2(3)[OF ag, of x] c3(3)[OF ag, of x] c4(3)[OF ag, of x] p2
          by simp
        then show ?thesis unfolding r by simp
      qed
      from visitPost_again[OF po e(5), of h h] obtain at' where
        r: "r = [Node a at' r1 r2 r3 r4]" and sc: "scrub at' = scrub at"
        by (auto simp: agree_def)
      have "map key (nodes_list r) = map key (nodes_list [?n])"
        unfolding r using sc c1(2) c2(2) c3(2) c4(2) by simp
      with again r show ?thesis by simp
    qed
    then show "?R ?n s r s'" unfolding replay_def using g by auto
  next
    fix a and at :: attrs and o1 l ls o3 o4 s r1 s1 vs
    assume k: "ntype at = AstNodeAssign" and ne: "o1 \<noteq> []"
      and 1: "?RL o1 (s\<lparr>m_sideEffect := False\<rparr>) r1 s1"
      and lv: "ntype (attrs_of l) = AstVarRef" "\<not> m_sideEffect s1" "varScopep (attrs_of l) = Some vs"
    let ?n = "Node a at o1 (l # ls) o3 o4"
    let ?r = "[Node a at r1 (l # ls) o3 o4]"
    let ?s' = "checkAll a at (checkAll (addr_of l) (attrs_of l)
            ((checkAll a at s1)\<lparr>m_assignMap := m_assignMap s1 @ [(vs, a)]\<rparr>))"
    from replay_grow[OF 1] obtain n1 where g: "deaths s1 = deaths s @ n1" by auto
    have "length ?r = length [?n] \<and> map key (nodes_list ?r) = map key (nodes_list [?n])
        \<and> (\<forall>h2 x. agree h2 h \<longrightarrow>
              iterateAndNext f h2 ?r (s\<lparr>rootp := x\<rparr>) = Inr (?r, ?s'\<lparr>rootp := x\<rparr>))"
      if nd: "deaths ?s' = deaths s"
    proof -
      from nd have e: "deaths s1 = deaths (s\<lparr>m_sideEffect := False\<rparr>)" by simp
      note c1 = replay_split[OF 1 e]
      from c1(1) ne obtain y ys where r1: "r1 = y # ys" by (cases r1) auto
      have again: "iterateAndNext f h2 ?r (s\<lparr>rootp := x\<rparr>) = Inr (?r, ?s'\<lparr>rootp := x\<rparr>)"
        if ag: "agree h2 h" for h2 x
      proof -
        have "iterateAndNext f h2 r1 (s\<lparr>m_sideEffect := False, rootp := x\<rparr>) = Inr (r1, s1\<lparr>rootp := x\<rparr>)"
          using c1(3)[OF ag, of x] by simp
        then have "visit f h2 (Node a at r1 (l # ls) o3 o4) (s\<lparr>rootp := x\<rparr>)
            = Inr (?r, ?s'\<lparr>rootp := x\<rparr>)"
          using k lv r1 by (simp add: rootp_out)
        then show ?thesis by simp
      qed
      show ?thesis using again c1(2) by simp
    qed
    then show "?R ?n s ?r ?s'" unfolding replay_def using g by auto
  next
    fix a and at :: attrs and o1 l ls o3 o4 s r1 s1 r2 s2
    assume k: "ntype at = AstNodeAssign" and ne: "o1 \<noteq> []"
      and 1: "?RL o1 (s\<lparr>m_sideEffect := False\<rparr>) r1 s1"
      and nr: "\<not> (ntype (attrs_of l) = AstVarRef \<and> \<not> m_sideEffect s1 \<and> varScopep (attrs_of l) \<noteq> None)"
      and 2: "?RL (l # ls) (checkAll a at s1) r2 s2"
    let ?n = "Node a at o1 (l # ls) o3 o4"
    let ?r = "[Node a at r1 r2 o3 o4]"
    from replay_grow[OF 1] replay_grow[OF 2] obtain n1 n2 where
      g: "deaths s1 = deaths s @ n1" "deaths s2 = deaths s1 @ n2" by auto
    have "length ?r = length [?n] \<and> map key (nodes_list ?r) = map key (nodes_list [?n])
        \<and> (\<forall>h2 x. agree h2 h \<longrightarrow>
              iterateAndNext f h2 ?r (s\<lparr>rootp := x\<rparr>) = Inr (?r, (checkAll a at s2)\<lparr>rootp := x\<rparr>))"
      if nd: "deaths (checkAll a at s2) = deaths s"
    proof -
      from nd g have e: "deaths s1 = deaths (s\<lparr>m_sideEffect := False\<rparr>)"
        "deaths s2 = deaths (checkAll a at s1)" by auto
      note c1 = replay_split[OF 1 e(1)] and c2 = replay_split[OF 2 e(2)]
      from c1(1) ne obtain y ys where r1: "r1 = y # ys" by (cases r1) auto
      from c2(1) obtain l' ls' where r2: "r2 = l' # ls'" by (cases r2) auto
      have l': "key l' = key l"
      proof -
        have "hd (map key (nodes_list r2)) = hd (map key (nodes_list (l # ls)))" using c2(2) by simp
        then show ?thesis unfolding r2 by (cases l'; cases l) simp
      qed
      then have la: "ntype (attrs_of l') = ntype (attrs_of l)"
        "varScopep (attrs_of l') = varScopep (attrs_of l)"
        using scrub_eq_fields(1,8)[of "attrs_of l'" "attrs_of l"] by (simp_all add: key_def)
      have again: "iterateAndNext f h2 ?r (s\<lparr>rootp := x\<rparr>) = Inr (?r, (checkAll a at s2)\<lparr>rootp := x\<rparr>)"
        if ag: "agree h2 h" for h2 x
      proof -
        have i1: "iterateAndNext f h2 r1 (s\<lparr>m_sideEffect := False, rootp := x\<rparr>) = Inr (r1, s1\<lparr>rootp := x\<rparr>)"
          using c1(3)[OF ag, of x] by simp
        have i2: "iterateAndNext f h2 r2 ((checkAll a at s1)\<lparr>rootp := x\<rparr>) = Inr (r2, s2\<lparr>rootp := x\<rparr>)"
          using c2(3)[OF ag, of x] by simp
        have "visit f h2 (Node a at r1 r2 o3 o4) (s\<lparr>rootp := x\<rparr>)
            = Inr (?r, (checkAll a at s2)\<lparr>rootp := x\<rparr>)"
        proof (cases "ntype (attrs_of l) = AstVarRef \<and> \<not> m_sideEffect s1")
          case True
          with nr have "varScopep (attrs_of l) = None" by simp
          with True la k r1 i1 i2 show ?thesis unfolding r2 by (simp add: rootp_out)
        next
          case False
          with la k r1 i1 i2 show ?thesis unfolding r2 by (auto simp: rootp_out)
        qed
        then show ?thesis by simp
      qed
      show ?thesis using again c1(2) c2(2) by simp
    qed
    then show "?R ?n s ?r (checkAll a at s2)" unfolding replay_def using g by auto
  qed
qed


lemma countRefs_again:
  assumes "countRefs f t = Inr s" "deaths s = []"
  shows "countRefs f (rootp s) = Inr s" "map key (nodes (rootp s)) = map key (nodes t)"
proof -
  from assms(1) obtain r s0 n ns where v: "visit f t t (dv_init t) = Inr (r, s0)"
    and r: "r = n # ns" and s: "s = s0\<lparr>rootp := n\<rparr>"
    by (auto simp: countRefs_def split: sum.splits list.splits)
  have d: "deaths s0 = deaths (dv_init t)" using assms(2) s by (simp add: dv_init_def)
  note c = replay_split[OF visit_replay[OF v] d]
  from c(1) r have r1: "r = [n]" by simp
  from c(2) have kn: "map key (nodes n) = map key (nodes t)" unfolding r1 by simp
  then show "map key (nodes (rootp s)) = map key (nodes t)" unfolding s by simp
  from kn have "agree n t" by (rule agree_keys)
  from c(3)[OF this, of n] have "iterateAndNext f n [n] ((dv_init t)\<lparr>rootp := n\<rparr>) = Inr ([n], s)"
    unfolding r1 s .
  moreover have "(dv_init t)\<lparr>rootp := n\<rparr> = dv_init n" by (simp add: dv_init_def)
  ultimately have "visit f n n (dv_init n) = Inr ([n], s)"
    by (auto split: sum.splits)
  then show "countRefs f (rootp s) = Inr s" unfolding countRefs_def using s by simp
qed

text \<open>A sweep that unlinks nothing leaves the tree alone.\<close>

definition still :: "dv \<Rightarrow> dv \<Rightarrow> bool" where
  "still s s' =
     ((\<exists>new. deaths s' = deaths s @ new)
      \<and> (deaths s' = deaths s \<longrightarrow> rootp s' = rootp s \<and> m_deleteps s' = m_deleteps s))"

lemma still_same:
  "rootp s' = rootp s \<Longrightarrow> m_deleteps s' = m_deleteps s \<Longrightarrow> deaths s' = deaths s \<Longrightarrow> still s s'"
  by (simp add: still_def)

lemma still_trans: "still s s1 \<Longrightarrow> still s1 s2 \<Longrightarrow> still s s2"
  unfolding still_def by auto

lemma still_unlink:
  "unlinkDelete st u a s1 = Inr s2 \<Longrightarrow> deaths s1 = deaths s \<Longrightarrow> still s s2"
  using unlinkDelete_deaths[of st u a s1 s2] by (auto simp: still_def)

lemma rootp_simps [simp]:
  "rootp (user1Inc b k s) = rootp s" "rootp (decOpt p s) = rootp s"
  by (simp_all add: user1Inc_def decOpt_eq)

lemma deadAssigns_still: "deadAssigns as s = Inr s' \<Longrightarrow> still s s'"
proof (induction as arbitrary: s)
  case Nil
  then show ?case by (simp add: still_same)
next
  case (Cons assp rest)
  from Cons.prems obtain an d s2 where
    u: "unlinkDelete DeadAssign (user1 s) assp (user1Inc d (- 1) s) = Inr s2"
    and r: "deadAssigns rest s2 = Inr s'"
    by (auto split: option.splits sum.splits)
  from still_unlink[OF u, of s] Cons.IH[OF r] show ?case by (auto intro: still_trans)
qed

lemma deadVarScope_still: "deadVarScope vscp s = Inr s' \<Longrightarrow> still s s'"
proof -
  assume "deadVarScope vscp s = Inr s'"
  then obtain s1 vn d where
    a: "deadAssigns (equal_range (m_assignMap s) vscp) s = Inr s1"
    and u: "unlinkDelete DeadVarScope (user1 s) vscp
              (user1Inc d (- 1) (decOpt (scopep (attrs_of vn)) s1)) = Inr s'"
    by (auto simp: deadVarScope_def split: sum.splits option.splits)
  from deadAssigns_still[OF a] still_unlink[OF u, of s1] show ?thesis by (auto intro: still_trans)
qed

lemma deadVarScopes_still: "deadVarScopes vs s = Inr s' \<Longrightarrow> still s s'"
proof (induction vs arbitrary: s)
  case Nil
  then show ?case by (simp add: still_same)
next
  case (Cons vscp rest)
  show ?case
  proof (cases "user1 s vscp = 0")
    case True
    with Cons.prems obtain s1 where k: "deadVarScope vscp s = Inr s1"
      and r: "deadVarScopes rest s1 = Inr s'"
      by (auto split: sum.splits)
    from deadVarScope_still[OF k] Cons.IH[OF r] show ?thesis by (rule still_trans)
  next
    case False
    with Cons.prems have "deadVarScopes rest s = Inr s'" by simp
    from Cons.IH[OF this] show ?thesis .
  qed
qed

lemma deadVar_still: "deadVar vp s = Inr s' \<Longrightarrow> still s s'"
  using still_unlink[of DeadVar "user1 s" vp _ s' s]
  by (auto simp: deadVar_def split: option.splits)

lemma deadScope_still: "deadScope scp s = Inr s' \<Longrightarrow> still s s'"
  using still_unlink[of DeadScope "user1 s" scp _ s' s]
  by (auto simp: deadScope_def split: option.splits)

lemma sweepPass_still:
  assumes kill: "\<And>p s s1. kill p s = Inr s1 \<Longrightarrow> still s s1"
  shows "sweepPass kill slots s = Inr (slots', s', retry) \<Longrightarrow> still s s'"
proof (induction slots arbitrary: s slots' retry)
  case Nil
  then show ?case by (simp add: still_same)
next
  case (Cons x rest)
  show ?case
  proof (cases x)
    case None
    with Cons.prems obtain rest' where "sweepPass kill rest s = Inr (rest', s', retry)"
      by (auto split: sum.splits)
    from Cons.IH[OF this] show ?thesis .
  next
    case (Some p)
    show ?thesis
    proof (cases "user1 s p = 0")
      case True
      with Cons.prems Some obtain s1 rest' r where
        k: "kill p s = Inr s1" and r: "sweepPass kill rest s1 = Inr (rest', s', r)"
        by (auto split: sum.splits)
      from kill[OF k] Cons.IH[OF r] show ?thesis by (rule still_trans)
    next
      case False
      with Cons.prems Some obtain rest' where "sweepPass kill rest s = Inr (rest', s', retry)"
        by (auto split: sum.splits)
      from Cons.IH[OF this] show ?thesis .
    qed
  qed
qed

lemma sweepLoop_still:
  assumes kill: "\<And>p s s1. kill p s = Inr s1 \<Longrightarrow> still s s1"
    and run: "sweepLoop kill slots s = Some (Inr (slots', s'))"
  shows "still s s'"
proof (rule sweepLoop_rule[OF run, where P = "\<lambda>slots s. still s s'"])
  show "still s' s'" by (simp add: still_same)
next
  fix slots s slots1 s1
  assume "sweepPass kill slots s = Inr (slots1, s1, True)" "still s1 s'"
  with sweepPass_still[of kill slots s slots1 s1 True] kill show "still s s'"
    by (blast intro: still_trans)
qed

lemma deadDTypes_still: "deadDTypes ds s = Inr s' \<Longrightarrow> still s s'"
proof (induction ds arbitrary: s)
  case Nil
  then show ?case by (simp add: still_same)
next
  case (Cons d ds)
  show ?case
  proof (cases "\<exists>s1. unlinkDelete DeadDType (user1 s) d s = Inr s1 \<and> deadDTypes ds s1 = Inr s'")
    case True
    then obtain s1 where u: "unlinkDelete DeadDType (user1 s) d s = Inr s1"
      and r: "deadDTypes ds s1 = Inr s'" by blast
    from still_unlink[OF u, of s] Cons.IH[OF r] show ?thesis by (auto intro: still_trans)
  next
    case False
    then have "deadDTypes ds s = Inr s'"
      using Cons.prems by (auto split: if_splits option.splits sum.splits)
    from Cons.IH[OF this] show ?thesis .
  qed
qed

lemma deadCells_still: "deadCells cs s = Inr s' \<Longrightarrow> still s s'"
proof (induction cs arbitrary: s)
  case Nil
  then show ?case by (simp add: still_same)
next
  case (Cons c cs)
  show ?case
  proof (cases "\<exists>m s1. unlinkDelete DeadCell (user1 s) c (user1Inc m (- 1) s) = Inr s1
                  \<and> deadCells cs s1 = Inr s'")
    case True
    then obtain m s1 where u: "unlinkDelete DeadCell (user1 s) c (user1Inc m (- 1) s) = Inr s1"
      and r: "deadCells cs s1 = Inr s'" by blast
    from still_unlink[OF u, of s] Cons.IH[OF r] show ?thesis by (auto intro: still_trans)
  next
    case False
    then have "deadCells cs s = Inr s'"
      using Cons.prems by (auto split: if_splits option.splits sum.splits)
    from Cons.IH[OF this] show ?thesis .
  qed
qed

lemma deadCheckVar_still:
  assumes "deadCheckVar s = Some (Inr s')"
  shows "still s s'"
proof -
  from assms obtain s1 slots s2 where
    a: "deadVarScopes (m_vscsp s) s = Inr s1"
    and b: "sweepLoop deadVar (m_varsp s1) s1 = Some (Inr (slots, s2))"
    and c: "deadDTypes (m_dtypesp s2) (s2\<lparr>m_varsp := slots\<rparr>) = Inr s'"
    by (auto simp: deadCheckVar_def split: option.splits sum.splits)
  have "still s2 (s2\<lparr>m_varsp := slots\<rparr>)" by (simp add: still_same)
  moreover have "still s1 s2" by (rule sweepLoop_still[OF _ b]) (rule deadVar_still)
  ultimately show ?thesis using deadVarScopes_still[OF a] deadDTypes_still[OF c]
    by (blast intro: still_trans)
qed

lemma deadCheckScope_still:
  assumes "deadCheckScope s = Some (Inr s')"
  shows "still s s'"
proof -
  from assms obtain slots s1 where
    b: "sweepLoop deadScope (m_scopesp s) s = Some (Inr (slots, s1))"
    and s': "s' = s1\<lparr>m_scopesp := slots\<rparr>"
    by (auto simp: deadCheckScope_def split: option.splits sum.splits)
  have "still s1 s'" unfolding s' by (simp add: still_same)
  moreover have "still s s1" by (rule sweepLoop_still[OF _ b]) (rule deadScope_still)
  ultimately show ?thesis by (blast intro: still_trans)
qed

lemma DeadModVisitor_tree:
  "DeadModVisitor n s = Inr s' \<Longrightarrow> rootp s' = rootp s \<and> m_deleteps s' = m_deleteps s"
  using DeadModVisitor_shape(1)[of n s s' UNIV] by (simp add: quiet_def)

lemma deadModPass_still:
  "deadModPass ms s = Inr (ms', s', retry) \<Longrightarrow>
     rootp s' = rootp s \<and> m_deleteps s' = m_deleteps s
     \<and> (\<exists>new. deaths s' = deaths s @ new) \<and> (deaths s' = deaths s \<longrightarrow> ms' = ms)"
proof (induction ms arbitrary: s ms' s' retry)
  case Nil
  then show ?case by simp
next
  case (Cons m ms)
  show ?case
  proof (cases "castNodeModule m")
    case False
    then show ?thesis using Cons.prems by auto
  next
    case True
    show ?thesis
    proof (cases "modDead (user1 s) m")
      case dead: True
      then obtain s1 r where
        v: "DeadModVisitor m s = Inr s1"
        and p: "deadModPass ms (s1\<lparr>deaths := deaths s1 @ [(DeadModule, m, user1 s)]\<rparr>) = Inr (ms', s', r)"
        using Cons.prems True by (auto simp: modDead_def split: sum.splits)
      have d1: "deaths s1 = deaths s" by (rule DeadModVisitor_deaths(1)[OF v])
      from Cons.IH[OF p] DeadModVisitor_tree[OF v] d1 show ?thesis by auto
    next
      case alive: False
      then obtain ms1 where
        p: "deadModPass ms s = Inr (ms1, s', retry)" and ms': "ms' = m # ms1"
        using Cons.prems True by (auto simp: modDead_def split: sum.splits)
      from Cons.IH[OF p] ms' show ?thesis by auto
    qed
  qed
qed

lemma deadModLoop_still:
  assumes "deadModLoop ms s = Some (Inr (ms', s'))"
  shows "rootp s' = rootp s \<and> m_deleteps s' = m_deleteps s
     \<and> (\<exists>new. deaths s' = deaths s @ new) \<and> (deaths s' = deaths s \<longrightarrow> ms' = ms)"
proof -
  let ?P = "\<lambda>ms s. rootp s' = rootp s \<and> m_deleteps s' = m_deleteps s
     \<and> (\<exists>new. deaths s' = deaths s @ new) \<and> (deaths s' = deaths s \<longrightarrow> ms' = ms)"
  show "?P ms s"
  proof (rule deadModLoop_rule[OF assms])
    show "?P ms' s'" by simp
  next
    fix ms s ms1 s1
    assume p: "deadModPass ms s = Inr (ms1, s1, True)" and ih: "?P ms1 s1"
    from deadModPass_still[OF p] ih show "?P ms s" by auto
  qed
qed

lemma setModules_same: "setModules (op1p n) n = n"
  by (cases n) (simp add: setModules_def)

lemma deadCheckMod_still:
  assumes "deadCheckMod s = Some (Inr s')"
  shows "still s s'"
proof -
  from assms obtain ms' s1 where
    l: "deadModLoop (op1p (rootp s)) s = Some (Inr (ms', s1))"
    and s': "s' = s1\<lparr>rootp := setModules ms' (rootp s1)\<rparr>"
    by (auto simp: deadCheckMod_def split: option.splits sum.splits)
  from deadModLoop_still[OF l] show ?thesis
    unfolding still_def s' by (auto simp: setModules_same)
qed

lemma DeadVisitor_again:
  assumes run: "DeadVisitor f t = Some (Inr s)" and nd: "deaths s = []"
  shows "DeadVisitor f (rootp s) = Some (Inr s)" "map key (nodes (rootp s)) = map key (nodes t)"
proof -
  from run obtain s0 s1 s2 s3 s4 where
    0: "countRefs f t = Inr s0" and 1: "deadCheckVar s0 = Some (Inr s1)"
    and 2: "(if elimScopes f then deadCheckScope s1 else Some (Inr s1)) = Some (Inr s2)"
    and 3: "(if elimCells f then Some (deadCheckCells s2) else Some (Inr s2)) = Some (Inr s3)"
    and 4: "deadCheckMod s3 = Some (Inr s4)" and 5: "s = s4\<lparr>m_deleteps := []\<rparr>"
    by (auto simp: DeadVisitor_def andThen_def split: option.splits sum.splits)
  have k1: "still s0 s1" by (rule deadCheckVar_still[OF 1])
  have k2: "still s1 s2"
    using 2 deadCheckScope_still[of s1 s2] by (auto simp: still_same split: if_splits)
  have k3: "still s2 s3"
    using 3 deadCells_still[of "m_cellsp s2" s2 s3]
    by (auto simp: still_same deadCheckCells_def split: if_splits)
  have k4: "still s3 s4" by (rule deadCheckMod_still[OF 4])
  have k: "still s0 s4" using k1 k2 k3 k4 by (blast intro: still_trans)
  have d4: "deaths s4 = []" using nd 5 by simp
  with k have d0: "deaths s0 = []" by (auto simp: still_def)
  with k d4 have "rootp s4 = rootp s0" by (auto simp: still_def)
  then have r: "rootp s = rootp s0" using 5 by simp
  from countRefs_again(1)[OF 0 d0] have "countRefs f (rootp s) = countRefs f t" unfolding r 0 .
  then show "DeadVisitor f (rootp s) = Some (Inr s)" using run by (simp add: DeadVisitor_def)
  from countRefs_again(2)[OF 0 d0] show "map key (nodes (rootp s)) = map key (nodes t)"
    unfolding r .
qed

text \<open>A module (2) that calls a task of the package 3 through the reference 6; the
  package holds a public variable (4).\<close>

definition ex_package_call :: node where
  "ex_package_call =
     Node 1 (plain AstNetlist)
       [Node 2 ((plain AstModule)\<lparr>level := 2\<rparr>) []
          [Node 6 ((plain AstNodeFTaskRef)\<lparr>packagep := Some 3\<rparr>) [] [] [] []] [] [],
        Node 3 ((plain AstPackage)\<lparr>level := 3\<rparr>) []
          [Node 4 ((plain AstVar)\<lparr>isSigPublic := True\<rparr>) [] [] [] []] [] []]
       [] [] []"

text \<open>
  Claim C2 as amended. Running an entry point a second time can delete more (the
  counterexample above). It is idempotent on a netlist that its first run left
  without unlinking anything: the second run, on the tree produced by the first,
  returns the very state the first run returned, so it unlinks nothing, nulls no
  package pointer and leaves the tree unchanged. The first run itself changes such a
  netlist at most by nulling package pointers (\<open>key\<close> is the address of a node with
  its fields apart from the package pointer). This holds for every mode, in particular
  for the five entry points.
\<close>

theorem C2_fixed_point:
  "DeadVisitor f t = Some (Inr s1) \<Longrightarrow> deaths s1 = [] \<Longrightarrow>
     DeadVisitor f (rootp s1) = Some (Inr s1)
     \<and> map key (nodes (rootp s1)) = map key (nodes t)
     \<and> (\<forall>g \<in> {deadifyModules, deadifyDTypes, deadifyDTypesScoped, deadifyAll, deadifyAllScoped}.
            g t = Some (Inr s1) \<longrightarrow> g (rootp s1) = Some (Inr s1))"
proof -
  assume run: "DeadVisitor f t = Some (Inr s1)" and nd: "deaths s1 = []"
  have "g (rootp s1) = Some (Inr s1)"
    if "g \<in> {deadifyModules, deadifyDTypes, deadifyDTypesScoped, deadifyAll, deadifyAllScoped}"
      "g t = Some (Inr s1)" for g
    using that DeadVisitor_again(1)[OF _ nd, of _ t]
    by (auto simp: deadifyModules_def deadifyDTypes_def deadifyDTypesScoped_def deadifyAll_def
        deadifyAllScoped_def)
  with DeadVisitor_again[OF run nd] show ?thesis by blast
qed

theorem C2_fixed_point_witness:
  "\<exists>s1. deadifyAll ex_package_call = Some (Inr s1) \<and> deaths s1 = []
     \<and> packagep (attrs_of (nodes ex_package_call ! 2)) = Some 3
     \<and> packagep (attrs_of (nodes (rootp s1) ! 2)) = None
     \<and> map addr_of (nodes (rootp s1)) = [1, 2, 6, 3, 4]
     \<and> deadifyAll (rootp s1) = Some (Inr s1)"
proof -
  obtain s1 where s1: "deadifyAll ex_package_call = Some (Inr s1)"
    by (simp add: run_defs ex_package_call_def)
  have f: "deaths s1 = []" "packagep (attrs_of (nodes ex_package_call ! 2)) = Some 3"
    "packagep (attrs_of (nodes (rootp s1) ! 2)) = None"
    "map addr_of (nodes (rootp s1)) = [1, 2, 6, 3, 4]"
    using s1 by (auto simp: run_defs ex_package_call_def)
  have r: "DeadVisitor modeAll ex_package_call = Some (Inr s1)"
    using s1 by (simp add: deadifyAll_def modeAll_def)
  from C2_fixed_point[OF r f(1)] s1 have "deadifyAll (rootp s1) = Some (Inr s1)" by simp
  with s1 f show ?thesis by (intro exI[of _ s1]) simp
qed

end
